(* ===== verification/Silk_Prelude.thy ===== *)
theory Silk_Prelude
  imports Main "HOL-Library.Word"
begin

unbundle bit_operations_syntax

section \<open>Shared types and lemmas\<close>

text \<open>
  The types every component uses (bytes, C strings, the ways a C function can fail to
  return), the lemma collections of the development, and the list lemmas that several
  components share.  Nothing here models a particular function of the program, but for the
  table \<open>timeo\<close> of timeo.c.
\<close>

type_synonym byte = "8 word"
type_synonym u16 = "16 word"
type_synonym u32 = "32 word"
type_synonym u64 = "64 word"

text \<open>The bytes of a C string, without its terminator.\<close>

type_synonym cstr = "byte list"

text \<open>A pointer to a heap string: None is the NULL pointer.\<close>

type_synonym cptr = "cstr option"

text \<open>
  What a C function does when it does not return a value of its own: it never returns, it
  reads through a NULL pointer, it reads or writes outside of a buffer, it copies a negative
  count of bytes, it uses memory that was freed or never set, or it divides by zero.  A function that can do so in the model returns \<open>c_fault + 'a\<close>.
\<close>

datatype c_fault = Hangs | Null_Deref | Buffer_Overflow | Bad_Memcpy | Use_After_Free | Div_By_Zero | Uninitialised

text \<open>
  \<open>strdup\<close> reads its argument, and gives NULL when it finds no memory.  A call that makes several
  copies has an argument of type \<open>copying\<close>, which says for each of them whether there is memory:
  copies are named by lists of numbers, those of a call within a call by longer lists.
\<close>

definition strdup :: "bool \<Rightarrow> cptr \<Rightarrow> c_fault + cptr" where
  "strdup memory s = (case s of None \<Rightarrow> Inl Null_Deref | Some t \<Rightarrow> Inr (if memory then Some t else None))"

text \<open>What a function gets that reads a string through a pointer.\<close>

definition c_string :: "cptr \<Rightarrow> c_fault + cstr" where
  "c_string s = (case s of None \<Rightarrow> Inl Null_Deref | Some t \<Rightarrow> Inr t)"

type_synonym copying = "nat list \<Rightarrow> bool"

lemma strdup_simps [simp]:
  "strdup m None = Inl Null_Deref" "strdup m (Some t) = Inr (if m then Some t else None)"
  by (simp_all add: strdup_def)

lemma c_string_simps [simp]: "c_string None = Inl Null_Deref" "c_string (Some t) = Inr t"
  by (simp_all add: c_string_def)

named_theorems io_simps \<open>functional behaviour of the socket calls\<close>
named_theorems probe_simps \<open>facts about the linear probing loop\<close>
named_theorems relay_simps \<open>unfolding rules of the relay loops\<close>

subsection \<open>C strings in buffers\<close>

definition c_str :: "byte list \<Rightarrow> cstr" where
  "c_str buf = takeWhile (\<lambda>b. b \<noteq> 0) buf"

lemma c_str_append_nul [simp]: "c_str (s @ 0 # rest) = c_str s"
  by (induction s) (simp_all add: c_str_def)

lemma c_str_id: "0 \<notin> set s \<Longrightarrow> c_str s = s"
  by (induction s) (auto simp: c_str_def)

lemma c_str_no_nul [simp]: "0 \<notin> set (c_str s)"
  by (auto simp: c_str_def dest: set_takeWhileD)

lemma c_str_idem [simp]: "c_str (c_str s) = c_str s"
  by (rule c_str_id) simp

lemma length_c_str: "length (c_str s) \<le> length s"
  by (simp add: c_str_def length_takeWhile_le)

subsection \<open>Lines of a file\<close>

text \<open>\<open>fgets\<close> into a buffer of \<open>n\<close> bytes: at most \<open>n - 1\<close> bytes, up to a newline.\<close>

fun fgets :: "nat \<Rightarrow> byte list \<Rightarrow> byte list \<times> byte list" where
  "fgets (Suc (Suc n)) (c # cs) =
     (if c = 10 then ([c], cs) else case fgets (Suc n) cs of (l, rest) \<Rightarrow> (c # l, rest))"
| "fgets _ cs = ([], cs)"

lemma fgets_rest: "fgets n cs = (l, rest) \<Longrightarrow> cs = l @ rest"
  by (induction n cs arbitrary: l rule: fgets.induct) (auto split: if_splits prod.splits)

lemma fgets_shorter: "fgets 16 (c # cs) = (l, rest) \<Longrightarrow> length rest < length (c # cs)"
proof -
  assume f: "fgets 16 (c # cs) = (l, rest)"
  then have "l \<noteq> []" by (auto simp: numeral_eq_Suc split: if_splits prod.splits)
  with fgets_rest [OF f] show ?thesis by (cases l) auto
qed

text \<open>
  Cutting off the newline: the byte before the terminator, if there is one.
\<close>

definition chop_newline :: "byte list \<Rightarrow> cstr" where
  "chop_newline l = (if c_str l \<noteq> [] \<and> last (c_str l) = 10 then butlast (c_str l) else c_str l)"

subsection \<open>Timeouts\<close>

text \<open>The enum of common.h and the seconds timeo.c gives each of its members.\<close>

datatype timeout = BYTE_S | BYTE_L | STRING_S | STRING_L | CONNECT_S | CONNECT_L

primrec timeo :: "timeout \<Rightarrow> nat" where
  "timeo BYTE_S = 5"
| "timeo BYTE_L = 10"
| "timeo STRING_S = 30"
| "timeo STRING_L = 60"
| "timeo CONNECT_S = 180"
| "timeo CONNECT_L = 1800"

lemma timeo_pos [simp]: "0 < timeo t"
  by (cases t) simp_all

subsection \<open>Lists\<close>

lemma nth_list_update_if:
  "i < length xs \<Longrightarrow> xs[i := v] ! j = (if j = i then v else xs ! j)"
  by simp

lemma length_filter_update_le:
  "length (filter P (xs[i := v])) \<le> Suc (length (filter P xs))"
proof (cases "i < length xs")
  case True
  have "xs[i := v] = take i xs @ v # drop (Suc i) xs"
    using True by (rule upd_conv_take_nth_drop)
  moreover have "xs = take i xs @ xs ! i # drop (Suc i) xs"
    using True by (rule id_take_nth_drop)
  then have "length (filter P xs) =
      length (filter P (take i xs)) + length (filter P (xs ! i # drop (Suc i) xs))"
    by (metis filter_append length_append)
  ultimately show ?thesis by simp
next
  case False
  then show ?thesis by (simp add: list_update_beyond)
qed

lemma ex_not_of_filter_less:
  assumes "length (filter P xs) < length xs"
  shows "\<exists>i < length xs. \<not> P (xs ! i)"
proof (rule ccontr)
  assume "\<not> ?thesis"
  then have "\<forall>x \<in> set xs. P x" by (auto simp: in_set_conv_nth)
  then have "filter P xs = xs" by (simp add: filter_id_conv)
  with assms show False by simp
qed

lemma find_filter_implied: "(\<And>x. P x \<Longrightarrow> Q x) \<Longrightarrow> find P (filter Q xs) = find P xs"
  by (induction xs) auto

lemma not_in_map: "(\<And>x. x \<in> set xs \<Longrightarrow> f x \<noteq> k) \<Longrightarrow> k \<notin> set (map f xs)"
  by auto

lemma take_drop_split: "i \<le> length b \<Longrightarrow> take k (drop i b) @ drop (i + k) b = drop i b"
  by (metis add.commute append_take_drop_id drop_drop)

end
