(* ===== verification/Silk_Io.thy ===== *)
theory Silk_Io
  imports Silk_Prelude
begin

section \<open>Blocking socket input and output (silkio.c)\<close>

text \<open>
  A connected stream socket is the sequence of things the kernel will answer to the calls
  made on it.  \<open>inp\<close> is what arrives: data segments, signals that interrupt a read, an
  error, the peer's FIN.  A read of \<open>n\<close> bytes takes at most \<open>n\<close> bytes of the first
  segment and leaves the rest.  \<open>room\<close> is what the kernel lets the program send: space for
  some bytes, interruptions, an error.  When a script is used up the peer stays silent, and
  the call ends with EAGAIN because the receive or send timeout set just before it expires.
  \<open>sent\<close> collects the bytes the program has handed to the kernel.
\<close>

datatype errno = EINTR | EAGAIN | EOTHER

datatype rd_event = RData "byte list" | RIntr | RFail | REof
datatype wr_event = WSpace nat | WIntr | WFail

record sock =
  inp :: "rd_event list"
  room :: "wr_event list"
  sent :: "byte list"
  rcvtimeo_ok :: bool
  sndtimeo_ok :: bool

datatype rd_result = RdErr errno | RdBytes "byte list"
datatype wr_result = WrErr errno | WrCount nat

text \<open>\<open>read(fd, ptr, n)\<close> for a positive \<open>n\<close>.  An empty result is the return value 0.\<close>

fun sys_read :: "nat \<Rightarrow> rd_event list \<Rightarrow> rd_result \<times> rd_event list" where
  "sys_read n [] = (RdErr EAGAIN, [])"
| "sys_read n (RIntr # es) = (RdErr EINTR, es)"
| "sys_read n (RFail # es) = (RdErr EOTHER, es)"
| "sys_read n (REof # es) = (RdBytes [], REof # es)"
| "sys_read n (RData [] # es) = sys_read n es"
| "sys_read n (RData (b # bs) # es) =
     (if length (b # bs) \<le> n then (RdBytes (b # bs), es)
      else (RdBytes (take n (b # bs)), RData (drop n (b # bs)) # es))"

text \<open>\<open>write(fd, ptr, n)\<close> for a positive \<open>n\<close>.\<close>

fun sys_write :: "nat \<Rightarrow> wr_event list \<Rightarrow> wr_result \<times> wr_event list" where
  "sys_write n [] = (WrErr EAGAIN, [])"
| "sys_write n (WIntr # es) = (WrErr EINTR, es)"
| "sys_write n (WFail # es) = (WrErr EOTHER, es)"
| "sys_write n (WSpace k # es) =
     (if k \<le> n then (WrCount k, es) else (WrCount n, WSpace (k - n) # es))"

subsection \<open>Options of a descriptor\<close>

text \<open>
  \<open>setnonblock\<close>: the two calls of \<open>fcntl\<close> answer with the flags, or an error, and with success
  or not.  The result is the return value and the flags when they were set.
\<close>

definition O_NONBLOCK :: u32 where
  "O_NONBLOCK = 0x800"

definition setnonblock :: "u32 option \<Rightarrow> bool \<Rightarrow> int \<times> u32 option" where
  "setnonblock getfl setfl_ok =
     (case getfl of
        None \<Rightarrow> (-1, None)
      | Some val \<Rightarrow> if \<not> setfl_ok then (-1, None) else (0, Some (val OR O_NONBLOCK)))"

lemma setnonblock_keeps:
  assumes "setnonblock (Some val) True = (0, Some f)"
  shows "bit f 11 \<and> (\<forall>n. n \<noteq> 11 \<longrightarrow> bit f n = bit val n)"
proof -
  have p: "(0x800 :: u32) = push_bit 11 1" by (simp add: push_bit_eq_mult)
  have b: "bit (push_bit 11 1 :: u32) n \<longleftrightarrow> n = 11" for n
    unfolding bit_push_bit_iff by (auto simp: bit_1_iff)
  have "f = val OR push_bit 11 1"
    using assms unfolding setnonblock_def O_NONBLOCK_def p by simp
  then show ?thesis unfolding bit_or_iff [of val] b by (metis bit_or_iff b)
qed

text \<open>Setting the receive and the send timeout of a socket: the return value.\<close>

definition setrcvtimeo :: "sock \<Rightarrow> int" where
  "setrcvtimeo s = (if rcvtimeo_ok s then 0 else -1)"

definition setsndtimeo :: "sock \<Rightarrow> int" where
  "setsndtimeo s = (if sndtimeo_ok s then 0 else -1)"

lemma timeo_fails [simp]:
  "setrcvtimeo s = -1 \<longleftrightarrow> \<not> rcvtimeo_ok s" "setsndtimeo s = -1 \<longleftrightarrow> \<not> sndtimeo_ok s"
  by (simp_all add: setrcvtimeo_def setsndtimeo_def)

subsection \<open>readn_timeo\<close>

text \<open>
  The loop of \<open>readn_timeo\<close>: \<open>nleft\<close> counts down, \<open>acc\<close> is what is already in the
  caller's buffer.  It ends because every turn uses up an event of the script or part of a
  segment.
\<close>

fun ev_size :: "rd_event list \<Rightarrow> nat" where
  "ev_size [] = 0"
| "ev_size (RData bs # es) = Suc (length bs) + ev_size es"
| "ev_size (e # es) = Suc (ev_size es)"

lemma ev_size_intr: "(RdErr EINTR, es') = sys_read n es \<Longrightarrow> ev_size es' < ev_size es"
  by (induction n es rule: sys_read.induct) (auto split: if_splits)

lemma ev_size_read:
  "(RdBytes (b # bs), es') = sys_read n es \<Longrightarrow> 0 < n \<Longrightarrow> ev_size es' < ev_size es"
  by (induction n es rule: sys_read.induct) (auto split: if_splits)

function readn_loop :: "nat \<Rightarrow> byte list \<Rightarrow> rd_event list \<Rightarrow> int \<times> byte list \<times> rd_event list"
where
  "readn_loop nleft acc es =
     (if nleft = 0 then (int (length acc), acc, es)
      else case sys_read nleft es of
        (RdErr e, es') \<Rightarrow>
          (if e = EINTR then readn_loop nleft acc es' else (-1, acc, es'))
      | (RdBytes [], es') \<Rightarrow> (int (length acc), acc, es')
      | (RdBytes (b # bs), es') \<Rightarrow>
          readn_loop (nleft - length (b # bs)) (acc @ b # bs) es')"
  by pat_completeness auto
termination
  by (relation "measure (\<lambda>(n, acc, es). ev_size es)")
     (auto simp: ev_size_intr ev_size_read)

declare readn_loop.simps [simp del]

definition readn_timeo :: "nat \<Rightarrow> sock \<Rightarrow> int \<times> byte list \<times> sock" where
  "readn_timeo n s =
     (if setrcvtimeo s = -1 then (-1, [], s)
      else case readn_loop n [] (inp s) of (r, bs, es) \<Rightarrow> (r, bs, s\<lparr>inp := es\<rparr>))"

subsection \<open>writen_timeo\<close>

lemma write_intr_length: "(WrErr EINTR, es') = sys_write n es \<Longrightarrow> length es' < length es"
  by (cases "(n, es)" rule: sys_write.cases) (auto split: if_splits)

lemma write_count_length:
  "(WrCount k, es') = sys_write n es \<Longrightarrow> length es' \<le> length es \<and> k \<le> n"
  by (cases "(n, es)" rule: sys_write.cases) (auto split: if_splits)

function writen_loop :: "byte list \<Rightarrow> byte list \<Rightarrow> wr_event list \<Rightarrow> bool \<times> byte list \<times> wr_event list"
where
  "writen_loop out rest es =
     (if rest = [] then (True, out, es)
      else case sys_write (length rest) es of
        (WrErr e, es') \<Rightarrow>
          (if e = EINTR then writen_loop out rest es' else (False, out, es'))
      | (WrCount k, es') \<Rightarrow>
          (if k = 0 then (False, out, es')
           else writen_loop (out @ take k rest) (drop k rest) es'))"
  by pat_completeness auto
termination
  by (relation "measure (\<lambda>(out, rest, es). length rest + length es)")
     (auto dest: write_intr_length write_count_length)

declare writen_loop.simps [simp del]

text \<open>The result is \<open>n\<close>, the number of bytes asked for, or -1.\<close>

definition writen_timeo :: "byte list \<Rightarrow> sock \<Rightarrow> int \<times> sock" where
  "writen_timeo bs s =
     (if setsndtimeo s = -1 then (-1, s)
      else case writen_loop [] bs (room s) of
        (ok, out, es) \<Rightarrow>
          (if ok then int (length bs) else -1, s\<lparr>room := es, sent := sent s @ out\<rparr>))"

subsection \<open>The stream a script delivers\<close>

text \<open>
  \<open>stream es\<close> is the byte sequence a reader of the script gets before an error, the end of
  file or silence: how it was cut into segments and where signals arrived is gone.
  \<open>capacity es\<close> is the number of bytes a writer can send.
\<close>

fun stream :: "rd_event list \<Rightarrow> byte list" where
  "stream [] = []"
| "stream (RData bs # es) = bs @ stream es"
| "stream (RIntr # es) = stream es"
| "stream (RFail # es) = []"
| "stream (REof # es) = []"

fun capacity :: "wr_event list \<Rightarrow> nat" where
  "capacity [] = 0"
| "capacity (WSpace k # es) = (if k = 0 then 0 else k + capacity es)"
| "capacity (WIntr # es) = capacity es"
| "capacity (WFail # es) = 0"

text \<open>How the stream ends.\<close>

fun stream_end :: "rd_event list \<Rightarrow> rd_event option" where
  "stream_end [] = None"
| "stream_end (RData bs # es) = stream_end es"
| "stream_end (RIntr # es) = stream_end es"
| "stream_end (RFail # es) = Some RFail"
| "stream_end (REof # es) = Some REof"


subsection \<open>What a read does to the stream\<close>

lemma sys_read_stream:
  assumes "0 < n"
  shows "case sys_read n es of
      (RdBytes bs, es') \<Rightarrow> stream es = bs @ stream es' \<and> length bs \<le> n
        \<and> stream_end es' = stream_end es
        \<and> (bs = [] \<longrightarrow> stream es = [] \<and> stream_end es = Some REof)
    | (RdErr e, es') \<Rightarrow>
        (if e = EINTR then stream es' = stream es \<and> stream_end es' = stream_end es
         else stream es = [] \<and> stream_end es \<noteq> Some REof)"
  using assms
  by (induction n es rule: sys_read.induct) (auto split: prod.splits rd_result.splits if_splits)

lemma sys_read_retry:
  "sys_read n es = (RdErr e, es') \<Longrightarrow> e = EAGAIN \<or> e = EINTR \<Longrightarrow>
   stream es' = stream es \<and> stream_end es' = stream_end es"
  by (induction n es rule: sys_read.induct) (auto split: if_splits)

lemma sys_read_fail: "sys_read n es = (RdErr EOTHER, es') \<Longrightarrow> stream_end es = Some RFail"
  by (induction n es rule: sys_read.induct) (auto split: if_splits)

lemma readn_loop_spec:
  "case readn_loop n acc es of (r, bs, es') \<Rightarrow>
     bs = acc @ take n (stream es)
     \<and> r = (if n \<le> length (stream es) then int (length acc + n)
            else if stream_end es = Some REof then int (length acc + length (stream es))
            else -1)
     \<and> (r = int (length acc + n) \<longrightarrow>
          stream es' = drop n (stream es) \<and> stream_end es' = stream_end es)"
proof (induction n acc es rule: readn_loop.induct)
  case (1 n acc es)
  show ?case
  proof (cases "n = 0")
    case True
    then show ?thesis by (simp add: readn_loop.simps)
  next
    case False
    then have n: "0 < n" by simp
    obtain r es' where rd: "sys_read n es = (r, es')" by (cases "sys_read n es")
    show ?thesis
    proof (cases r)
      case (RdErr e)
      with rd n sys_read_stream [OF n, of es] "1.IH"(1) [OF False rd [symmetric] RdErr]
      show ?thesis by (auto simp: readn_loop.simps [of n] split: if_splits prod.splits)
    next
      case (RdBytes bs)
      show ?thesis
      proof (cases bs)
        case Nil
        with RdBytes rd n sys_read_stream [OF n, of es]
        have "stream es = []" "stream_end es = Some REof" by auto
        with Nil RdBytes rd n show ?thesis by (simp add: readn_loop.simps [of n])
      next
        case (Cons b bs')
        with RdBytes rd sys_read_stream [OF n, of es]
        have st: "stream es = bs @ stream es'" "length bs \<le> n" "stream_end es' = stream_end es"
          by auto
        from "1.IH"(2) [OF False rd [symmetric] RdBytes Cons]
        have ih: "case readn_loop (n - length bs) (acc @ bs) es' of (r, cs, es'') \<Rightarrow>
           cs = (acc @ bs) @ take (n - length bs) (stream es')
           \<and> r = (if n - length bs \<le> length (stream es') then int (length (acc @ bs) + (n - length bs))
                  else if stream_end es' = Some REof then int (length (acc @ bs) + length (stream es'))
                  else -1)
           \<and> (r = int (length (acc @ bs) + (n - length bs)) \<longrightarrow>
                stream es'' = drop (n - length bs) (stream es') \<and> stream_end es'' = stream_end es')"
          by (simp only: Cons)
        have eq: "readn_loop n acc es = readn_loop (n - length bs) (acc @ bs) es'"
          using False rd RdBytes Cons by (simp add: readn_loop.simps [of n])
        show ?thesis
          unfolding eq using ih st by (auto split: prod.splits)
      qed
    qed
  qed
qed

lemma readn_timeo_stream:
  "case readn_timeo n s of (r, bs, s') \<Rightarrow>
     if rcvtimeo_ok s
     then bs = take n (stream (inp s))
        \<and> r = (if n \<le> length (stream (inp s)) then int n
               else if stream_end (inp s) = Some REof then int (length (stream (inp s)))
               else -1)
        \<and> (r = int n \<longrightarrow>
             stream (inp s') = drop n (stream (inp s)) \<and> stream_end (inp s') = stream_end (inp s))
        \<and> s' = s\<lparr>inp := inp s'\<rparr>
     else r = -1 \<and> bs = [] \<and> s' = s"
  using readn_loop_spec [where n = n and acc = "[]" and es = "inp s"]
  by (auto simp: readn_timeo_def split: prod.splits)

subsection \<open>What a write does to the stream\<close>

lemma sys_write_capacity:
  assumes "0 < n"
  shows "case sys_write n es of
      (WrCount k, es') \<Rightarrow> k \<le> n
        \<and> (if k = 0 then capacity es = 0 else capacity es = k + capacity es')
    | (WrErr e, es') \<Rightarrow> capacity es = (if e = EINTR then capacity es' else 0)"
  using assms by (cases "(n, es)" rule: sys_write.cases) auto

lemma writen_loop_spec:
  "case writen_loop out rest es of (ok, out', es') \<Rightarrow>
     out' = out @ take (capacity es) rest
     \<and> (ok \<longleftrightarrow> length rest \<le> capacity es)
     \<and> (ok \<longrightarrow> capacity es' = capacity es - length rest)"
proof (induction out rest es rule: writen_loop.induct)
  case (1 out rest es)
  show ?case
  proof (cases "rest = []")
    case True
    then show ?thesis by (simp add: writen_loop.simps)
  next
    case False
    then have n: "0 < length rest" by simp
    obtain r es' where wr: "sys_write (length rest) es = (r, es')"
      by (cases "sys_write (length rest) es")
    show ?thesis
    proof (cases r)
      case (WrErr e)
      with wr sys_write_capacity [OF n, of es] "1.IH"(1) [OF False wr [symmetric] WrErr] False
      show ?thesis by (auto simp: writen_loop.simps [of _ rest] split: if_splits prod.splits)
    next
      case (WrCount k)
      show ?thesis
      proof (cases "k = 0")
        case True
        with WrCount wr sys_write_capacity [OF n, of es] False
        show ?thesis by (simp add: writen_loop.simps [of _ rest])
      next
        case k: False
        with WrCount wr sys_write_capacity [OF n, of es]
        have cap: "capacity es = k + capacity es'" "k \<le> length rest" by auto
        have eq: "writen_loop out rest es = writen_loop (out @ take k rest) (drop k rest) es'"
          using False wr WrCount k by (simp add: writen_loop.simps [of _ rest])
        from "1.IH"(2) [OF False wr [symmetric] WrCount k] cap
        show ?thesis unfolding eq by (auto simp: take_add split: prod.splits)
      qed
    qed
  qed
qed

lemma writen_timeo_stream:
  "case writen_timeo bs s of (r, s') \<Rightarrow>
     if sndtimeo_ok s
     then sent s' = sent s @ take (capacity (room s)) bs
        \<and> r = (if length bs \<le> capacity (room s) then int (length bs) else -1)
        \<and> (r = int (length bs) \<longrightarrow> capacity (room s') = capacity (room s) - length bs)
        \<and> s' = s\<lparr>room := room s', sent := sent s'\<rparr>
     else r = -1 \<and> s' = s"
  using writen_loop_spec [where out = "[]" and rest = bs and es = "room s"]
  by (auto simp: writen_timeo_def split: prod.splits)

subsection \<open>Properties\<close>

text \<open>C17: What a read returns does not depend on how the peer's bytes were cut into segments
  or on the signals that interrupted it: two sockets that deliver the same stream and end in
  the same way give the same result, the same bytes and, when the read got all it asked for,
  the same rest of the stream.\<close>

theorem readn_segmentation:
  assumes "rcvtimeo_ok s = rcvtimeo_ok s'" and "stream (inp s) = stream (inp s')"
    and "stream_end (inp s) = stream_end (inp s')"
  shows "case (readn_timeo n s, readn_timeo n s') of ((r, bs, t), (r', bs', t')) \<Rightarrow>
     r' = r \<and> bs' = bs \<and> (r = int n \<longrightarrow> stream (inp t') = stream (inp t))"
proof -
  obtain r bs t r' bs' t' where rd: "readn_timeo n s = (r, bs, t)" "readn_timeo n s' = (r', bs', t')"
    by (metis prod_cases3)
  show ?thesis
    using readn_timeo_stream [where n = n and s = s, unfolded rd]
      readn_timeo_stream [where n = n and s = s', unfolded rd] assms
    by (auto simp: rd split: if_splits)
qed

lemma readn_segmentation_witness:
  defines "s \<equiv> \<lparr>inp = [RData [1, 2], RIntr, RData [3]], room = [], sent = [], rcvtimeo_ok = True, sndtimeo_ok = True\<rparr>"
    and "s' \<equiv> \<lparr>inp = [RData [1, 2, 3]], room = [], sent = [], rcvtimeo_ok = True, sndtimeo_ok = True\<rparr>"
  shows "case (readn_timeo 3 s, readn_timeo 3 s') of ((r, bs, t), (r', bs', t')) \<Rightarrow>
     r' = r \<and> bs' = bs \<and> (r = int 3 \<longrightarrow> stream (inp t') = stream (inp t))"
  by (rule readn_segmentation) (simp_all add: s_def s'_def)

text \<open>A write either sends every byte and returns their number, or returns -1 after sending
  a prefix; what the peer gets is never reordered or repeated.\<close>

theorem writen_prefix:
  "case writen_timeo bs s of (r, t) \<Rightarrow>
     \<exists>out rest. bs = out @ rest \<and> sent t = sent s @ out \<and> (r = int (length bs) \<and> rest = [] \<or> r = -1)"
proof -
  obtain r t where w: "writen_timeo bs s = (r, t)" by (cases "writen_timeo bs s")
  note sp = writen_timeo_stream [where bs = bs and s = s, unfolded w prod.case]
  show ?thesis
  proof (cases "sndtimeo_ok s")
    case False
    with sp show ?thesis by (simp add: w)
  next
    case True
    have "bs = take (capacity (room s)) bs @ drop (capacity (room s)) bs" by simp
    with sp True show ?thesis by (auto simp: w split: if_splits intro: exI [of _ "drop (capacity (room s)) bs"])
  qed
qed

end
