(* ===== verification/Silk_Login.thy ===== *)
theory Silk_Login
  imports Silk_Prelude
begin

section \<open>The session record and the redirect login (socks.c)\<close>

text \<open>
  The session record \<open>socks5_cli\<close> of common.h, and \<open>strip_redirectaddr\<close> of socks.c, which
  takes the upstream proxy's address out of the login name \<open>user-ip-port\<close>.  The library
  functions it calls (strtok_r, inet_pton, strtol, htons) are modelled on byte lists.
  The last part shows that every dotted address and every decimal port survives the trip
  through a login name.
\<close>

subsection \<open>Socket addresses\<close>

text \<open>
  A \<open>sockaddr_in\<close>, \<open>sockaddr_in6\<close> or \<open>sockaddr_storage\<close>: its family and the bytes that
  \<open>sockADDR\<close> and \<open>sockPORT\<close> of common.h point to, in network order.  A record cleared by
  \<open>memset\<close> has family 0, which is AF_UNSPEC.
\<close>

datatype sa_family = AF_UNSPEC | AF_INET | AF_INET6

record sockaddr =
  sin_family :: sa_family
  sin_addr :: "byte list"
  sin_port :: "byte list"

definition sockADDRLEN :: "sockaddr \<Rightarrow> nat" where
  "sockADDRLEN sa = (if sin_family sa = AF_INET6 then 16 else 4)"

definition sockaddr_zero :: sockaddr where
  "sockaddr_zero = \<lparr>sin_family = AF_UNSPEC, sin_addr = replicate 4 0, sin_port = replicate 2 0\<rparr>"

text \<open>
  \<open>user\<close> and \<open>passwd\<close> are the C strings in the two 256 byte buffers.  \<open>clipeer\<close> is only
  logged and left out.
\<close>

record socks5_cli =
  request :: sockaddr
  user :: cstr
  passwd :: cstr
  clientfd :: int
  proxyfd :: int
  srvpeer :: sockaddr
  cmd :: byte

definition socks5_cli_zero :: socks5_cli where
  "socks5_cli_zero =
     \<lparr>request = sockaddr_zero, user = [], passwd = [], clientfd = 0, proxyfd = 0,
      srvpeer = sockaddr_zero, cmd = 0\<rparr>"

subsection \<open>Byte order\<close>

definition htons :: "u16 \<Rightarrow> byte list" where
  "htons p = [ucast (drop_bit 8 p), ucast p]"

fun ntohs :: "byte list \<Rightarrow> u16" where
  "ntohs [a, b] = (ucast a :: u16) * 256 + ucast b"
| "ntohs _ = 0"

fun ntohl :: "byte list \<Rightarrow> u32" where
  "ntohl [a, b, c, d] =
     (ucast a :: u32) * 0x1000000 + ucast b * 0x10000 + ucast c * 0x100 + ucast d"
| "ntohl _ = 0"

lemma length_htons [simp]: "length (htons p) = 2"
  by (simp add: htons_def)

subsection \<open>Library functions on strings\<close>

definition dash :: byte where "dash = 45"
definition dot :: byte where "dot = 46"

text \<open>
  \<open>strtok_r\<close> with a single delimiter: the token and the rest it will continue from.
\<close>

definition strtok_r :: "byte \<Rightarrow> cstr \<Rightarrow> (cstr \<times> cstr) option" where
  "strtok_r d s =
     (let s' = dropWhile (\<lambda>b. b = d) s
      in if s' = [] then None
         else Some (takeWhile (\<lambda>b. b \<noteq> d) s', drop 1 (dropWhile (\<lambda>b. b \<noteq> d) s')))"

text \<open>
  The string left in the buffer strtok_r was started on: the delimiter after the first token
  has become the terminator.
\<close>

definition strtok_cut :: "byte \<Rightarrow> cstr \<Rightarrow> cstr" where
  "strtok_cut d s =
     takeWhile (\<lambda>b. b = d) s @ takeWhile (\<lambda>b. b \<noteq> d) (dropWhile (\<lambda>b. b = d) s)"

definition isdigit :: "byte \<Rightarrow> bool" where
  "isdigit b \<longleftrightarrow> 48 \<le> unat b \<and> unat b \<le> 57"

definition isspace :: "byte \<Rightarrow> bool" where
  "isspace b \<longleftrightarrow> unat b = 32 \<or> 9 \<le> unat b \<and> unat b \<le> 13"

definition digit_val :: "byte \<Rightarrow> nat" where
  "digit_val b = unat b - 48"

text \<open>
  \<open>inet_pton(AF_INET)\<close>: four decimal numbers from 0 to 255, no leading zero, separated by
  single dots.  \<open>done\<close> are the finished octets, \<open>cur\<close> the one being read.
\<close>

fun inet_pton_loop :: "cstr \<Rightarrow> byte list \<Rightarrow> nat option \<Rightarrow> byte list option" where
  "inet_pton_loop [] os cur =
     (case cur of
        Some v \<Rightarrow> if length os = 3 then Some (os @ [of_nat v]) else None
      | None \<Rightarrow> None)"
| "inet_pton_loop (b # s) os cur =
     (if isdigit b then
        (case cur of
           Some v \<Rightarrow>
             if v = 0 \<or> 255 < 10 * v + digit_val b then None
             else inet_pton_loop s os (Some (10 * v + digit_val b))
         | None \<Rightarrow> if length os = 4 then None else inet_pton_loop s os (Some (digit_val b)))
      else if b = dot then
        (case cur of
           Some v \<Rightarrow> if length os = 3 then None else inet_pton_loop s (os @ [of_nat v]) None
         | None \<Rightarrow> None)
      else None)"

definition inet_pton :: "cstr \<Rightarrow> byte list option" where
  "inet_pton s = inet_pton_loop s [] None"

text \<open>
  \<open>strtol(s, &ptr, 10)\<close>: white space, a sign, digits.  The result is the number and the rest
  \<open>ptr\<close> points to, the whole string when there is no digit.  The strings it is called with
  have five characters at most, so the clamping to LONG_MAX cannot happen.
\<close>

fun digits_val :: "nat \<Rightarrow> cstr \<Rightarrow> nat" where
  "digits_val acc [] = acc"
| "digits_val acc (b # s) = (if isdigit b then digits_val (10 * acc + digit_val b) s else acc)"

definition strtol :: "cstr \<Rightarrow> int \<times> cstr" where
  "strtol s =
     (let s1 = dropWhile isspace s;
          neg = (s1 \<noteq> [] \<and> hd s1 = dash);
          s2 = (if s1 \<noteq> [] \<and> (hd s1 = dash \<or> hd s1 = 43) then tl s1 else s1)
      in if s2 = [] \<or> \<not> isdigit (hd s2) then (0, s)
         else ((if neg then - int (digits_val 0 s2) else int (digits_val 0 s2)),
               dropWhile isdigit s2))"

subsection \<open>strip_redirectaddr\<close>

text \<open>
  The status and the session record afterwards.  \<open>strncpy\<close> keeps 15 characters of the
  address and 5 of the port; \<open>htons\<close> keeps the low 16 bits of what \<open>strtol\<close> returns.
\<close>

definition strip_redirectaddr :: "socks5_cli \<Rightarrow> nat \<times> socks5_cli" where
  "strip_redirectaddr client =
     (let c0 = client\<lparr>srvpeer := (srvpeer client)\<lparr>sin_family := AF_INET\<rparr>\<rparr>
      in case strtok_r dash (user c0) of
        None \<Rightarrow> (1, c0)
      | Some (name, rest1) \<Rightarrow>
         (let c1 = c0\<lparr>user := strtok_cut dash (user c0)\<rparr>
          in case strtok_r dash rest1 of
            None \<Rightarrow> (1, c1)
          | Some (ip, rest2) \<Rightarrow>
             (let ipbuf = take 15 ip
              in case strtok_r dash rest2 of
                None \<Rightarrow> (1, c1)
              | Some (port, rest3) \<Rightarrow>
                 (let portbuf = take 5 port
                  in case inet_pton ipbuf of
                    None \<Rightarrow> (1, c1)
                  | Some a \<Rightarrow>
                     (case strtol portbuf of
                        (n, endp) \<Rightarrow>
                          (let c2 = c1\<lparr>srvpeer := (srvpeer c1)\<lparr>sin_addr := a, sin_port := htons (word_of_int n)\<rparr>\<rparr>
                           in if endp \<noteq> [] then (1, c2) else (0, c2)))))))"

subsection \<open>Printing addresses and ports\<close>

text \<open>The decimal digits of a number, and the dotted form of an address.\<close>

fun dec :: "nat \<Rightarrow> cstr" where
  "dec n = (if n < 10 then [of_nat (48 + n)] else dec (n div 10) @ [of_nat (48 + n mod 10)])"

declare dec.simps [simp del]

fun dotted :: "byte list \<Rightarrow> cstr" where
  "dotted [] = []"
| "dotted [a] = dec (unat a)"
| "dotted (a # as) = dec (unat a) @ dot # dotted as"

definition login_name :: "cstr \<Rightarrow> byte list \<Rightarrow> nat \<Rightarrow> cstr" where
  "login_name u a p = u @ dash # dotted a @ dash # dec p"

lemma unat_digit: "d < 10 \<Longrightarrow> unat (of_nat (48 + d) :: byte) = 48 + d"
  by (simp add: unat_of_nat take_bit_nat_eq_self del: of_nat_add)

lemma digit_char [simp]:
  assumes "d < 10"
  shows "isdigit (of_nat (48 + d))" and "digit_val (of_nat (48 + d)) = d"
  unfolding isdigit_def digit_val_def unat_digit [OF assms] using assms by auto

lemma digit_not: "isdigit b \<Longrightarrow> b \<noteq> dash \<and> b \<noteq> dot \<and> \<not> isspace b \<and> b \<noteq> 43"
  by (auto simp: isdigit_def isspace_def dash_def dot_def)

lemma dec_digits: "b \<in> set (dec n) \<Longrightarrow> isdigit b"
proof (induction n rule: dec.induct)
  case (1 n)
  then show ?case by (subst (asm) (2) dec.simps) (auto split: if_splits simp del: of_nat_add)
qed

lemma dec_Nil [simp]: "dec n \<noteq> []"
  by (subst dec.simps) simp

lemma digits_val_append:
  "(\<And>b. b \<in> set xs \<Longrightarrow> isdigit b) \<Longrightarrow> digits_val acc (xs @ ys) = digits_val (digits_val acc xs) ys"
  by (induction xs arbitrary: acc) auto

lemma digits_val_dec [simp]: "digits_val 0 (dec n) = n"
proof (induction n rule: dec.induct)
  case (1 n)
  show ?case
  proof (cases "n < 10")
    case True
    then show ?thesis by (subst dec.simps) (simp del: of_nat_add)
  next
    case False
    then have "digits_val 0 (dec n) = digits_val (digits_val 0 (dec (n div 10))) [of_nat (48 + n mod 10)]"
      by (subst dec.simps) (simp add: digits_val_append dec_digits del: of_nat_add digits_val.simps)
    then show ?thesis using 1 [OF False] by (simp del: of_nat_add)
  qed
qed

lemma length_dec: "n < 10 ^ Suc k \<Longrightarrow> length (dec n) \<le> Suc k"
proof (induction k arbitrary: n)
  case 0
  then show ?case by (subst dec.simps) simp
next
  case (Suc k)
  then have "n div 10 < 10 ^ Suc k" by (simp add: less_mult_imp_div_less mult.commute)
  from Suc.IH [OF this] show ?case by (subst dec.simps) simp
qed

lemma inet_pton_octet:
  assumes "v < 256" and "length os \<noteq> 4"
  shows "inet_pton_loop (dec v @ s) os None = inet_pton_loop s os (Some v)"
proof -
  have d: "n < 10 \<Longrightarrow> dec n = [of_nat (48 + n)]"
      "\<not> n < 10 \<Longrightarrow> dec n = dec (n div 10) @ [of_nat (48 + n mod 10)]" for n
    by (subst dec.simps, simp)+
  consider "v < 10" | "10 \<le> v" "v < 100" | "100 \<le> v" "v < 256" using assms(1) by linarith
  then show ?thesis
  proof cases
    case 1
    then show ?thesis using assms by (simp add: d del: of_nat_add)
  next
    case 2
    then have "v div 10 < 10" "v div 10 \<noteq> 0" "10 * (v div 10) + v mod 10 = v" by auto
    then show ?thesis using 2 assms by (simp add: d del: of_nat_add)
  next
    case 3
    then have "v div 10 div 10 < 10" "v div 10 div 10 \<noteq> 0" "v div 10 \<noteq> 0"
        "10 * (v div 10 div 10) + v div 10 mod 10 = v div 10" "10 * (v div 10) + v mod 10 = v"
        "\<not> v div 10 < 10" "v div 10 \<le> 255"
      by auto
    then show ?thesis using 3 assms by (simp add: d del: of_nat_add div_mult2_eq [symmetric])
  qed
qed

lemma inet_pton_dotted:
  assumes "length a = 4"
  shows "inet_pton (dotted a) = Some a"
proof -
  obtain x y z w where a: "a = [x, y, z, w]"
    using assms by (auto simp: length_Suc_conv numeral_eq_Suc)
  have u: "unat b < 256" for b :: byte using unsigned_less [of b] by simp
  have dt: "\<not> isdigit dot" by (simp add: isdigit_def dot_def)
  have "inet_pton_loop (dec (unat w)) [x, y, z] None = Some [x, y, z, w]"
    using inet_pton_octet [of "unat w" "[x, y, z]" "[]"] u by simp
  then show ?thesis unfolding a inet_pton_def using u dt by (simp add: inet_pton_octet)
qed

lemma length_dotted: "length a = 4 \<Longrightarrow> length (dotted a) \<le> 15"
proof -
  have l: "length (dec (unat b)) \<le> 3" for b :: byte
  proof -
    have "unat b < 256" using unsigned_less [of b, where ?'a = nat] by simp
    then show ?thesis using length_dec [of "unat b" 2] by simp
  qed
  assume "length a = 4"
  then obtain x y z w where "a = [x, y, z, w]" by (auto simp: length_Suc_conv numeral_eq_Suc)
  then show ?thesis using l [of x] l [of y] l [of z] l [of w] by simp
qed

lemma dotted_chars: "b \<in> set (dotted a) \<Longrightarrow> b \<noteq> dash"
  using dec_digits digit_not
  by (induction a rule: dotted.induct) (simp, fastforce, fastforce simp: dash_def dot_def)

lemma dotted_plain: "0 \<notin> set (dotted a) \<and> 10 \<notin> set (dotted a)"
proof -
  have "b \<in> set (dotted a) \<Longrightarrow> isdigit b \<or> b = dot" for b
    using dec_digits by (induction a rule: dotted.induct) auto
  moreover have "\<not> isdigit 0" "\<not> isdigit 10" "dot \<noteq> 0" "dot \<noteq> 10"
    by (simp_all add: isdigit_def dot_def)
  ultimately show ?thesis by metis
qed

lemma dotted_Nil: "length a = 4 \<Longrightarrow> dotted a \<noteq> []"
  by (cases a rule: dotted.cases) auto

lemma strtok_r_token:
  "t \<noteq> [] \<Longrightarrow> d \<notin> set t \<Longrightarrow> strtok_r d (t @ d # rest) = Some (t, rest)"
  "t \<noteq> [] \<Longrightarrow> d \<notin> set t \<Longrightarrow> strtok_r d t = Some (t, [])"
proof -
  assume t: "t \<noteq> []" "d \<notin> set t"
  then obtain b t' where bt: "t = b # t'" "b \<noteq> d" "d \<notin> set t'" by (cases t) auto
  have tw: "takeWhile (\<lambda>b. b \<noteq> d) (t @ d # rest) = t" "dropWhile (\<lambda>b. b \<noteq> d) (t @ d # rest) = d # rest"
      "takeWhile (\<lambda>b. b \<noteq> d) t = t" "dropWhile (\<lambda>b. b \<noteq> d) t = []"
    using t(2) by (induction t) auto
  have "dropWhile (\<lambda>b. b \<noteq> d) t' = []" using bt by (auto simp: dropWhile_eq_Nil_conv)
  show "strtok_r d (t @ d # rest) = Some (t, rest)" "strtok_r d t = Some (t, [])"
    using tw bt by (auto simp: strtok_r_def Let_def \<open>dropWhile (\<lambda>b. b \<noteq> d) t' = []\<close>)
qed

lemma strtok_cut_token: "t \<noteq> [] \<Longrightarrow> d \<notin> set t \<Longrightarrow> strtok_cut d (t @ d # rest) = t"
  by (cases t) (auto simp: strtok_cut_def takeWhile_append2 intro!: takeWhile_append2 [THEN trans])

lemma strtol_dec: "strtol (dec n) = (int n, [])"
proof -
  obtain b s where bs: "dec n = b # s" using dec_Nil [of n] by (cases "dec n") auto
  then have b: "isdigit b" using dec_digits [of b n] by simp
  have "dropWhile isdigit (dec n) = []" using dec_digits by (simp add: dropWhile_eq_Nil_conv)
  moreover have "digits_val 0 (dec n) = n" by simp
  ultimately show ?thesis using b digit_not [OF b] by (simp add: strtol_def bs Let_def)
qed

text \<open>
  The login name of a user, an address and a port of at most five digits is taken apart
  again.  Nothing checks the port's range: it is taken modulo 65536.
\<close>

lemma strip_login_name:
  assumes "u \<noteq> []" and "dash \<notin> set u" and "length a = 4" and "p < 100000"
    and "user c = login_name u a p"
  shows "strip_redirectaddr c =
     (0, c\<lparr>user := u, srvpeer := (srvpeer c)\<lparr>sin_family := AF_INET, sin_addr := a,
            sin_port := htons (of_nat p)\<rparr>\<rparr>)"
proof -
  have p: "length (dec p) \<le> 5" using length_dec [of p 4] assms(4) by simp
  have dp: "dash \<notin> set (dec p)" using dec_digits digit_not by blast
  have da: "dash \<notin> set (dotted a)" using dotted_chars by blast
  show ?thesis
    unfolding strip_redirectaddr_def Let_def assms(5)
    using assms(1-3) p dp da length_dotted [OF assms(3)] dotted_Nil [OF assms(3)]
    by (simp add: assms(5) login_name_def strtok_r_token strtok_cut_token inet_pton_dotted strtol_dec)
qed

subsection \<open>Properties\<close>

text \<open>C16: The redirect login round trip.  The login name built from a user name without dashes, a
  four byte address and a port is taken apart again: the status is 0, the session's user is the
  user name alone, and the upstream peer is that address with that port modulo 65536, which is
  the port itself when it is one.\<close>

theorem redirect_login_roundtrip:
  assumes "u \<noteq> []" and "dash \<notin> set u" and "length a = 4" and "p < 100000"
    and "user c = login_name u a p"
  shows "strip_redirectaddr c =
     (0, c\<lparr>user := u, srvpeer := \<lparr>sin_family = AF_INET, sin_addr = a, sin_port = htons (of_nat (p mod 65536))\<rparr>\<rparr>)"
proof -
  have "(of_nat p :: u16) = of_nat (p mod 65536)"
    by (simp add: word_of_nat_eq_iff take_bit_eq_mod)
  moreover have "(srvpeer c)\<lparr>sin_family := AF_INET, sin_addr := a, sin_port := q\<rparr> =
      \<lparr>sin_family = AF_INET, sin_addr = a, sin_port = q\<rparr>" for q
    by (cases "srvpeer c") simp
  ultimately show ?thesis using strip_login_name [OF assms] by simp
qed

lemma redirect_login_roundtrip_witness:
  "strip_redirectaddr (socks5_cli_zero\<lparr>user := login_name [97] [10, 0, 0, 1] 1080\<rparr>) =
     (0, socks5_cli_zero\<lparr>user := login_name [97] [10, 0, 0, 1] 1080\<rparr>\<lparr>user := [97],
        srvpeer := \<lparr>sin_family = AF_INET, sin_addr = [10, 0, 0, 1], sin_port = htons (of_nat (1080 mod 65536))\<rparr>\<rparr>)"
  by (rule redirect_login_roundtrip) (simp_all add: dash_def)

lemma strtok_r_count:
  assumes "strtok_r d s = Some (t, r)" and "r \<noteq> []"
  shows "count_list r d < count_list s d"
proof -
  let ?s = "dropWhile (\<lambda>b. b = d) s" and ?r = "dropWhile (\<lambda>b. b \<noteq> d) (dropWhile (\<lambda>b. b = d) s)"
  have r: "r = drop 1 ?r" using assms(1) by (auto simp: strtok_r_def Let_def split: if_splits)
  with assms(2) obtain b bs where b: "?r = b # bs" by (cases ?r) auto
  with r have "bs = r" by simp
  moreover have "b = d" using hd_dropWhile [of "\<lambda>b. b \<noteq> d" ?s] b by simp
  ultimately have "count_list ?r d = Suc (count_list r d)" unfolding b by simp
  moreover have "count_list ?r d \<le> count_list ?s d" "count_list ?s d \<le> count_list s d"
    by (metis count_list_append le_add2 takeWhile_dropWhile_id)+
  ultimately show ?thesis by linarith
qed

text \<open>A login name with fewer than two dashes is refused with status 1, and the upstream
  address of the session stays what it was.\<close>

theorem redirect_login_refused:
  assumes "count_list (user c) dash < 2"
  shows "fst (strip_redirectaddr c) = 1 \<and> sin_addr (srvpeer (snd (strip_redirectaddr c))) = sin_addr (srvpeer c)"
proof -
  let ?c = "c\<lparr>srvpeer := (srvpeer c)\<lparr>sin_family := AF_INET\<rparr>\<rparr>"
  have no: False if "strtok_r dash (user c) = Some (n, r1)" "strtok_r dash r1 = Some (ip, r2)"
      "strtok_r dash r2 = Some (p, r3)" for n r1 ip r2 p r3
  proof -
    have "r1 \<noteq> []" "r2 \<noteq> []" using that by (auto simp: strtok_r_def)
    with that assms strtok_r_count [of dash "user c" n r1] strtok_r_count [of dash r1 ip r2]
      strtok_r_count [of dash r2 p r3] show False by linarith
  qed
  show ?thesis
  proof (cases "strtok_r dash (user c)")
    case None
    then show ?thesis by (simp add: strip_redirectaddr_def)
  next
    case (Some x)
    then obtain n r1 where 1: "strtok_r dash (user c) = Some (n, r1)" by (cases x) simp
    show ?thesis
    proof (cases "strtok_r dash r1")
      case None
      with 1 show ?thesis by (simp add: strip_redirectaddr_def Let_def)
    next
      case (Some y)
      then obtain ip r2 where 2: "strtok_r dash r1 = Some (ip, r2)" by (cases y) simp
      have "strtok_r dash r2 = None" using no [OF 1 2] by (cases "strtok_r dash r2") auto
      with 1 2 show ?thesis by (simp add: strip_redirectaddr_def Let_def)
    qed
  qed
qed

lemma redirect_login_refused_witness:
  "fst (strip_redirectaddr (socks5_cli_zero\<lparr>user := [97, 45, 98]\<rparr>)) = 1
   \<and> sin_addr (srvpeer (snd (strip_redirectaddr (socks5_cli_zero\<lparr>user := [97, 45, 98]\<rparr>)))) =
     sin_addr (srvpeer (socks5_cli_zero\<lparr>user := [97, 45, 98]\<rparr>))"
  by (rule redirect_login_refused) (simp add: dash_def)

end
