(* ===== verification/Silk_Connect.thy ===== *)
theory Silk_Connect
  imports Silk_Prelude
begin

section \<open>Connecting with a time limit (connect_nonb.c)\<close>

text \<open>
  The three bodies of \<open>connect_nonb\<close> that the preprocessor chooses from.  A script says what
  the kernel answers to the calls: whether the flags can be read and set, what \<open>connect\<close>
  returns, what the waits return one after the other, and the pending error that
  \<open>getsockopt(SO_ERROR)\<close> reports, which is how the kernel tells that a connection attempt
  failed after \<open>connect\<close> returned EINPROGRESS.  A script of waits that is used up is a time
  limit that expired.  The descriptor itself is open or closed and blocking or not.

  The select variant's branch for a descriptor that is ready but not in the set cannot be
  reached, since it is the only member of the set.
\<close>

datatype conn_errno = C_EINPROGRESS | C_EAGAIN | C_ECONNREFUSED | C_EOTHER

datatype wait_ev = Wait_Intr | Wait_Again | Wait_Fail | Wait_Expired | Wait_Ready

record conn_script =
  getfl_ok :: bool
  setfl_ok :: bool
  conn_result :: "conn_errno option"
  waits :: "wait_ev list"
  sockopt_ok :: bool
  so_error :: "conn_errno option"
  restore_ok :: bool

record conn_fd =
  nonblock :: bool
  is_open :: bool

datatype wait_result = Expired | Failed | Ready

subsection \<open>The poll variant, which the Makefile builds\<close>

text \<open>The \<open>again\<close> loop around \<open>poll\<close>.\<close>

fun poll_wait :: "wait_ev list \<Rightarrow> wait_result" where
  "poll_wait [] = Expired"
| "poll_wait (Wait_Intr # ws) = poll_wait ws"
| "poll_wait (Wait_Again # ws) = poll_wait ws"
| "poll_wait (Wait_Fail # ws) = Failed"
| "poll_wait (Wait_Expired # ws) = Expired"
| "poll_wait (Wait_Ready # ws) = Ready"

definition connect_nonb :: "conn_script \<Rightarrow> conn_fd \<Rightarrow> int \<times> conn_fd" where
  "connect_nonb s fd =
     (if \<not> getfl_ok s then (-1, fd)
      else if \<not> setfl_ok s then (-1, fd)
      else
        let flags = nonblock fd; fd1 = fd\<lparr>nonblock := True\<rparr> in
        if conn_result s \<noteq> None \<and> conn_result s \<noteq> Some C_EAGAIN
             \<and> conn_result s \<noteq> Some C_EINPROGRESS then (-1, fd1)
        else case poll_wait (waits s) of
               Failed \<Rightarrow> (-1, fd1)
             | Expired \<Rightarrow> (-1, fd1)
             | Ready \<Rightarrow> (0, if restore_ok s then fd1\<lparr>nonblock := flags\<rparr> else fd1))"

subsection \<open>The blocking and the select variant\<close>

definition connect_nonb_block :: "conn_script \<Rightarrow> conn_fd \<Rightarrow> int \<times> conn_fd" where
  "connect_nonb_block s fd = (if conn_result s \<noteq> None then (-1, fd) else (0, fd))"

fun select_wait :: "wait_ev list \<Rightarrow> wait_result" where
  "select_wait [] = Expired"
| "select_wait (Wait_Intr # ws) = select_wait ws"
| "select_wait (Wait_Again # ws) = Failed"
| "select_wait (Wait_Fail # ws) = Failed"
| "select_wait (Wait_Expired # ws) = Expired"
| "select_wait (Wait_Ready # ws) = Ready"

text \<open>The code after the label \<open>done\<close>: put the flags back, then report the error.\<close>

definition select_done :: "conn_script \<Rightarrow> bool \<Rightarrow> bool \<Rightarrow> conn_fd \<Rightarrow> int \<times> conn_fd" where
  "select_done s flags error fd =
     (if \<not> restore_ok s then (-1, fd)
      else if error then (-1, fd\<lparr>nonblock := flags, is_open := False\<rparr>)
      else (0, fd\<lparr>nonblock := flags\<rparr>))"

definition connect_nonb_select :: "conn_script \<Rightarrow> conn_fd \<Rightarrow> int \<times> conn_fd" where
  "connect_nonb_select s fd =
     (if \<not> getfl_ok s then (-1, fd)
      else if \<not> setfl_ok s then (-1, fd)
      else
        let flags = nonblock fd; fd1 = fd\<lparr>nonblock := True\<rparr> in
        if conn_result s \<noteq> None \<and> conn_result s \<noteq> Some C_EINPROGRESS then (-1, fd1)
        else if conn_result s = None then select_done s flags False fd1
        else case select_wait (waits s) of
               Expired \<Rightarrow> (-1, fd1\<lparr>is_open := False\<rparr>)
             | Failed \<Rightarrow> select_done s flags True fd1
             | Ready \<Rightarrow>
                 if \<not> sockopt_ok s then (-1, fd1)
                 else select_done s flags (so_error s \<noteq> None) fd1)"

subsection \<open>What the three variants promise\<close>

lemma poll_wait_ready:
  "poll_wait ws = Ready \<longleftrightarrow>
     (\<exists>vs. dropWhile (\<lambda>w. w = Wait_Intr \<or> w = Wait_Again) ws = Wait_Ready # vs)"
  by (induction ws rule: poll_wait.induct) auto

text \<open>A successful connect leaves the descriptor open and, if it can, as blocking as it was.\<close>

lemma connect_nonb_ok:
  "fst (connect_nonb s fd) = 0 \<longleftrightarrow>
     getfl_ok s \<and> setfl_ok s \<and> conn_result s \<in> {None, Some C_EAGAIN, Some C_EINPROGRESS}
     \<and> poll_wait (waits s) = Ready"
  by (auto simp: connect_nonb_def Let_def split: wait_result.split)

lemma connect_nonb_fd:
  "snd (connect_nonb s fd) = fd\<lparr>nonblock := nonblock (snd (connect_nonb s fd))\<rparr>"
  "fst (connect_nonb s fd) = 0 \<Longrightarrow> restore_ok s \<Longrightarrow> snd (connect_nonb s fd) = fd"
  by (auto simp: connect_nonb_def Let_def split: wait_result.split)

lemma connect_nonb_cases: "fst (connect_nonb s fd) = 0 \<or> fst (connect_nonb s fd) = -1"
  by (auto simp: connect_nonb_def Let_def split: wait_result.split)

lemma connect_nonb_select_ok:
  "fst (connect_nonb_select s fd) = 0 \<longleftrightarrow>
     getfl_ok s \<and> setfl_ok s \<and> restore_ok s
     \<and> (conn_result s = None
        \<or> conn_result s = Some C_EINPROGRESS \<and> select_wait (waits s) = Ready
          \<and> sockopt_ok s \<and> so_error s = None)"
  by (auto simp: connect_nonb_select_def select_done_def Let_def split: wait_result.split)

lemma select_wait_poll: "select_wait ws = Ready \<Longrightarrow> poll_wait ws = Ready"
  by (induction ws rule: select_wait.induct) auto

subsection \<open>Properties\<close>

text \<open>C18: The poll variant reports success for refused connections.  It returns 0 exactly when the
  flags could be changed, \<open>connect\<close> succeeded or is in progress, and poll found the
  descriptor ready; the error of the attempt is never asked for, so the result does not
  depend on it.  The select variant, whenever it succeeds, has seen that there was no error.\<close>

theorem connect_ignores_so_error:
  "connect_nonb (s\<lparr>so_error := err\<rparr>) fd = connect_nonb s fd
   \<and> (fst (connect_nonb s fd) = 0 \<longleftrightarrow>
        getfl_ok s \<and> setfl_ok s \<and> conn_result s \<in> {None, Some C_EAGAIN, Some C_EINPROGRESS}
        \<and> poll_wait (waits s) = Ready)
   \<and> (fst (connect_nonb_select s fd) = 0 \<longrightarrow> conn_result s = None \<or> so_error s = None)"
proof (intro conjI)
  show "connect_nonb (s\<lparr>so_error := err\<rparr>) fd = connect_nonb s fd"
    by (simp add: connect_nonb_def Let_def)
  show "fst (connect_nonb_select s fd) = 0 \<longrightarrow> conn_result s = None \<or> so_error s = None"
    unfolding connect_nonb_select_ok by auto
qed (rule connect_nonb_ok)

lemma connect_ignores_so_error_witness:
  defines "s \<equiv> \<lparr>getfl_ok = True, setfl_ok = True, conn_result = Some C_EINPROGRESS, waits = [Wait_Intr, Wait_Ready],
       sockopt_ok = True, so_error = Some C_ECONNREFUSED, restore_ok = True\<rparr>"
    and "fd \<equiv> \<lparr>nonblock = False, is_open = True\<rparr>"
  shows "fst (connect_nonb s fd) = 0 \<and> fst (connect_nonb_select s fd) \<noteq> 0"
  using connect_ignores_so_error [where s = s and fd = fd] by (auto simp: s_def fd_def connect_nonb_def)

text \<open>After a successful \<open>connect_nonb\<close> whose last \<open>fcntl\<close> works the descriptor is as it was
  before the call, open and with its old flags; after a failure it is still open, so the caller
  has to close it.\<close>

theorem connect_nonb_descriptor:
  assumes "is_open fd"
  shows "is_open (snd (connect_nonb s fd))
    \<and> (fst (connect_nonb s fd) = 0 \<and> restore_ok s \<longrightarrow> snd (connect_nonb s fd) = fd)
    \<and> (fst (connect_nonb s fd) = 0 \<or> fst (connect_nonb s fd) = -1)"
  using connect_nonb_fd [of s fd] connect_nonb_cases [of s fd] assms
  by (metis conn_fd.select_convs(2) conn_fd.surjective conn_fd.update_convs(1))

lemma connect_nonb_descriptor_witness:
  defines "s \<equiv> \<lparr>getfl_ok = True, setfl_ok = True, conn_result = Some C_EINPROGRESS, waits = [Wait_Ready],
       sockopt_ok = True, so_error = None, restore_ok = True\<rparr>"
    and "fd \<equiv> \<lparr>nonblock = False, is_open = True\<rparr>"
  shows "is_open (snd (connect_nonb s fd)) \<and> snd (connect_nonb s fd) = fd
    \<and> (fst (connect_nonb s fd) = 0 \<or> fst (connect_nonb s fd) = -1)"
  using connect_nonb_descriptor [of fd s] by (auto simp: s_def fd_def connect_nonb_def)

end
