(* ===== verification/Silk_Relay.thy ===== *)
theory Silk_Relay
  imports Silk_Io
begin

section \<open>What a relay promises (negotiate.c)\<close>

text \<open>
  negotiate.c holds three versions of the loop that copies bytes between the client and the
  upstream proxy, chosen by the preprocessor: poll with two buffers, select with two buffers,
  and poll with two kernel pipes.  This theory holds what they share: the control flow of a
  loop body with \<open>continue\<close> and \<open>return\<close>, runs of a loop over a sequence of poll results,
  and the contract, with what follows from it for whole runs.
\<close>

definition BUFSIZE :: nat where
  "BUFSIZE = 2 ^ 20"

lemma BUFSIZE_pos [simp]: "0 < BUFSIZE"
  by (simp add: BUFSIZE_def)

subsection \<open>A loop body\<close>

text \<open>
  A piece of the body falls through to the next one, jumps to the top of the loop, or
  returns a status.
\<close>

datatype 's flow = Go 's | Again 's | Ret nat 's

primrec andthen :: "'s flow \<Rightarrow> ('s \<Rightarrow> 's flow) \<Rightarrow> 's flow" where
  "andthen (Go s) f = f s"
| "andthen (Again s) f = Again s"
| "andthen (Ret st s) f = Ret st s"

primrec turn_end :: "'s flow \<Rightarrow> 's \<times> nat option" where
  "turn_end (Go s) = (s, None)"
| "turn_end (Again s) = (s, None)"
| "turn_end (Ret st s) = (s, Some st)"

primrec after :: "'s flow \<Rightarrow> 's" where
  "after (Go s) = s"
| "after (Again s) = s"
| "after (Ret st s) = s"

definition is_ret :: "'s flow \<Rightarrow> bool" where
  "is_ret f \<longleftrightarrow> (\<exists>st s. f = Ret st s)"

lemma is_ret_simps [simp]: "\<not> is_ret (Go s)" "\<not> is_ret (Again s)" "is_ret (Ret st s)"
  by (simp_all add: is_ret_def)

text \<open>
  The loop, driven by what poll or select returns each time.  None as the status means that
  the sequence is used up and the loop would go on.
\<close>

fun relay_run :: "('s \<Rightarrow> 'e \<Rightarrow> 's \<times> nat option) \<Rightarrow> 'e list \<Rightarrow> 's \<Rightarrow> 's \<times> nat option" where
  "relay_run step [] s = (s, None)"
| "relay_run step (e # es) s =
     (case step s e of
        (s', None) \<Rightarrow> relay_run step es s'
      | (s', Some st) \<Rightarrow> (s', Some st))"

text \<open>What poll returns: the revents bits are those of the two descriptors.\<close>

datatype poll_ev =
    Poll_Err errno
  | Poll_Timeout
  | Poll_Ready (cli_in: bool) (cli_out: bool) (prx_in: bool) (prx_out: bool)

subsection \<open>One direction of a relay\<close>

text \<open>
  The bytes still to be read from the source, the bytes read and not yet written, and the
  bytes written to the destination.
\<close>

record view =
  v_src :: "byte list"
  v_pend :: "byte list"
  v_out :: "byte list"

text \<open>
  A step carries bytes along: what it writes is what was pending or read, in order, and
  nothing is lost or made up.  The flag is False for a step that ends in a read error, after
  which what the source would have delivered is of no interest.
\<close>

definition carries :: "bool \<Rightarrow> view \<Rightarrow> view \<Rightarrow> bool" where
  "carries c v v' \<longleftrightarrow>
     (\<exists>out rest. v_out v' = v_out v @ out \<and> v_pend v @ v_src v = out @ v_pend v' @ rest
        \<and> (c \<longrightarrow> rest = v_src v'))"

lemma carriesI:
  "v_out v' = v_out v @ out \<Longrightarrow> v_pend v @ v_src v = out @ v_pend v' @ v_src v' \<Longrightarrow> carries c v v'"
  unfolding carries_def by blast

lemma carries_refl [simp, intro]: "carries c v v"
  by (rule carriesI [of _ _ "[]"]) simp_all

lemma carries_mono: "carries c v v' \<Longrightarrow> (d \<Longrightarrow> c) \<Longrightarrow> carries d v v'"
  unfolding carries_def by blast

lemma carries_trans: "carries True v v' \<Longrightarrow> carries c v' v'' \<Longrightarrow> carries c v v''"
  unfolding carries_def by (elim exE conjE) (metis append.assoc)

subsection \<open>The contract\<close>

locale byte_relay =
  fixes step :: "'s \<Rightarrow> 'e \<Rightarrow> 's \<times> nat option"
    and ok :: "'s \<Rightarrow> bool"
    and up :: "'s \<Rightarrow> view"
    and down :: "'s \<Rightarrow> view"
    and fins :: "'s \<Rightarrow> nat"
  assumes step_ok: "ok s \<Longrightarrow> step s e = (s', r) \<Longrightarrow> ok s'"
    and step_up: "ok s \<Longrightarrow> step s e = (s', r) \<Longrightarrow> carries (r = None \<or> fins s' \<noteq> 0) (up s) (up s')"
    and step_down: "ok s \<Longrightarrow> step s e = (s', r) \<Longrightarrow> carries (r = None) (down s) (down s')"
    and fins_once: "ok s \<Longrightarrow> fins s \<le> 1"
    and fins_last: "ok s \<Longrightarrow> fins s \<noteq> 0 \<Longrightarrow> v_pend (up s) = [] \<and> v_src (up s) = []"
begin

lemma run_carries:
  assumes "ok s" and "relay_run step es s = (s', r)"
  shows "ok s' \<and> carries (r = None \<or> fins s' \<noteq> 0) (up s) (up s') \<and> carries (r = None) (down s) (down s')"
  using assms
proof (induction es arbitrary: s)
  case (Cons e es)
  obtain s1 r1 where st: "step s e = (s1, r1)" by (cases "step s e")
  note facts = step_ok [OF Cons.prems(1) st] step_up [OF Cons.prems(1) st] step_down [OF Cons.prems(1) st]
  show ?case
  proof (cases r1)
    case None
    with Cons.IH [OF facts(1)] Cons.prems(2) st facts show ?thesis
      by (auto intro: carries_trans)
  next
    case (Some x)
    with Cons.prems(2) st facts show ?thesis by simp
  qed
qed auto

text \<open>Each side gets a prefix of what the other side sent, unchanged and in order.\<close>

lemma run_prefix:
  assumes "ok s" and "relay_run step es s = (s', r)"
  shows "\<exists>out rest. v_out (up s') = v_out (up s) @ out \<and> v_pend (up s) @ v_src (up s) = out @ rest"
    and "\<exists>out rest. v_out (down s') = v_out (down s) @ out \<and> v_pend (down s) @ v_src (down s) = out @ rest"
  using run_carries [OF assms] unfolding carries_def by blast+

text \<open>The upstream side is closed at most once, and only after it got everything.\<close>

lemma run_fin:
  assumes "ok s" and "relay_run step es s = (s', r)"
  shows "fins s' \<le> 1"
    and "fins s' \<noteq> 0 \<Longrightarrow> v_out (up s') = v_out (up s) @ v_pend (up s) @ v_src (up s)"
  using run_carries [OF assms] fins_once [of s'] fins_last [of s'] unfolding carries_def by auto

text \<open>While the loop runs, what has been read is written or still held.\<close>

lemma run_conserves:
  assumes "ok s" and "relay_run step es s = (s', None)"
  shows "v_out (up s') @ v_pend (up s') @ v_src (up s') = v_out (up s) @ v_pend (up s) @ v_src (up s)"
    and "v_out (down s') @ v_pend (down s') @ v_src (down s') =
         v_out (down s) @ v_pend (down s) @ v_src (down s)"
  using run_carries [OF assms] unfolding carries_def by auto

end

end
