(* ===== verification/Silk_Relay_Poll.thy ===== *)
theory Silk_Relay_Poll
  imports Silk_Relay
begin

section \<open>The poll relay, which the Makefile builds (negotiate.c)\<close>

text \<open>
  \<open>to_buf\<close> is what lies in the array \<open>to\<close> below \<open>toiptr\<close>, so \<open>toiptr\<close> is its length, and
  \<open>too\<close> is the offset \<open>tooptr\<close>; \<open>fr_buf\<close> and \<open>fro\<close> are the same for the other direction.
  \<open>cli\<close> and \<open>prx\<close> are the two non-blocking sockets, \<open>fins\<close> counts the calls of
  \<open>shutdown(proxyfd, SHUT_WR)\<close>.
\<close>

record relay =
  to_buf :: "byte list"
  too :: nat
  fr_buf :: "byte list"
  fro :: nat
  clienteof :: bool
  cli :: sock
  prx :: sock
  fins :: nat

definition relay_init :: "sock \<Rightarrow> sock \<Rightarrow> relay" where
  "relay_init c p =
     \<lparr>to_buf = [], too = 0, fr_buf = [], fro = 0, clienteof = False, cli = c, prx = p, fins = 0\<rparr>"

subsection \<open>The events asked for\<close>

definition want_cli_in :: "relay \<Rightarrow> bool" where
  "want_cli_in r \<longleftrightarrow> \<not> clienteof r \<and> length (to_buf r) < BUFSIZE"

definition want_prx_in :: "relay \<Rightarrow> bool" where
  "want_prx_in r \<longleftrightarrow> length (fr_buf r) < BUFSIZE"

definition want_prx_out :: "relay \<Rightarrow> bool" where
  "want_prx_out r \<longleftrightarrow> too r \<noteq> length (to_buf r)"

definition want_cli_out :: "relay \<Rightarrow> bool" where
  "want_cli_out r \<longleftrightarrow> fro r \<noteq> length (fr_buf r)"

subsection \<open>The four parts of the loop body\<close>

text \<open>
  The select variant of the next theory runs the same four parts and differs in what it does
  after a failed call, so the parts take the reaction to errno as their first argument.  The
  poll variant goes back to the top of the loop for EAGAIN and EINTR, after a short sleep in
  the second case, and gives up with status 1 otherwise.
\<close>

type_synonym on_errno = "errno \<Rightarrow> relay \<Rightarrow> relay flow"

definition poll_errno :: on_errno where
  "poll_errno e r = (if e = EAGAIN \<or> e = EINTR then Again r else Ret 1 r)"

definition errno_ok :: "on_errno \<Rightarrow> bool" where
  "errno_ok oe \<longleftrightarrow> (\<forall>e r. oe e r = Go r \<and> e \<noteq> EOTHER \<or> oe e r = Again r \<and> e \<noteq> EOTHER \<or> oe e r = Ret 1 r)"

lemma errno_ok_poll [simp]: "errno_ok poll_errno"
  by (auto simp: errno_ok_def poll_errno_def)

definition cli_read :: "on_errno \<Rightarrow> bool \<Rightarrow> relay \<Rightarrow> relay flow" where
  "cli_read oe rdy r =
     (if \<not> rdy then Go r
      else case sys_read (BUFSIZE - length (to_buf r)) (inp (cli r)) of
        (res, es) \<Rightarrow>
          (let r1 = r\<lparr>cli := (cli r)\<lparr>inp := es\<rparr>\<rparr> in
           case res of
             RdErr e \<Rightarrow> oe e r1
           | RdBytes bs \<Rightarrow>
               if bs = [] then
                 Go (r1\<lparr>clienteof := True,
                        fins := (if too r = length (to_buf r) then fins r + 1 else fins r)\<rparr>)
               else Go (r1\<lparr>to_buf := to_buf r @ bs\<rparr>)))"

definition prx_read :: "on_errno \<Rightarrow> bool \<Rightarrow> relay \<Rightarrow> relay flow" where
  "prx_read oe rdy r =
     (if \<not> rdy then Go r
      else case sys_read (BUFSIZE - length (fr_buf r)) (inp (prx r)) of
        (res, es) \<Rightarrow>
          (let r1 = r\<lparr>prx := (prx r)\<lparr>inp := es\<rparr>\<rparr> in
           case res of
             RdErr e \<Rightarrow> oe e r1
           | RdBytes bs \<Rightarrow>
               if bs = [] then (if clienteof r then Ret 0 r1 else Ret 1 r1)
               else Go (r1\<lparr>fr_buf := fr_buf r @ bs\<rparr>)))"

definition cli_write :: "on_errno \<Rightarrow> bool \<Rightarrow> relay \<Rightarrow> relay flow" where
  "cli_write oe rdy r =
     (let n = length (fr_buf r) - fro r in
      if \<not> (rdy \<and> 0 < n) then Go r
      else case sys_write n (room (cli r)) of
        (res, es) \<Rightarrow>
          (case res of
             WrErr e \<Rightarrow> oe e (r\<lparr>cli := (cli r)\<lparr>room := es\<rparr>\<rparr>)
           | WrCount k \<Rightarrow>
               (let r1 = r\<lparr>cli := (cli r)\<lparr>room := es, sent := sent (cli r) @ take k (drop (fro r) (fr_buf r))\<rparr>,
                           fro := fro r + k\<rparr>
                in if fro r1 = length (fr_buf r1) then Go (r1\<lparr>fr_buf := [], fro := 0\<rparr>) else Go r1)))"

definition prx_write :: "on_errno \<Rightarrow> bool \<Rightarrow> relay \<Rightarrow> relay flow" where
  "prx_write oe rdy r =
     (let n = length (to_buf r) - too r in
      if \<not> (rdy \<and> 0 < n) then Go r
      else case sys_write n (room (prx r)) of
        (res, es) \<Rightarrow>
          (case res of
             WrErr e \<Rightarrow> oe e (r\<lparr>prx := (prx r)\<lparr>room := es\<rparr>\<rparr>)
           | WrCount k \<Rightarrow>
               (let r1 = r\<lparr>prx := (prx r)\<lparr>room := es, sent := sent (prx r) @ take k (drop (too r) (to_buf r))\<rparr>,
                           too := too r + k\<rparr>
                in if too r1 = length (to_buf r1)
                   then Go (r1\<lparr>to_buf := [], too := 0,
                               fins := (if clienteof r1 then fins r1 + 1 else fins r1)\<rparr>)
                   else Go r1)))"

text \<open>
  One turn of the loop.  The revents poll reports are a subset of the events asked for at the
  top of the turn: the bits the body adds to \<open>events\<close> after a read are overwritten before
  the next call of poll.
\<close>

fun relay_turn :: "relay \<Rightarrow> poll_ev \<Rightarrow> relay flow" where
  "relay_turn r (Poll_Err e) = poll_errno e r"
| "relay_turn r Poll_Timeout = Ret 6 r"
| "relay_turn r (Poll_Ready ci co pi po) =
     andthen (cli_read poll_errno (ci \<and> want_cli_in r) r) (\<lambda>r1.
     andthen (prx_read poll_errno (pi \<and> want_prx_in r) r1) (\<lambda>r2.
     andthen (cli_write poll_errno (co \<and> want_cli_out r) r2) (\<lambda>r3.
     prx_write poll_errno (po \<and> want_prx_out r) r3)))"

definition relay_step :: "relay \<Rightarrow> poll_ev \<Rightarrow> relay \<times> nat option" where
  "relay_step r ev = turn_end (relay_turn r ev)"

text \<open>\<open>negotiate\<close>: the two booleans say whether \<open>setnonblock\<close> succeeds on the descriptors.\<close>

definition negotiate :: "bool \<Rightarrow> bool \<Rightarrow> poll_ev list \<Rightarrow> sock \<Rightarrow> sock \<Rightarrow> relay \<times> nat option" where
  "negotiate nb_cli nb_prx evs c p =
     (if \<not> nb_cli then (relay_init c p, Some 1)
      else if \<not> nb_prx then (relay_init c p, Some 1)
      else relay_run relay_step evs (relay_init c p))"

subsection \<open>The buffers are queues\<close>

definition up :: "relay \<Rightarrow> view" where
  "up r = \<lparr>v_src = stream (inp (cli r)), v_pend = drop (too r) (to_buf r), v_out = sent (prx r)\<rparr>"

definition down :: "relay \<Rightarrow> view" where
  "down r = \<lparr>v_src = stream (inp (prx r)), v_pend = drop (fro r) (fr_buf r), v_out = sent (cli r)\<rparr>"

text \<open>
  The offsets stay inside the buffers, an emptied buffer starts again at its beginning, and
  the upstream side is closed exactly when the client is done and nothing is pending.
\<close>

definition buf_ok :: "byte list \<Rightarrow> nat \<Rightarrow> bool" where
  "buf_ok b i \<longleftrightarrow> length b \<le> BUFSIZE \<and> (i < length b \<or> b = [] \<and> i = 0)"

definition relay_ok :: "relay \<Rightarrow> bool" where
  "relay_ok r \<longleftrightarrow>
     buf_ok (to_buf r) (too r) \<and> buf_ok (fr_buf r) (fro r)
     \<and> fins r = (if clienteof r \<and> to_buf r = [] then 1 else 0)
     \<and> (clienteof r \<longrightarrow> stream (inp (cli r)) = [] \<and> stream_end (inp (cli r)) = Some REof)"

lemma buf_okD: "buf_ok b i \<Longrightarrow> i = length b \<longleftrightarrow> b = []" "buf_ok b i \<Longrightarrow> i \<le> length b"
  by (auto simp: buf_ok_def)

lemma relay_ok_init: "relay_ok (relay_init c p)"
  by (simp add: relay_ok_def relay_init_def buf_ok_def)

text \<open>poll is never called with nothing to wait for.\<close>

lemma relay_ok_wants: "relay_ok r \<Longrightarrow> want_prx_in r \<or> want_cli_out r"
  by (auto simp: relay_ok_def buf_ok_def want_prx_in_def want_cli_out_def)

lemma errno_okD:
  assumes "errno_ok oe"
  shows "after (oe e r) = r" and "\<not> is_ret (oe e r) \<Longrightarrow> e = EAGAIN \<or> e = EINTR"
  using assms unfolding errno_ok_def by (metis after.simps, metis errno.exhaust is_ret_simps(3))

lemma buf_ok_read: "buf_ok b i \<Longrightarrow> length b + length bs \<le> BUFSIZE \<Longrightarrow> bs \<noteq> [] \<Longrightarrow> buf_ok (b @ bs) i"
  by (auto simp: buf_ok_def)

lemma cli_read_ok:
  assumes oe: "errno_ok oe" and ok: "relay_ok r" and want: "rdy \<Longrightarrow> want_cli_in r"
  defines "f \<equiv> cli_read oe rdy r"
  shows "relay_ok (after f) \<and> carries (\<not> is_ret f) (up r) (up (after f)) \<and> down (after f) = down r
    \<and> (is_ret f \<longrightarrow> fins (after f) = 0)"
proof (cases rdy)
  case False
  then show ?thesis using ok by (simp add: f_def cli_read_def)
next
  case True
  let ?n = "BUFSIZE - length (to_buf r)"
  have n: "0 < ?n" and open_: "\<not> clienteof r" using want [OF True] by (auto simp: want_cli_in_def)
  obtain res es where rd: "sys_read ?n (inp (cli r)) = (res, es)" by (cases "sys_read ?n (inp (cli r))")
  note st = sys_read_stream [OF n, of "inp (cli r)", unfolded rd prod.case]
  have bo: "buf_ok (to_buf r) (too r)" using ok by (simp add: relay_ok_def)
  show ?thesis
  proof (cases res)
    case (RdErr e)
    let ?r = "r\<lparr>cli := (cli r)\<lparr>inp := es\<rparr>\<rparr>"
    have f: "f = oe e ?r" "after f = ?r"
      using RdErr rd \<open>rdy\<close> errno_okD(1) [OF oe] by (simp_all add: f_def cli_read_def)
    have "carries False (up r) (up ?r)" by (auto simp: carries_def up_def)
    moreover have "up ?r = up r" if "\<not> is_ret f"
      using sys_read_retry [OF rd [unfolded RdErr]] errno_okD(2) [OF oe, of e ?r] that
      by (simp add: f(1) up_def)
    ultimately have "carries (\<not> is_ret f) (up r) (up ?r)" by (cases "is_ret f") simp_all
    with ok open_ show ?thesis by (auto simp: f(2) relay_ok_def down_def)
  next
    case (RdBytes bs)
    with st have s: "stream (inp (cli r)) = bs @ stream es" "length bs \<le> ?n"
        "stream_end es = stream_end (inp (cli r))" "bs = [] \<Longrightarrow> stream (inp (cli r)) = [] \<and> stream_end (inp (cli r)) = Some REof"
      by auto
    show ?thesis
    proof (cases "bs = []")
      case True
      with RdBytes rd \<open>rdy\<close> s ok open_ bo show ?thesis
        by (auto simp: f_def cli_read_def relay_ok_def up_def down_def dest: buf_okD)
    next
      case False
      with RdBytes rd \<open>rdy\<close>
      have "f = Go (r\<lparr>cli := (cli r)\<lparr>inp := es\<rparr>, to_buf := to_buf r @ bs\<rparr>)"
        by (simp add: f_def cli_read_def)
      moreover have "buf_ok (to_buf r @ bs) (too r)"
        using buf_ok_read [OF bo _ False] s(2) n by auto
      moreover have "carries True (up r) (up (r\<lparr>cli := (cli r)\<lparr>inp := es\<rparr>, to_buf := to_buf r @ bs\<rparr>))"
        using s(1) buf_okD(2) [OF bo] by (intro carriesI [of _ _ "[]"]) (simp_all add: up_def)
      ultimately show ?thesis using ok open_ by (auto simp: relay_ok_def down_def)
    qed
  qed
qed

lemma prx_read_ok:
  assumes oe: "errno_ok oe" and ok: "relay_ok r" and want: "rdy \<Longrightarrow> length (fr_buf r) < BUFSIZE"
  defines "f \<equiv> prx_read oe rdy r"
  shows "relay_ok (after f) \<and> carries (\<not> is_ret f) (down r) (down (after f)) \<and> up (after f) = up r"
proof (cases rdy)
  case False
  then show ?thesis using ok by (simp add: f_def prx_read_def)
next
  case True
  let ?n = "BUFSIZE - length (fr_buf r)"
  have n: "0 < ?n" using want [OF True] by simp
  obtain res es where rd: "sys_read ?n (inp (prx r)) = (res, es)" by (cases "sys_read ?n (inp (prx r))")
  note st = sys_read_stream [OF n, of "inp (prx r)", unfolded rd prod.case]
  have bo: "buf_ok (fr_buf r) (fro r)" using ok by (simp add: relay_ok_def)
  let ?r = "r\<lparr>prx := (prx r)\<lparr>inp := es\<rparr>\<rparr>"
  have same: "relay_ok ?r" "up ?r = up r" using ok by (auto simp: relay_ok_def up_def)
  have weak: "carries False (down r) (down ?r)" by (auto simp: carries_def down_def)
  show ?thesis
  proof (cases res)
    case (RdErr e)
    have f: "f = oe e ?r" "after f = ?r"
      using RdErr rd \<open>rdy\<close> errno_okD(1) [OF oe] by (simp_all add: f_def prx_read_def)
    have "down ?r = down r" if "\<not> is_ret f"
      using sys_read_retry [OF rd [unfolded RdErr]] errno_okD(2) [OF oe, of e ?r] that
      by (simp add: f(1) down_def)
    with weak have "carries (\<not> is_ret f) (down r) (down ?r)" by (cases "is_ret f") simp_all
    with same show ?thesis by (simp add: f(2))
  next
    case (RdBytes bs)
    show ?thesis
    proof (cases "bs = []")
      case True
      with RdBytes rd \<open>rdy\<close> have "f = Ret 0 ?r \<or> f = Ret 1 ?r"
        by (simp add: f_def prx_read_def Let_def)
      with same weak show ?thesis by auto
    next
      case False
      with RdBytes rd \<open>rdy\<close> have "f = Go (?r\<lparr>fr_buf := fr_buf r @ bs\<rparr>)"
        by (simp add: f_def prx_read_def)
      moreover have "buf_ok (fr_buf r @ bs) (fro r)"
        using buf_ok_read [OF bo _ False] st RdBytes n by auto
      moreover have "carries True (down r) (down (?r\<lparr>fr_buf := fr_buf r @ bs\<rparr>))"
        using st RdBytes buf_okD(2) [OF bo] by (intro carriesI [of _ _ "[]"]) (auto simp: down_def)
      ultimately show ?thesis using ok by (auto simp: relay_ok_def up_def)
    qed
  qed
qed

lemma cli_write_ok:
  fixes rdy c :: bool
  assumes oe: "errno_ok oe" and ok: "relay_ok r"
  defines "f \<equiv> cli_write oe rdy r"
  shows "relay_ok (after f) \<and> carries c (down r) (down (after f)) \<and> up (after f) = up r"
proof (cases "rdy \<and> fro r < length (fr_buf r)")
  case False
  then show ?thesis using ok by (auto simp: f_def cli_write_def Let_def)
next
  case True
  let ?n = "length (fr_buf r) - fro r"
  have n: "0 < ?n" using True by simp
  obtain res es where wr: "sys_write ?n (room (cli r)) = (res, es)" by (cases "sys_write ?n (room (cli r))")
  have bo: "length (fr_buf r) \<le> BUFSIZE" using ok by (simp add: relay_ok_def buf_ok_def)
  show ?thesis
  proof (cases res)
    case (WrErr e)
    with wr True have "after f = r\<lparr>cli := (cli r)\<lparr>room := es\<rparr>\<rparr>" by (simp add: f_def cli_write_def Let_def errno_okD(1) [OF oe])
    with ok show ?thesis by (auto simp: relay_ok_def up_def down_def)
  next
    case (WrCount k)
    have k: "k \<le> ?n" using sys_write_capacity [OF n, of "room (cli r)"] wr WrCount by simp
    let ?s = "(cli r)\<lparr>room := es, sent := sent (cli r) @ take k (drop (fro r) (fr_buf r))\<rparr>"
    have split: "drop (fro r) (fr_buf r) = take k (drop (fro r) (fr_buf r)) @ drop (fro r + k) (fr_buf r)"
      using True by (simp add: take_drop_split)
    have f: "f = (if fro r + k = length (fr_buf r) then Go (r\<lparr>cli := ?s, fr_buf := [], fro := 0\<rparr>)
                  else Go (r\<lparr>cli := ?s, fro := fro r + k\<rparr>))"
      using wr WrCount True by (simp add: f_def cli_write_def Let_def)
    have "carries c (down r) (down (after f))"
      using split by (intro carriesI [of _ _ "take k (drop (fro r) (fr_buf r))"]) (auto simp: f down_def)
    moreover have "relay_ok (after f)"
      using ok k n bo by (auto simp: f relay_ok_def buf_ok_def)
    ultimately show ?thesis by (simp add: f up_def)
  qed
qed

lemma prx_write_ok:
  fixes rdy c :: bool
  assumes oe: "errno_ok oe" and ok: "relay_ok r"
  defines "f \<equiv> prx_write oe rdy r"
  shows "relay_ok (after f) \<and> carries c (up r) (up (after f)) \<and> down (after f) = down r"
proof (cases "rdy \<and> too r < length (to_buf r)")
  case False
  then show ?thesis using ok by (auto simp: f_def prx_write_def Let_def)
next
  case True
  let ?n = "length (to_buf r) - too r"
  have n: "0 < ?n" using True by simp
  obtain res es where wr: "sys_write ?n (room (prx r)) = (res, es)" by (cases "sys_write ?n (room (prx r))")
  have bo: "length (to_buf r) \<le> BUFSIZE" using ok by (simp add: relay_ok_def buf_ok_def)
  show ?thesis
  proof (cases res)
    case (WrErr e)
    with wr True have "after f = r\<lparr>prx := (prx r)\<lparr>room := es\<rparr>\<rparr>" by (simp add: f_def prx_write_def Let_def errno_okD(1) [OF oe])
    with ok show ?thesis by (auto simp: relay_ok_def up_def down_def)
  next
    case (WrCount k)
    have k: "k \<le> ?n" using sys_write_capacity [OF n, of "room (prx r)"] wr WrCount by simp
    let ?s = "(prx r)\<lparr>room := es, sent := sent (prx r) @ take k (drop (too r) (to_buf r))\<rparr>"
    have split: "drop (too r) (to_buf r) = take k (drop (too r) (to_buf r)) @ drop (too r + k) (to_buf r)"
      using True by (simp add: take_drop_split)
    have f: "f = (if too r + k = length (to_buf r)
                  then Go (r\<lparr>prx := ?s, to_buf := [], too := 0,
                             fins := (if clienteof r then fins r + 1 else fins r)\<rparr>)
                  else Go (r\<lparr>prx := ?s, too := too r + k\<rparr>))"
      using wr WrCount True by (simp add: f_def prx_write_def Let_def)
    have "carries c (up r) (up (after f))"
      using split by (intro carriesI [of _ _ "take k (drop (too r) (to_buf r))"]) (auto simp: f up_def)
    moreover have "relay_ok (after f)"
      using ok k n bo by (auto simp: f relay_ok_def buf_ok_def)
    ultimately show ?thesis by (simp add: f down_def)
  qed
qed

subsection \<open>One turn\<close>

lemma cli_read_frame: "errno_ok oe \<Longrightarrow> fr_buf (after (cli_read oe rdy r)) = fr_buf r"
  by (simp add: cli_read_def Let_def errno_okD(1) split: prod.split rd_result.split)

definition turn_ok :: "relay \<Rightarrow> relay flow \<Rightarrow> bool" where
  "turn_ok r f \<longleftrightarrow> relay_ok (after f)
     \<and> carries (\<not> is_ret f \<or> fins (after f) \<noteq> 0) (up r) (up (after f))
     \<and> carries (\<not> is_ret f) (down r) (down (after f))"

lemma turn_ok_andthen:
  assumes "turn_ok r f" and "\<And>r1. f = Go r1 \<Longrightarrow> relay_ok r1 \<Longrightarrow> turn_ok r1 (g r1)"
  shows "turn_ok r (andthen f g)"
proof (cases f)
  case (Go r1)
  with assms(1) have r1: "relay_ok r1" "carries True (up r) (up r1)" "carries True (down r) (down r1)"
    by (simp_all add: turn_ok_def)
  with assms(2) [OF Go r1(1)] Go show ?thesis
    by (auto simp: turn_ok_def intro: carries_trans)
qed (use assms(1) in simp_all)

lemma turn_ok_parts:
  assumes "errno_ok oe" and "relay_ok r"
  shows "(rdy \<Longrightarrow> want_cli_in r) \<Longrightarrow> turn_ok r (cli_read oe rdy r)"
    and "(rdy \<Longrightarrow> length (fr_buf r) < BUFSIZE) \<Longrightarrow> turn_ok r (prx_read oe rdy r)"
    and "turn_ok r (cli_write oe rdy r)"
    and "turn_ok r (prx_write oe rdy r)"
proof -
  show "(rdy \<Longrightarrow> want_cli_in r) \<Longrightarrow> turn_ok r (cli_read oe rdy r)"
    using cli_read_ok [OF assms, of rdy] by (auto simp: turn_ok_def)
  show "(rdy \<Longrightarrow> length (fr_buf r) < BUFSIZE) \<Longrightarrow> turn_ok r (prx_read oe rdy r)"
    using prx_read_ok [OF assms, of rdy] by (auto simp: turn_ok_def)
  show "turn_ok r (cli_write oe rdy r)" "turn_ok r (prx_write oe rdy r)"
    using cli_write_ok [OF assms, where c = True and rdy = rdy]
      prx_write_ok [OF assms, where c = True and rdy = rdy]
    unfolding turn_ok_def by (auto elim: carries_mono)
qed

lemma relay_turn_ok:
  assumes "relay_ok r"
  shows "turn_ok r (relay_turn r ev)"
proof (cases ev)
  case (Poll_Ready ci co pi po)
  have "length (fr_buf r1) < BUFSIZE" if "cli_read poll_errno rdy r = Go r1" "want_prx_in r" for rdy r1
    using that cli_read_frame [OF errno_ok_poll, of rdy r] by (simp add: want_prx_in_def)
  then show ?thesis
    unfolding Poll_Ready relay_turn.simps
    by (intro turn_ok_andthen turn_ok_parts assms errno_ok_poll) auto
qed (use assms errno_okD(1) [OF errno_ok_poll] in \<open>simp_all add: turn_ok_def\<close>)

lemma relay_step_turn:
  "relay_step r ev = (after (relay_turn r ev), snd (relay_step r ev))"
  "snd (relay_step r ev) = None \<longleftrightarrow> \<not> is_ret (relay_turn r ev)"
  by (cases "relay_turn r ev"; simp add: relay_step_def)+

interpretation pollr: byte_relay relay_step relay_ok up down fins
proof unfold_locales
  fix r ev r' st
  assume a: "relay_ok r" and st: "relay_step r ev = (r', st)"
  have "after (relay_turn r ev) = r'" and i: "is_ret (relay_turn r ev) \<longleftrightarrow> st \<noteq> None"
    using relay_step_turn [of r ev] st by auto
  with relay_turn_ok [OF a, of ev]
  show "relay_ok r'" "carries (st = None \<or> fins r' \<noteq> 0) (up r) (up r')"
    "carries (st = None) (down r) (down r')"
    unfolding turn_ok_def by simp_all
next
  fix r assume "relay_ok r"
  then show "fins r \<le> 1" "fins r \<noteq> 0 \<Longrightarrow> v_pend (up r) = [] \<and> v_src (up r) = []"
    by (auto simp: relay_ok_def up_def split: if_splits)
qed

subsection \<open>Properties\<close>

text \<open>A small script for the examples: the client sends two segments and closes.\<close>

definition sock_of :: "rd_event list \<Rightarrow> wr_event list \<Rightarrow> sock" where
  "sock_of i r = \<lparr>inp = i, room = r, sent = [], rcvtimeo_ok = True, sndtimeo_ok = True\<rparr>"

lemma negotiate_prefixes:
  assumes "negotiate a b evs c p = (r, st)"
  obtains out rest out' rest' where "sent (prx r) = sent p @ out" "stream (inp c) = out @ rest"
    "sent (cli r) = sent c @ out'" "stream (inp p) = out' @ rest'"
proof (cases "a \<and> b")
  case False
  with assms that [of "[]" _ "[]"] show thesis by (auto simp: negotiate_def relay_init_def split: if_splits)
next
  case True
  with assms have run: "relay_run relay_step evs (relay_init c p) = (r, st)"
    by (simp add: negotiate_def)
  with pollr.run_prefix [OF relay_ok_init run] that show thesis
    by (auto simp: up_def down_def relay_init_def)
qed

text \<open>C7: Integrity of the relay.  Whatever poll reports and however long the loop runs, the proxy
  has been sent a prefix of the bytes the client delivers, and the client a prefix of the bytes
  the proxy delivers, in order and unchanged.\<close>

theorem negotiate_integrity:
  "case negotiate a b evs c p of (r, st) \<Rightarrow>
     \<exists>out rest out' rest'.
       sent (prx r) = sent p @ out \<and> stream (inp c) = out @ rest
       \<and> sent (cli r) = sent c @ out' \<and> stream (inp p) = out' @ rest'"
proof -
  obtain r st where n: "negotiate a b evs c p = (r, st)" by (cases "negotiate a b evs c p")
  from negotiate_prefixes [OF n] show ?thesis unfolding n prod.case by metis
qed

text \<open>C9: Orderly close.  The relay shuts down the proxy side at most once, and only when every
  byte the client delivered has been written to the proxy.\<close>

theorem negotiate_half_close:
  assumes "negotiate a b evs c p = (r, st)"
  shows "fins r \<le> 1 \<and> (fins r \<noteq> 0 \<longrightarrow> sent (prx r) = sent p @ stream (inp c))"
proof (cases "a \<and> b")
  case False
  with assms show ?thesis by (auto simp: negotiate_def relay_init_def split: if_splits)
next
  case True
  with assms have run: "relay_run relay_step evs (relay_init c p) = (r, st)"
    by (simp add: negotiate_def)
  show ?thesis
    using pollr.run_fin [OF relay_ok_init run] by (simp add: up_def relay_init_def)
qed

lemma negotiate_half_close_witness:
  "case negotiate True True [Poll_Ready True True True True, Poll_Ready True True True True]
      (sock_of [RData [1, 2], REof] []) (sock_of [RData [3]] [WSpace 9]) of (r, st) \<Rightarrow>
     fins r \<le> 1 \<and> (fins r \<noteq> 0 \<longrightarrow> sent (prx r) = [] @ [1, 2])"
proof -
  obtain r st where n: "negotiate True True [Poll_Ready True True True True, Poll_Ready True True True True]
      (sock_of [RData [1, 2], REof] []) (sock_of [RData [3]] [WSpace 9]) = (r, st)"
    by fastforce
  show ?thesis unfolding n prod.case using negotiate_half_close [OF n] unfolding sock_of_def by simp
qed

text \<open>C11: While the relay runs its buffers hold exactly what has been read and not yet written,
  the offsets stay inside the arrays of one megabyte, and at the top of the loop there is
  always an event to wait for.\<close>

theorem negotiate_buffers:
  assumes "negotiate True True evs c p = (r, None)"
  shows "sent (prx r) @ drop (too r) (to_buf r) @ stream (inp (cli r)) = sent p @ stream (inp c)
    \<and> sent (cli r) @ drop (fro r) (fr_buf r) @ stream (inp (prx r)) = sent c @ stream (inp p)
    \<and> too r \<le> length (to_buf r) \<and> length (to_buf r) \<le> BUFSIZE
    \<and> fro r \<le> length (fr_buf r) \<and> length (fr_buf r) \<le> BUFSIZE
    \<and> (want_cli_in r \<or> want_prx_in r \<or> want_cli_out r \<or> want_prx_out r)"
proof -
  have run: "relay_run relay_step evs (relay_init c p) = (r, None)"
    using assms by (simp add: negotiate_def)
  have ok: "relay_ok r" using pollr.run_carries [OF relay_ok_init run] by simp
  then have "buf_ok (to_buf r) (too r)" "buf_ok (fr_buf r) (fro r)" by (auto simp: relay_ok_def)
  then have "too r \<le> length (to_buf r) \<and> length (to_buf r) \<le> BUFSIZE
      \<and> fro r \<le> length (fr_buf r) \<and> length (fr_buf r) \<le> BUFSIZE"
    by (auto simp: buf_ok_def)
  moreover have "sent (prx r) @ drop (too r) (to_buf r) @ stream (inp (cli r)) = sent p @ stream (inp c)"
      "sent (cli r) @ drop (fro r) (fr_buf r) @ stream (inp (prx r)) = sent c @ stream (inp p)"
    using pollr.run_conserves [OF relay_ok_init run] by (simp_all add: up_def down_def relay_init_def)
  ultimately show ?thesis using relay_ok_wants [OF ok] by blast
qed

lemma negotiate_buffers_witness:
  "let c = sock_of [RData [1, 2]] []; p = sock_of [] []; r = (relay_init c p)\<lparr>to_buf := [1, 2], cli := sock_of [] []\<rparr> in
   sent (prx r) @ drop (too r) (to_buf r) @ stream (inp (cli r)) = sent p @ stream (inp c)
    \<and> sent (cli r) @ drop (fro r) (fr_buf r) @ stream (inp (prx r)) = sent c @ stream (inp p)
    \<and> too r \<le> length (to_buf r) \<and> length (to_buf r) \<le> BUFSIZE
    \<and> fro r \<le> length (fr_buf r) \<and> length (fr_buf r) \<le> BUFSIZE
    \<and> (want_cli_in r \<or> want_prx_in r \<or> want_cli_out r \<or> want_prx_out r)"
  unfolding Let_def
  by (rule negotiate_buffers [of "[Poll_Ready True False False False]"])
     (simp add: negotiate_def relay_step_def relay_init_def sock_of_def want_cli_in_def want_prx_in_def
       want_cli_out_def want_prx_out_def cli_read_def prx_read_def cli_write_def prx_write_def BUFSIZE_def)

text \<open>C19: A relay that has bytes for the client in its buffer when the proxy closes throws them
  away: the end of file on the proxy socket returns at once, with status 0 or 1, and nothing is
  written.\<close>

theorem negotiate_drops_pending:
  assumes "relay_ok r" and "want_prx_in r" and "inp (prx r) = REof # es"
  shows "relay_step r (Poll_Ready False co True po) = (r, Some (if clienteof r then 0 else 1))"
proof -
  have "r\<lparr>prx := (prx r)\<lparr>inp := REof # es\<rparr>\<rparr> = r" using assms(3) by (cases r) (cases "prx r", simp)
  then show ?thesis using assms by (simp add: relay_step_def cli_read_def prx_read_def)
qed

lemma negotiate_drops_pending_witness:
  "relay_step (relay_init (sock_of [] [WSpace 9]) (sock_of [REof] [])\<lparr>fr_buf := [7, 8]\<rparr>) (Poll_Ready False True True True) =
     (relay_init (sock_of [] [WSpace 9]) (sock_of [REof] [])\<lparr>fr_buf := [7, 8]\<rparr>, Some 1)"
  using negotiate_drops_pending [of "relay_init (sock_of [] [WSpace 9]) (sock_of [REof] [])\<lparr>fr_buf := [7, 8]\<rparr>" "[]" True True]
  by (simp add: relay_ok_def relay_init_def sock_of_def buf_ok_def want_prx_in_def BUFSIZE_def)

end
