(* ===== verification/Silk_Hash.thy ===== *)
theory Silk_Hash
  imports Silk_Prelude
begin

section \<open>Hash functions (cache.c)\<close>

text \<open>
  The two hash functions the caches and the DNS table share, at the width the code computes
  them in, and what their collisions look like.
\<close>

text \<open>Jenkins' 32 bit integer hash, one assignment of the code per line.\<close>

definition hash32 :: "u32 \<Rightarrow> u32" where
  "hash32 a0 =
     (let a1 = (a0 + 0x7ed55d16) + push_bit 12 a0;
          a2 = (a1 XOR 0xc761c23c) XOR drop_bit 19 a1;
          a3 = (a2 + 0x165667b1) + push_bit 5 a2;
          a4 = (a3 + 0xd3a2646c) XOR push_bit 9 a3;
          a5 = (a4 + 0xfd7046c5) + push_bit 3 a4;
          a6 = (a5 XOR 0xb55a4f09) XOR drop_bit 16 a5
      in a6)"

text \<open>
  djb2.  The argument is the memory the pointer walks over; the loop leaves at the first
  zero byte.
\<close>

fun hash_loop :: "u64 \<Rightarrow> byte list \<Rightarrow> u64" where
  "hash_loop hash [] = hash"
| "hash_loop hash (c # str) =
     (if c = 0 then hash else hash_loop ((push_bit 5 hash + hash) + ucast c) str)"

definition hashStr :: "byte list \<Rightarrow> u64" where
  "hashStr str = hash_loop 5381 str"

lemma hash_loop_step: "c \<noteq> 0 \<Longrightarrow> hash_loop h (c # s) = hash_loop (33 * h + ucast c) s"
  by (simp add: push_bit_eq_mult algebra_simps)

declare hash_loop.simps(2) [simp del]

lemma hash_loop_nul [simp]: "hash_loop h (0 # s) = h"
  by (simp add: hash_loop.simps(2))

lemma hash_loop_c_str: "hash_loop h (c_str s) = hash_loop h s"
proof (induction s arbitrary: h)
  case (Cons c s)
  then show ?case
    by (cases "c = 0") (simp_all add: c_str_def hash_loop_step)
qed (simp add: c_str_def)

lemma hashStr_c_str [simp]: "hashStr (c_str s) = hashStr s"
  by (simp add: hashStr_def hash_loop_c_str)

lemma hash_loop_append:
  "0 \<notin> set s \<Longrightarrow> hash_loop h (s @ t) = hash_loop (hash_loop h s) t"
  by (induction s arbitrary: h) (auto simp: hash_loop_step)

text \<open>
  Raising a byte by one and lowering its successor by 33 does not change the hash, so nearly
  every string has many others with the same hash.
\<close>

lemma ucast_of_nat: "(ucast (c :: byte) :: u64) = of_nat (unat c)"
  by simp

lemma hashStr_sibling:
  assumes "0 \<notin> set s" and "unat c' = unat c + 1" and "unat d = unat d' + 33"
    and "c \<noteq> 0" and "d' \<noteq> 0"
  shows "hashStr (s @ c' # d' # t) = hashStr (s @ c # d # t)"
proof -
  have c': "c' \<noteq> 0" and d: "d \<noteq> 0" using assms by auto
  have uc: "(ucast c' :: u64) = ucast c + 1"
    unfolding ucast_of_nat assms(2) by simp
  have ud: "(ucast d :: u64) = ucast d' + 33"
    unfolding ucast_of_nat assms(3) by simp
  show ?thesis
    using assms(1,4,5) c' d
    by (simp add: hashStr_def hash_loop_append hash_loop_step uc ud algebra_simps)
qed

end
