(* ===== verification/Silk_Probe.thy ===== *)
theory Silk_Probe
  imports Silk_Prelude
begin

section \<open>Linear probing\<close>

text \<open>
  The search loop that \<open>cache_putip\<close>, \<open>cache_getip\<close>, \<open>cache_putapp_hash\<close> and
  \<open>cache_getapp\<close> of cache.c share.  The slots' keys are a list \<open>ks\<close>, the key 0 marks a free
  slot.  On a table with no free slot and no slot for the key the loop does not return:
  \<open>probe\<close> is then None.
\<close>

partial_function (option) probe :: "'k::zero list \<Rightarrow> nat \<Rightarrow> 'k \<Rightarrow> nat \<Rightarrow> nat option" where
  "probe ks n k i =
     (if ks ! i = 0 then Some i
      else if ks ! i = k then Some i
      else probe ks n k ((i + 1) mod n))"

text \<open>The keys of the occupied slots are distinct, and each is reached from its hash.\<close>

definition probe_ok :: "('k::zero \<Rightarrow> nat) \<Rightarrow> 'k list \<Rightarrow> bool" where
  "probe_ok h ks \<longleftrightarrow>
     (\<forall>i < length ks. ks ! i \<noteq> 0 \<longrightarrow>
        (\<exists>j < length ks. i = (h (ks ! i) + j) mod length ks
           \<and> (\<forall>j' < j. ks ! ((h (ks ! i) + j') mod length ks) \<noteq> 0))) \<and>
     (\<forall>i < length ks. \<forall>i' < length ks. ks ! i \<noteq> 0 \<longrightarrow> ks ! i = ks ! i' \<longrightarrow> i = i')"

subsection \<open>Where the loop stops\<close>

lemma probe_walk:
  "(\<And>j'. j' < j \<Longrightarrow> ks ! ((s + j') mod n) \<noteq> 0 \<and> ks ! ((s + j') mod n) \<noteq> k) \<Longrightarrow>
   probe ks n k (s mod n) = probe ks n k ((s + j) mod n)"
proof (induction j)
  case (Suc j)
  then have "probe ks n k (s mod n) = probe ks n k ((s + j) mod n)" by simp
  also have "\<dots> = probe ks n k (((s + j) mod n + 1) mod n)"
    using Suc.prems [of j] by (subst probe.simps) simp
  also have "((s + j) mod n + 1) mod n = (s + Suc j) mod n"
    by (simp add: mod_Suc_eq)
  finally show ?case .
qed simp

lemma probe_stop:
  assumes "\<And>j'. j' < j \<Longrightarrow> ks ! ((s + j') mod n) \<noteq> 0 \<and> ks ! ((s + j') mod n) \<noteq> k"
    and "ks ! ((s + j) mod n) = 0 \<or> ks ! ((s + j) mod n) = k"
  shows "probe ks n k (s mod n) = Some ((s + j) mod n)"
  using probe_walk [OF assms(1)] assms(2) by (subst (asm) (2) probe.simps) auto

lemma mod_reach:
  assumes "i < n"
  shows "\<exists>j < n. (s + j) mod n = (i::nat)"
proof (intro exI conjI)
  let ?j = "(i + (n - s mod n)) mod n"
  show "?j < n" using assms by simp
  have le: "s mod n \<le> n" using assms by (intro less_imp_le mod_less_divisor) simp
  have "(s + ?j) mod n = (s mod n + (i + (n - s mod n))) mod n"
    by (simp add: mod_simps)
  also have "s mod n + (i + (n - s mod n)) = i + n" using le by simp
  finally show "(s + ?j) mod n = i" using assms by simp
qed

text \<open>With a free slot, or one with the key, the loop returns after less than \<open>n\<close> turns.\<close>

lemma probe_found:
  assumes "n = length ks" and "i < n" and "ks ! i = 0 \<or> ks ! i = k"
  obtains j where "j < n" and "probe ks n k (s mod n) = Some ((s + j) mod n)"
    and "ks ! ((s + j) mod n) = 0 \<or> ks ! ((s + j) mod n) = k"
    and "\<And>j'. j' < j \<Longrightarrow> ks ! ((s + j') mod n) \<noteq> 0 \<and> ks ! ((s + j') mod n) \<noteq> k"
proof -
  let ?stop = "\<lambda>j. ks ! ((s + j) mod n) = 0 \<or> ks ! ((s + j) mod n) = k"
  obtain j0 where j0: "j0 < n" "(s + j0) mod n = i"
    using mod_reach [OF assms(2)] by blast
  define j where "j = (LEAST j. ?stop j)"
  have "?stop j0" using j0 assms(3) by simp
  then have stop: "?stop j" and le: "j \<le> j0"
    unfolding j_def by (rule LeastI, rule Least_le)
  have before: "\<not> ?stop j'" if "j' < j" for j'
    using not_less_Least [of j' ?stop] that unfolding j_def by blast
  have "probe ks n k (s mod n) = Some ((s + j) mod n)"
    using before stop by (intro probe_stop) auto
  then show thesis
    using that [of j] le j0 stop before by auto
qed

lemma probe_hit:
  assumes ok: "probe_ok h ks" and "i < length ks" and "ks ! i = k" and "k \<noteq> 0"
  shows "probe ks (length ks) k (h k mod length ks) = Some i"
proof -
  let ?n = "length ks"
  obtain j where j: "i = (h k + j) mod ?n"
      and path: "\<forall>j' < j. ks ! ((h k + j') mod ?n) \<noteq> 0"
    using assms unfolding probe_ok_def by blast
  obtain j1 where j1: "probe ks ?n k (h k mod ?n) = Some ((h k + j1) mod ?n)"
      and stop: "ks ! ((h k + j1) mod ?n) = 0 \<or> ks ! ((h k + j1) mod ?n) = k"
      and before: "\<And>j'. j' < j1 \<Longrightarrow> ks ! ((h k + j') mod ?n) \<noteq> 0 \<and> ks ! ((h k + j') mod ?n) \<noteq> k"
    using probe_found [of ?n ks i k "h k"] assms by blast
  have "\<not> j < j1" using before [of j] j assms(3) by auto
  then have "j1 < j \<or> j1 = j" by auto
  then have "ks ! ((h k + j1) mod ?n) = k"
    using path stop j assms(3) by auto
  moreover have "(h k + j1) mod ?n < ?n" using assms(2) by (intro mod_less_divisor) linarith
  ultimately have "(h k + j1) mod ?n = i"
    using ok assms(2-4) unfolding probe_ok_def by metis
  with j1 show ?thesis by simp
qed

lemma probe_miss:
  assumes "n = length ks" and "i < n" and "ks ! i = 0"
    and "k = 0 \<or> (\<forall>i < n. ks ! i \<noteq> k)"
  obtains r where "probe ks n k (s mod n) = Some r" and "r < n" and "ks ! r = 0"
proof -
  obtain j where "j < n" and j: "probe ks n k (s mod n) = Some ((s + j) mod n)"
      and stop: "ks ! ((s + j) mod n) = 0 \<or> ks ! ((s + j) mod n) = k"
    using probe_found [OF assms(1,2), of k s] assms(3) by blast
  moreover have lt: "(s + j) mod n < n" using \<open>j < n\<close> by simp
  moreover have "ks ! ((s + j) mod n) = 0" using stop assms(4) lt by auto
  ultimately show thesis using that by blast
qed

subsection \<open>Filling the slot the loop found\<close>

lemma probe_ok_insert:
  assumes ok: "probe_ok h ks" and "i < length ks" and "ks ! i = 0" and k: "k \<noteq> 0"
    and "probe ks (length ks) k (h k mod length ks) = Some r" and "ks ! r = 0"
  shows "probe_ok h (ks[r := k])"
proof -
  let ?n = "length ks"
  obtain j where jn: "j < ?n" and j: "probe ks ?n k (h k mod ?n) = Some ((h k + j) mod ?n)"
      and before: "\<And>j'. j' < j \<Longrightarrow> ks ! ((h k + j') mod ?n) \<noteq> 0 \<and> ks ! ((h k + j') mod ?n) \<noteq> k"
    using probe_found [of ?n ks i k "h k"] assms(2,3) by blast
  have r: "r = (h k + j) mod ?n" using j assms(5) by simp
  have rn: "r < ?n" unfolding r using assms(2) by (intro mod_less_divisor) linarith
  have upd: "ks[r := k] ! p = (if p = r then k else ks ! p)" for p
    using rn by simp
  have absent: "ks ! p \<noteq> k" if "p < ?n" for p
    using probe_hit [OF ok that _ k] assms(5,6) k by auto
  have free: "ks[r := k] ! p \<noteq> 0" if "ks ! p \<noteq> 0" for p
    using that k by (simp add: upd)
  have "\<exists>j < ?n. p = (h (ks[r := k] ! p) + j) mod ?n
           \<and> (\<forall>j' < j. ks[r := k] ! ((h (ks[r := k] ! p) + j') mod ?n) \<noteq> 0)"
    if p: "p < ?n" "ks[r := k] ! p \<noteq> 0" for p
  proof (cases "p = r")
    case True
    then have "ks[r := k] ! p = k" by (simp add: upd)
    with True r before free jn show ?thesis by (intro exI [of _ j]) simp
  next
    case False
    then have "ks ! p \<noteq> 0" using p(2) upd by simp
    with ok p(1) obtain j where "j < ?n" "p = (h (ks ! p) + j) mod ?n"
        "\<forall>j' < j. ks ! ((h (ks ! p) + j') mod ?n) \<noteq> 0"
      unfolding probe_ok_def by blast
    with False k show ?thesis unfolding upd by (auto intro!: exI [of _ j])
  qed
  moreover have "p = p'" if "p < ?n" "p' < ?n" "ks[r := k] ! p \<noteq> 0"
      "ks[r := k] ! p = ks[r := k] ! p'" for p p'
    using that ok absent unfolding upd probe_ok_def by (metis (full_types))
  ultimately show ?thesis unfolding probe_ok_def length_list_update by blast
qed

lemma probe_ok_replicate [simp]: "probe_ok h (replicate n 0)"
  by (simp add: probe_ok_def)

subsection \<open>The map a table stands for\<close>

text \<open>The entry stored for a key, for any entry type with a key selector.\<close>

definition tbl_find :: "('e \<Rightarrow> 'k::zero) \<Rightarrow> 'e list \<Rightarrow> 'k \<Rightarrow> 'e option" where
  "tbl_find key m k = (if k = 0 then None else find (\<lambda>e. key e = k) m)"

definition tbl_used :: "('e \<Rightarrow> 'k::zero) \<Rightarrow> 'e list \<Rightarrow> nat" where
  "tbl_used key m = length (filter (\<lambda>e. key e \<noteq> 0) m)"

lemma probe_ok_unique:
  "probe_ok h (map key m) \<Longrightarrow> i < length m \<Longrightarrow> i' < length m \<Longrightarrow>
   key (m ! i) \<noteq> 0 \<Longrightarrow> key (m ! i) = key (m ! i') \<Longrightarrow> i = i'"
  by (simp add: probe_ok_def)

lemma tbl_find_iff:
  assumes "probe_ok h (map key m)"
  shows "tbl_find key m k = Some e \<longleftrightarrow> k \<noteq> 0 \<and> (\<exists>i < length m. m ! i = e \<and> key e = k)"
proof
  assume "tbl_find key m k = Some e"
  then show "k \<noteq> 0 \<and> (\<exists>i < length m. m ! i = e \<and> key e = k)"
    by (auto simp: tbl_find_def find_Some_iff split: if_splits)
next
  assume r: "k \<noteq> 0 \<and> (\<exists>i < length m. m ! i = e \<and> key e = k)"
  then obtain i where i: "i < length m" "m ! i = e" "key e = k" by blast
  have "key (m ! j) \<noteq> k" if "j < i" for j
  proof
    assume "key (m ! j) = k"
    with probe_ok_unique [OF assms, of j i] that i r show False by auto
  qed
  with i have "find (\<lambda>e. key e = k) m = Some e"
    unfolding find_Some_iff by (intro exI [of _ i]) auto
  with r show "tbl_find key m k = Some e" by (simp add: tbl_find_def)
qed

lemma tbl_find_None_iff:
  "tbl_find key m k = None \<longleftrightarrow> k = 0 \<or> (\<forall>i < length m. key (m ! i) \<noteq> k)"
  by (auto simp: tbl_find_def find_None_iff in_set_conv_nth)

lemma tbl_find_update:
  assumes "probe_ok h (map key m)" and "probe_ok h (map key (m[r := e]))"
    and "r < length m" and "key (m ! r) = 0 \<or> key (m ! r) = key e"
  shows "tbl_find key (m[r := e]) k
       = (if k = key e \<and> k \<noteq> 0 then Some e else tbl_find key m k)"
proof (cases "k = key e \<and> k \<noteq> 0")
  case True
  then have "\<exists>i < length (m[r := e]). m[r := e] ! i = e \<and> key e = k"
    using assms(3) by (intro exI [of _ r]) simp
  with True have "tbl_find key (m[r := e]) k = Some e"
    unfolding tbl_find_iff [OF assms(2)] by blast
  then show ?thesis using True by metis
next
  case False
  have "m[r := e] ! i = x \<and> key x = k \<longleftrightarrow> m ! i = x \<and> key x = k"
    if "k \<noteq> 0" "i < length m" for i x
    using False that assms(3,4) by (cases "i = r") auto
  then have "tbl_find key (m[r := e]) k = Some x \<longleftrightarrow> tbl_find key m k = Some x" for x
    unfolding tbl_find_iff [OF assms(1)] tbl_find_iff [OF assms(2)] length_list_update
    by blast
  then have "tbl_find key (m[r := e]) k = tbl_find key m k"
    by (metis option.exhaust)
  with False show ?thesis by metis
qed

lemma tbl_used_update:
  assumes "r < length m"
  shows "tbl_used key (m[r := e]) + (if key (m ! r) \<noteq> 0 then 1 else 0)
       = tbl_used key m + (if key e \<noteq> 0 then 1 else 0)"
proof -
  have "m[r := e] = take r m @ e # drop (Suc r) m"
    using assms by (rule upd_conv_take_nth_drop)
  moreover have "tbl_used key m = tbl_used key (take r m @ m ! r # drop (Suc r) m)"
    using id_take_nth_drop [OF assms] by simp
  ultimately show ?thesis by (simp add: tbl_used_def)
qed

lemma tbl_used_free:
  assumes "tbl_used key m < length m"
  shows "\<exists>i < length m. key (m ! i) = 0"
  using ex_not_of_filter_less [of "\<lambda>e. key e \<noteq> 0" m] assms by (auto simp: tbl_used_def)

lemma tbl_find_replicate: "key z = 0 \<Longrightarrow> tbl_find key (replicate n z) k = None"
  by (simp add: tbl_find_None_iff)

lemma tbl_find_Cons:
  "tbl_find key (e # es) k = (if k \<noteq> 0 \<and> key e = k then Some e else tbl_find key es k)"
  by (simp add: tbl_find_def)

lemma tbl_used_Cons: "tbl_used key (e # es) = (if key e \<noteq> 0 then 1 else 0) + tbl_used key es"
  by (simp add: tbl_used_def)

lemma probe_ok_distinct:
  assumes "probe_ok h (map key m)"
  shows "distinct (map key (filter (\<lambda>e. key e \<noteq> 0) m))"
proof -
  have "distinct (map key (filter (\<lambda>e. key e \<noteq> 0) xs))"
    if "\<And>i i'. i < length xs \<Longrightarrow> i' < length xs \<Longrightarrow> key (xs ! i) \<noteq> 0 \<Longrightarrow>
          key (xs ! i) = key (xs ! i') \<Longrightarrow> i = i'" for xs
    using that
  proof (induction xs)
    case (Cons x xs)
    have "i = i'" if "i < length xs" "i' < length xs" "key (xs ! i) \<noteq> 0"
      "key (xs ! i) = key (xs ! i')" for i i'
      using Cons.prems [of "Suc i" "Suc i'"] that by simp
    then have "distinct (map key (filter (\<lambda>e. key e \<noteq> 0) xs))" by (rule Cons.IH)
    moreover have "key x \<noteq> key (xs ! i)" if "key x \<noteq> 0" "i < length xs" for i
      using Cons.prems [of 0 "Suc i"] that by auto
    ultimately show ?case by (auto simp: in_set_conv_nth)
  qed simp
  then show ?thesis using probe_ok_unique [OF assms] by blast
qed

text \<open>
  Filling the slot of a search for \<open>k\<close> keeps the table in order, stores the entry and counts
  at most one more slot.
\<close>

lemma probe_fill:
  assumes ok: "probe_ok h (map key m)" and free: "tbl_used key m < length m"
    and e: "key e = k"
  obtains r where "probe (map key m) (length m) k (h k mod length m) = Some r"
    and "r < length m" and "key (m ! r) = 0 \<or> key (m ! r) = k"
    and "probe_ok h (map key (m[r := e]))"
    and "\<And>k'. tbl_find key (m[r := e]) k' = (if k' = k \<and> k' \<noteq> 0 then Some e else tbl_find key m k')"
    and "tbl_used key (m[r := e]) \<le> tbl_used key m + (if key (m ! r) = 0 then 1 else 0)"
proof -
  obtain i where i: "i < length m" "key (m ! i) = 0" using tbl_used_free [OF free] by blast
  obtain j where "probe (map key m) (length m) k (h k mod length m) = Some ((h k + j) mod length m)"
      and stop: "map key m ! ((h k + j) mod length m) = 0 \<or> map key m ! ((h k + j) mod length m) = k"
    using probe_found [of "length m" "map key m" i k "h k"] i by auto
  moreover define r where "r = (h k + j) mod length m"
  ultimately have r: "probe (map key m) (length m) k (h k mod length m) = Some r" by simp
  have rn: "r < length m" unfolding r_def using i(1) by (intro mod_less_divisor) linarith
  have kr: "key (m ! r) = 0 \<or> key (m ! r) = k" using stop rn by (simp add: r_def)
  have ok': "probe_ok h (map key (m[r := e]))"
  proof (cases "key (m ! r) = k")
    case True
    then have "map key (m[r := e]) = map key m"
      using e rn by (simp add: map_update list_update_same_conv)
    with ok show ?thesis by simp
  next
    case False
    with kr have "k \<noteq> 0" "key (m ! r) = 0" by auto
    then show ?thesis
      using probe_ok_insert [of h "map key m" i k r] ok i r rn e by (simp add: map_update)
  qed
  show thesis
  proof (rule that [OF r rn kr ok'])
    show "tbl_find key (m[r := e]) k' = (if k' = k \<and> k' \<noteq> 0 then Some e else tbl_find key m k')"
      for k'
      using tbl_find_update [OF ok ok' rn, of k'] kr e by auto
    show "tbl_used key (m[r := e]) \<le> tbl_used key m + (if key (m ! r) = 0 then 1 else 0)"
      using tbl_used_update [OF rn, of key e] by (auto split: if_splits)
  qed
qed

text \<open>Looking a key up by the loop is looking it up in the map.\<close>

lemma probe_find:
  assumes ok: "probe_ok h (map key m)" and free: "tbl_used key m < length m"
  obtains r where "probe (map key m) (length m) k (h k mod length m) = Some r"
    and "r < length m"
    and "tbl_find key m k = (if key (m ! r) = 0 then None else Some (m ! r))"
proof -
  obtain i where i: "i < length m" "key (m ! i) = 0" using tbl_used_free [OF free] by blast
  show thesis
  proof (cases "tbl_find key m k")
    case None
    then have "k = 0 \<or> (\<forall>i < length m. map key m ! i \<noteq> k)"
      by (auto simp: tbl_find_None_iff)
    then obtain r where "probe (map key m) (length m) k (h k mod length m) = Some r"
        "r < length m" "map key m ! r = 0"
      using probe_miss [of "length m" "map key m" i k "h k"] i by auto
    with None show thesis using that by simp
  next
    case (Some e)
    then obtain j where j: "k \<noteq> 0" "j < length m" "m ! j = e" "key e = k"
      using tbl_find_iff [OF ok] by blast
    with Some show thesis
      using that [of j] probe_hit [OF ok, of j k] by simp
  qed
qed

end
