(* ===== verification/Silk_Cred_Cache.thy ===== *)
theory Silk_Cred_Cache
  imports Silk_Prelude
begin

section \<open>The contract of a credential cache\<close>

text \<open>
  socks.c uses both caches of cache.c in the same way: look the key up, on a miss ask the
  database, and store what it says.  \<open>read_through\<close> is that pattern; the locale states what
  the cache promises its callers, and proves what they may rely on.
\<close>

definition read_through ::
  "('v \<Rightarrow> 'w) \<Rightarrow> ('c \<Rightarrow> 'a \<Rightarrow> c_fault + 'w option) \<Rightarrow> ('c \<Rightarrow> 'a \<Rightarrow> 'v \<Rightarrow> c_fault + 'c) \<Rightarrow> ('a \<Rightarrow> 'v option)
   \<Rightarrow> 'c \<Rightarrow> 'a \<Rightarrow> c_fault + ('w option \<times> 'c)"
where
  "read_through out get put fetch c a =
     (case get c a of
        Inl f \<Rightarrow> Inl f
      | Inr (Some v) \<Rightarrow> Inr (Some v, c)
      | Inr None \<Rightarrow>
          (case fetch a of
             None \<Rightarrow> Inr (None, c)
           | Some v \<Rightarrow>
               (case put c a v of
                  Inl f \<Rightarrow> Inl f
                | Inr c' \<Rightarrow> Inr (Some (out v), c'))))"

text \<open>
  \<open>key_of\<close> is what the cache really compares: the address itself, or the hash of a user
  name.  The key 0 marks a free slot and is never found.  A full cache that cannot grow
  drops the new entry and stays as it is.  \<open>out v\<close> is the form in which \<open>get\<close> hands out \<open>v\<close>.
\<close>

locale cred_cache =
  fixes key_of :: "'a \<Rightarrow> 'k::zero"
    and out :: "'v \<Rightarrow> 'w"
    and get :: "'c \<Rightarrow> 'a \<Rightarrow> c_fault + 'w option"
    and put :: "'c \<Rightarrow> 'a \<Rightarrow> 'v \<Rightarrow> c_fault + 'c"
    and lookup :: "'c \<Rightarrow> 'k \<Rightarrow> 'v option"
    and inv :: "'c \<Rightarrow> bool"
    and roomy :: "'c \<Rightarrow> bool"
  assumes get_lookup: "inv c \<Longrightarrow> get c a = Inr (map_option out (lookup c (key_of a)))"
    and lookup_zero: "inv c \<Longrightarrow> lookup c 0 = None"
    and put_full: "inv c \<Longrightarrow> \<not> roomy c \<Longrightarrow> put c a v = Inr c"
    and put_roomy: "inv c \<Longrightarrow> roomy c \<Longrightarrow> \<exists>c'. put c a v = Inr c' \<and> inv c' \<and>
        (\<forall>k. lookup c' k = (if k = key_of a \<and> k \<noteq> 0 then Some v else lookup c k))"
begin

lemma put_cases:
  assumes "inv c"
  obtains c' where "put c a v = Inr c'" and "inv c'"
    and "c' = c \<or> (\<forall>k. lookup c' k = (if k = key_of a \<and> k \<noteq> 0 then Some v else lookup c k))"
  using put_full [OF assms] put_roomy [OF assms] assms by (metis (no_types))

lemma put_total: "inv c \<Longrightarrow> \<exists>c'. put c a v = Inr c' \<and> inv c'"
  by (metis put_cases)

lemma get_after_put:
  assumes "inv c" and "roomy c" and "key_of a \<noteq> 0" and "put c a v = Inr c'"
  shows "get c' b = (if key_of b = key_of a then Inr (Some (out v)) else get c b)"
  using put_roomy [OF assms(1,2), of a v] assms(1,3,4) by (auto simp: get_lookup)

lemma get_zero: "inv c \<Longrightarrow> key_of a = 0 \<Longrightarrow> get c a = Inr None"
  by (simp add: get_lookup lookup_zero)

text \<open>
  Everything in the cache came from the database, for some name with that key.  A
  read-through keeps this and returns such a value.
\<close>

definition coherent :: "('a \<Rightarrow> 'v option) \<Rightarrow> 'c \<Rightarrow> bool" where
  "coherent fetch c \<longleftrightarrow>
     (\<forall>k v. lookup c k = Some v \<longrightarrow> (\<exists>a. key_of a = k \<and> fetch a = Some v))"

lemma coherentI:
  "(\<And>k v. lookup c k = Some v \<Longrightarrow> \<exists>a. key_of a = k \<and> fetch a = Some v) \<Longrightarrow> coherent fetch c"
  by (simp add: coherent_def)

lemma read_through_total:
  assumes "inv c"
  obtains r c' where "read_through out get put fetch c a = Inr (r, c')" and "inv c'"
proof (cases "lookup c (key_of a)")
  case (Some v)
  with assms that [of "Some (out v)" c] show thesis by (simp add: read_through_def get_lookup)
next
  case None
  show thesis
  proof (cases "fetch a")
    case None
    with \<open>lookup c (key_of a) = None\<close> assms that [of None c] show thesis
      by (simp add: read_through_def get_lookup)
  next
    case (Some v)
    obtain c' where "put c a v = Inr c'" "inv c'" using put_total [OF assms] by blast
    with Some \<open>lookup c (key_of a) = None\<close> assms that [of "Some (out v)" c'] show thesis
      by (simp add: read_through_def get_lookup)
  qed
qed

lemma read_through_coherent:
  assumes "inv c" and "coherent fetch c"
    and "read_through out get put fetch c a = Inr (r, c')"
  shows "coherent fetch c'"
    and "\<And>x. r = Some x \<Longrightarrow> \<exists>b v. key_of b = key_of a \<and> fetch b = Some v \<and> x = out v"
proof -
  consider (hit) v where "lookup c (key_of a) = Some v" "r = Some (out v)" "c' = c"
    | (none) "r = None" "c' = c"
    | (miss) v where "fetch a = Some v" "put c a v = Inr c'" "r = Some (out v)"
    using assms(1,3)
    by (auto simp: read_through_def get_lookup split: option.splits sum.splits)
  note cases = this
  show "coherent fetch c'"
  proof (cases rule: cases)
    case (miss v)
    obtain c'' where "put c a v = Inr c''" and
      "c'' = c \<or> (\<forall>k. lookup c'' k = (if k = key_of a \<and> k \<noteq> 0 then Some v else lookup c k))"
      using put_cases [OF assms(1)] by metis
    with miss assms(2) show ?thesis
      unfolding coherent_def by (metis option.inject sum.inject(2))
  qed (use assms(2) in simp_all)
  show "\<exists>b v. key_of b = key_of a \<and> fetch b = Some v \<and> x = out v" if "r = Some x" for x
  proof (cases rule: cases)
    case (hit v)
    then obtain b where "key_of b = key_of a" "fetch b = Some v"
      using assms(2) unfolding coherent_def by blast
    with hit(2) that show ?thesis by auto
  qed (use that in auto)
qed

lemma read_through_miss:
  assumes "inv c" and "lookup c (key_of a) = None" and "fetch a = Some v"
  shows "\<exists>c'. read_through out get put fetch c a = Inr (Some (out v), c')"
  using put_total [OF assms(1), of a v] assms by (auto simp: read_through_def get_lookup)

lemma read_through_none:
  assumes "inv c" and "read_through out get put fetch c a = Inr (None, c')"
  shows "fetch a = None" and "c' = c" and "lookup c (key_of a) = None"
  using assms by (auto simp: read_through_def get_lookup split: option.splits sum.splits)

text \<open>A value read through a cache with room is served from the cache afterwards.\<close>

lemma read_through_again:
  assumes "inv c" and "roomy c" and "key_of a \<noteq> 0"
    and "read_through out get put fetch c a = Inr (Some x, c')"
  shows "get c' a = Inr (Some x)"
  using assms get_after_put [OF assms(1-3), of _ c' a]
  by (auto simp: read_through_def get_lookup split: option.splits sum.splits)

end

end
