(* ===== verification/Silk_Cache_Ip.thy ===== *)
theory Silk_Cache_Ip
  imports Silk_Hash Silk_Probe Silk_Cred_Cache
begin

section \<open>The cache of upstream proxy credentials (cache.c)\<close>

text \<open>
  The open addressing table from IPv4 addresses to user and password: \<open>struct ip2creds\<close>,
  \<open>struct cache_ip\<close>, \<open>cache_initip\<close>, \<open>cache_resizeip\<close>, \<open>cache_putip\<close> and
  \<open>cache_getip\<close>.  Sizes are natural numbers; whether \<open>malloc\<close> serves a request of so many
  bytes is the parameter \<open>alloc\<close>.  The mutex makes each call atomic and has no state of its
  own here.  \<open>strdup\<close> may find no memory, which the code does not look at: the slot is then in use
  with a NULL string, and the next call that copies it reads through NULL.
\<close>

record ip2creds =
  ipkey :: u32
  ip_user :: cptr
  ip_passwd :: cptr

record cache_ip =
  ip_elements :: nat
  ip_size :: nat
  ip_map :: "ip2creds list"

text \<open>What \<open>memset\<close> leaves in a slot, and \<open>sizeof(struct ip2creds)\<close>.\<close>

definition ip2creds_zero :: ip2creds where
  "ip2creds_zero = \<lparr>ipkey = 0, ip_user = None, ip_passwd = None\<rparr>"

definition ip2creds_bytes :: nat where
  "ip2creds_bytes = 24"

definition cache_initip :: "(nat \<Rightarrow> bool) \<Rightarrow> nat \<Rightarrow> cache_ip option" where
  "cache_initip alloc initsize =
     (if initsize < 1 then None
      else if \<not> alloc (initsize * ip2creds_bytes) then None
      else Some \<lparr>ip_elements = 0, ip_size = initsize, ip_map = replicate initsize ip2creds_zero\<rparr>)"

text \<open>The part of \<open>cache_putip\<close> after the resize: find the slot, release or count it, fill it.\<close>

definition putip_slot :: "copying \<Rightarrow> cache_ip \<Rightarrow> u32 \<Rightarrow> cptr \<Rightarrow> cptr \<Rightarrow> c_fault + cache_ip" where
  "putip_slot dup c key user passwd =
     (case probe (map ipkey (ip_map c)) (ip_size c) key (unat (hash32 key) mod ip_size c) of
        None \<Rightarrow> Inl Hangs
      | Some i \<Rightarrow>
          (let c1 = (if ipkey (ip_map c ! i) \<noteq> 0 then c
                     else c\<lparr>ip_elements := ip_elements c + 1\<rparr>)
           in case strdup (dup [0]) user of
                Inl f \<Rightarrow> Inl f
              | Inr u \<Rightarrow>
                  (case strdup (dup [1]) passwd of
                     Inl f \<Rightarrow> Inl f
                   | Inr p \<Rightarrow>
                       Inr (c1\<lparr>ip_map := (ip_map c1)[i := \<lparr>ipkey = key, ip_user = u, ip_passwd = p\<rparr>]\<rparr>))))"

text \<open>
  \<open>cache_resizeip\<close> copies every occupied slot into the new table with \<open>cache_putip\<close>, which
  may itself resize.  The copying function is a parameter, so that the two can be tied below;
  \<open>i\<close> is the number of the slot.  None is the return value 0.
\<close>

fun resizeip_loop ::
  "(copying \<Rightarrow> cache_ip \<Rightarrow> u32 \<Rightarrow> cptr \<Rightarrow> cptr \<Rightarrow> c_fault + cache_ip) \<Rightarrow> copying \<Rightarrow> nat \<Rightarrow> ip2creds list
   \<Rightarrow> cache_ip \<Rightarrow> c_fault + cache_ip"
where
  "resizeip_loop putip dup i [] temp = Inr temp"
| "resizeip_loop putip dup i (e # es) temp =
     (if ipkey e \<noteq> 0
      then case putip (\<lambda>p. dup (i # p)) temp (ipkey e) (ip_user e) (ip_passwd e) of
             Inl f \<Rightarrow> Inl f
           | Inr temp' \<Rightarrow> resizeip_loop putip dup (Suc i) es temp'
      else resizeip_loop putip dup (Suc i) es temp)"

definition cache_resizeip ::
  "(copying \<Rightarrow> cache_ip \<Rightarrow> u32 \<Rightarrow> cptr \<Rightarrow> cptr \<Rightarrow> c_fault + cache_ip) \<Rightarrow> (nat \<Rightarrow> bool) \<Rightarrow> copying
   \<Rightarrow> cache_ip \<Rightarrow> nat \<Rightarrow> c_fault + cache_ip option"
where
  "cache_resizeip putip alloc dup c newsize =
     (case cache_initip alloc newsize of
        None \<Rightarrow> Inr None
      | Some temp \<Rightarrow>
          (case resizeip_loop putip dup 0 (map (\<lambda>i. ip_map c ! i) [0..<ip_size c]) temp of
             Inl f \<Rightarrow> Inl f
           | Inr temp' \<Rightarrow>
               Inr (Some (c\<lparr>ip_elements := ip_elements temp', ip_size := ip_size temp',
                            ip_map := ip_map temp'\<rparr>))))"

text \<open>
  \<open>cache_putip\<close> and \<open>cache_resizeip\<close> call each other.  \<open>depth\<close> bounds the nesting of the
  calls; a nesting of more than \<open>depth\<close> counts as not returning.  \<open>putip_depth_spec\<close>
  below shows that two levels are enough: copying into the doubled table never resizes again.
\<close>

fun cache_putip_depth ::
  "nat \<Rightarrow> (nat \<Rightarrow> bool) \<Rightarrow> copying \<Rightarrow> cache_ip \<Rightarrow> u32 \<Rightarrow> cptr \<Rightarrow> cptr \<Rightarrow> c_fault + cache_ip"
where
  "cache_putip_depth 0 alloc dup c key user passwd = Inl Hangs"
| "cache_putip_depth (Suc depth) alloc dup c key user passwd =
     (if ip_elements c \<ge> ip_size c div 2
      then case cache_resizeip (cache_putip_depth depth alloc) alloc dup c (ip_size c * 2) of
             Inl f \<Rightarrow> Inl f
           | Inr None \<Rightarrow> Inr c
           | Inr (Some c') \<Rightarrow> putip_slot dup c' key user passwd
      else putip_slot dup c key user passwd)"

declare cache_putip_depth.simps(2) [simp del]

definition cache_putip ::
  "(nat \<Rightarrow> bool) \<Rightarrow> copying \<Rightarrow> cache_ip \<Rightarrow> u32 \<Rightarrow> cptr \<Rightarrow> cptr \<Rightarrow> c_fault + cache_ip"
where
  "cache_putip alloc dup c key user passwd = cache_putip_depth 2 alloc dup c key user passwd"

text \<open>\<open>cache_getip\<close>: None is the return value 0, otherwise the copies it hands out.\<close>

definition cache_getip :: "copying \<Rightarrow> cache_ip \<Rightarrow> u32 \<Rightarrow> c_fault + (cptr \<times> cptr) option" where
  "cache_getip dup c key =
     (case probe (map ipkey (ip_map c)) (ip_size c) key (unat (hash32 key) mod ip_size c) of
        None \<Rightarrow> Inl Hangs
      | Some i \<Rightarrow>
          (if ipkey (ip_map c ! i) = 0 then Inr None
           else case strdup (dup [0]) (ip_user (ip_map c ! i)) of
                  Inl f \<Rightarrow> Inl f
                | Inr u \<Rightarrow>
                    (case strdup (dup [1]) (ip_passwd (ip_map c ! i)) of
                       Inl f \<Rightarrow> Inl f
                     | Inr p \<Rightarrow> Inr (Some (u, p)))))"

subsection \<open>Well-formed tables and the map they stand for\<close>

abbreviation ip_hash :: "u32 \<Rightarrow> nat" where
  "ip_hash k \<equiv> unat (hash32 k)"

definition creds_of :: "ip2creds \<Rightarrow> (cstr \<times> cstr) option" where
  "creds_of e = (case (ip_user e, ip_passwd e) of (Some u, Some p) \<Rightarrow> Some (u, p) | _ \<Rightarrow> None)"

definition ip_lookup :: "cache_ip \<Rightarrow> u32 \<Rightarrow> (cstr \<times> cstr) option" where
  "ip_lookup c k = Option.bind (tbl_find ipkey (ip_map c) k) creds_of"

text \<open>
  The shape of the table, whatever copies failed, and that no string of a used slot is NULL.
\<close>

definition ip_shape :: "cache_ip \<Rightarrow> bool" where
  "ip_shape c \<longleftrightarrow>
     ip_size c = length (ip_map c) \<and> probe_ok ip_hash (map ipkey (ip_map c))
     \<and> tbl_used ipkey (ip_map c) \<le> ip_elements c"

abbreviation creds_whole :: "ip2creds list \<Rightarrow> bool" where
  "creds_whole es \<equiv> \<forall>e \<in> set es. ipkey e \<noteq> 0 \<longrightarrow> creds_of e \<noteq> None"

definition ip_whole :: "cache_ip \<Rightarrow> bool" where
  "ip_whole c \<longleftrightarrow> creds_whole (ip_map c)"

text \<open>The load factor: never more than half of the slots are counted as used.\<close>

definition ip_sound :: "cache_ip \<Rightarrow> bool" where
  "ip_sound c \<longleftrightarrow> ip_shape c \<and> 0 < ip_size c \<and> ip_elements c \<le> ip_size c div 2"

definition ip_inv :: "cache_ip \<Rightarrow> bool" where
  "ip_inv c \<longleftrightarrow> ip_sound c \<and> ip_whole c"

definition ip_roomy :: "(nat \<Rightarrow> bool) \<Rightarrow> cache_ip \<Rightarrow> bool" where
  "ip_roomy alloc c \<longleftrightarrow>
     ip_elements c < ip_size c div 2 \<or> alloc (ip_size c * 2 * ip2creds_bytes)"

lemma ip_shape_free: "ip_shape c \<Longrightarrow> ip_elements c < ip_size c \<Longrightarrow> tbl_used ipkey (ip_map c) < length (ip_map c)"
  by (simp add: ip_shape_def)

lemma ip_sound_free: "ip_sound c \<Longrightarrow> ip_elements c < ip_size c"
  by (auto simp: ip_sound_def)

lemma ipkey_zero [simp]: "ipkey ip2creds_zero = 0"
  by (simp add: ip2creds_zero_def)

lemma tbl_used_zero [simp]: "tbl_used ipkey (replicate n ip2creds_zero) = 0"
  by (simp add: tbl_used_def ip2creds_zero_def)

lemma initip_inv:
  assumes "cache_initip alloc n = Some c"
  shows "ip_shape c" and "ip_whole c" and "ip_elements c = 0" and "ip_size c = n" and "0 < n"
    and "ip_lookup c k = None"
  using assms
  by (auto simp: cache_initip_def ip_shape_def ip_whole_def ip_lookup_def tbl_find_replicate split: if_splits)

subsection \<open>Looking up\<close>

lemma getip_cases:
  assumes sh: "ip_shape c" and free: "ip_elements c < ip_size c"
  shows "case cache_getip dup c k of
      Inl f \<Rightarrow> f = Null_Deref \<and> \<not> ip_whole c
    | Inr r \<Rightarrow> (\<forall>p. dup p) \<longrightarrow> r = map_option (\<lambda>(u, p). (Some u, Some p)) (ip_lookup c k)"
proof -
  have sz: "ip_size c = length (ip_map c)" and pok: "probe_ok ip_hash (map ipkey (ip_map c))"
    using sh by (auto simp: ip_shape_def)
  obtain r where pr: "probe (map ipkey (ip_map c)) (length (ip_map c)) k (ip_hash k mod length (ip_map c)) = Some r"
      and r: "r < length (ip_map c)"
      and fnd: "tbl_find ipkey (ip_map c) k = (if ipkey (ip_map c ! r) = 0 then None else Some (ip_map c ! r))"
    using probe_find [OF pok ip_shape_free [OF sh free]] by blast
  show ?thesis
  proof (cases "ipkey (ip_map c ! r) = 0")
    case True
    with pr fnd show ?thesis by (simp add: cache_getip_def ip_lookup_def sz)
  next
    case False
    show ?thesis
    proof (cases "creds_of (ip_map c ! r)")
      case None
      then have "\<not> ip_whole c" using False r by (auto simp: ip_whole_def)
      with None False pr show ?thesis
        by (auto simp: cache_getip_def sz creds_of_def strdup_def split: option.splits)
    next
      case (Some up)
      with False pr fnd show ?thesis
        by (auto simp: cache_getip_def ip_lookup_def sz creds_of_def split: option.splits)
    qed
  qed
qed

subsection \<open>Storing\<close>

text \<open>\<open>ip_stands c lk\<close>: the table stands for the map \<open>lk\<close>, without NULLs.\<close>

definition ip_stands :: "cache_ip \<Rightarrow> (u32 \<Rightarrow> (cstr \<times> cstr) option) \<Rightarrow> bool" where
  "ip_stands c lk \<longleftrightarrow> ip_whole c \<and> (\<forall>k. ip_lookup c k = lk k)"

definition ip_with :: "u32 \<Rightarrow> cstr \<times> cstr \<Rightarrow> (u32 \<Rightarrow> (cstr \<times> cstr) option) \<Rightarrow> u32 \<Rightarrow> (cstr \<times> cstr) option" where
  "ip_with k v lk k' = (if k' = k \<and> k' \<noteq> 0 then Some v else lk k')"

lemma putip_slot_spec:
  assumes sh: "ip_shape c" and free: "ip_elements c < ip_size c"
  shows "case putip_slot dup c k user passwd of
      Inl f \<Rightarrow> f = Null_Deref \<and> (user = None \<or> passwd = None)
    | Inr c' \<Rightarrow> ip_shape c' \<and> ip_size c' = ip_size c \<and> ip_elements c' \<le> ip_elements c + 1
        \<and> (\<exists>u p. user = Some u \<and> passwd = Some p
            \<and> ((\<forall>p. dup p) \<and> ip_whole c \<longrightarrow> ip_stands c' (ip_with k (u, p) (ip_lookup c))))"
proof (cases "\<exists>u p. user = Some u \<and> passwd = Some p")
  case False
  obtain i where "probe (map ipkey (ip_map c)) (ip_size c) k (ip_hash k mod ip_size c) = Some i"
    using probe_find [of ip_hash ipkey "ip_map c" k] sh ip_shape_free [OF sh free]
    by (auto simp: ip_shape_def)
  with False show ?thesis by (cases user; cases passwd) (auto simp: putip_slot_def Let_def)
next
  case True
  then obtain u p where up: "user = Some u" "passwd = Some p" by blast
  define m where "m = ip_map c"
  define e where "e = \<lparr>ipkey = k, ip_user = (if dup [0] then Some u else None),
      ip_passwd = (if dup [1] then Some p else None)\<rparr>"
  have sz: "ip_size c = length m" and pok: "probe_ok ip_hash (map ipkey m)"
    using sh by (auto simp: ip_shape_def m_def)
  have ek: "ipkey e = k" by (simp add: e_def)
  obtain r where pr: "probe (map ipkey m) (length m) k (ip_hash k mod length m) = Some r"
      and rn: "r < length m" and kr: "ipkey (m ! r) = 0 \<or> ipkey (m ! r) = k"
      and ok': "probe_ok ip_hash (map ipkey (m[r := e]))"
      and fnd: "\<And>k'. tbl_find ipkey (m[r := e]) k' = (if k' = k \<and> k' \<noteq> 0 then Some e else tbl_find ipkey m k')"
      and used: "tbl_used ipkey (m[r := e]) \<le> tbl_used ipkey m + (if ipkey (m ! r) = 0 then 1 else 0)"
    using probe_fill [OF pok _ ek] ip_shape_free [OF sh free] unfolding m_def by blast
  define c' where "c' = c\<lparr>ip_elements := ip_elements c + (if ipkey (m ! r) = 0 then 1 else 0),
                          ip_map := m[r := e]\<rparr>"
  have "putip_slot dup c k user passwd = Inr c'"
    using pr by (simp add: putip_slot_def c'_def m_def [symmetric] sz e_def up)
  moreover have "ip_shape c'"
    using sh ok' used unfolding ip_shape_def c'_def by (auto simp: m_def)
  moreover have "ip_stands c' (ip_with k (u, p) (ip_lookup c))" if "\<forall>p. dup p" "ip_whole c"
  proof -
    have ec: "creds_of e = Some (u, p)" using that(1) by (simp add: e_def creds_of_def)
    then have "ip_whole c'"
      using that(2) unfolding ip_whole_def c'_def
      by (auto simp: m_def simp del: split_paired_All dest!: set_update_subset_insert [THEN subsetD])
    then show ?thesis using fnd ec unfolding ip_stands_def ip_with_def ip_lookup_def c'_def m_def by auto
  qed
  ultimately show ?thesis using up by (simp add: c'_def sz)
qed

text \<open>What a failed copy leaves behind.\<close>

lemma getip_null:
  assumes sh: "ip_shape c" and free: "ip_elements c < ip_size c"
    and e: "tbl_find ipkey (ip_map c) k = Some e" "creds_of e = None"
  shows "cache_getip d c k = Inl Null_Deref"
proof -
  have sz: "ip_size c = length (ip_map c)" and pok: "probe_ok ip_hash (map ipkey (ip_map c))"
    using sh by (auto simp: ip_shape_def)
  obtain r where "probe (map ipkey (ip_map c)) (length (ip_map c)) k (ip_hash k mod length (ip_map c)) = Some r"
      and "tbl_find ipkey (ip_map c) k = (if ipkey (ip_map c ! r) = 0 then None else Some (ip_map c ! r))"
    using probe_find [OF pok ip_shape_free [OF sh free]] by blast
  with e sz show ?thesis
    by (auto simp: cache_getip_def creds_of_def strdup_def split: option.splits if_splits)
qed

lemma putip_slot_null:
  assumes sh: "ip_shape c" and free: "ip_elements c < ip_size c" and k: "k \<noteq> 0" and d: "\<not> (dup [0] \<and> dup [1])"
  shows "\<exists>c' e. putip_slot dup c k (Some u) (Some p) = Inr c'
    \<and> tbl_find ipkey (ip_map c') k = Some e \<and> creds_of e = None"
proof -
  define m where "m = ip_map c"
  define e where "e = \<lparr>ipkey = k, ip_user = (if dup [0] then Some u else None),
      ip_passwd = (if dup [1] then Some p else None)\<rparr>"
  have sz: "ip_size c = length m" and pok: "probe_ok ip_hash (map ipkey m)"
    using sh by (auto simp: ip_shape_def m_def)
  have ek: "ipkey e = k" by (simp add: e_def)
  obtain r where pr: "probe (map ipkey m) (length m) k (ip_hash k mod length m) = Some r"
      and fnd: "\<And>k'. tbl_find ipkey (m[r := e]) k' = (if k' = k \<and> k' \<noteq> 0 then Some e else tbl_find ipkey m k')"
    using probe_fill [OF pok _ ek] ip_shape_free [OF sh free] unfolding m_def by blast
  have "putip_slot dup c k (Some u) (Some p) =
      Inr (c\<lparr>ip_elements := ip_elements c + (if ipkey (m ! r) = 0 then 1 else 0), ip_map := m[r := e]\<rparr>)"
    using pr by (simp add: putip_slot_def m_def [symmetric] sz e_def)
  moreover have "creds_of e = None" using d by (auto simp: e_def creds_of_def)
  ultimately show ?thesis using fnd [of k] k by auto
qed

subsection \<open>Growing\<close>

text \<open>Copying into a table with enough room: no call of the loop resizes again.\<close>

definition ip_adding :: "ip2creds list \<Rightarrow> (u32 \<Rightarrow> (cstr \<times> cstr) option) \<Rightarrow> u32 \<Rightarrow> (cstr \<times> cstr) option" where
  "ip_adding es lk k = (case Option.bind (tbl_find ipkey es k) creds_of of None \<Rightarrow> lk k | Some v \<Rightarrow> Some v)"

lemma ip_adding_Cons:
  assumes "distinct (map ipkey (filter (\<lambda>e. ipkey e \<noteq> 0) (e # es)))" and "ipkey e \<noteq> 0" and "creds_of e = Some v"
  shows "ip_adding es (ip_with (ipkey e) v lk) k = ip_adding (e # es) lk k"
proof -
  have "tbl_find ipkey es (ipkey e) = None"
    using assms(1,2) by (simp add: tbl_find_None_iff) (metis (mono_tags, lifting) imageI mem_Collect_eq nth_mem)
  then show ?thesis using assms(2,3)
    by (auto simp: ip_adding_def ip_with_def tbl_find_def split: option.split)
qed

lemma resizeip_loop_spec:
  assumes "ip_shape temp" and "ip_elements temp + tbl_used ipkey es \<le> ip_size temp div 2"
  shows "case resizeip_loop (cache_putip_depth (Suc d) alloc) dup i es temp of
      Inl f \<Rightarrow> f = Null_Deref \<and> \<not> creds_whole es
    | Inr t \<Rightarrow> ip_shape t \<and> ip_size t = ip_size temp \<and> ip_elements t \<le> ip_elements temp + tbl_used ipkey es
        \<and> ((\<forall>p. dup p) \<and> ip_whole temp \<and> distinct (map ipkey (filter (\<lambda>e. ipkey e \<noteq> 0) es))
            \<longrightarrow> ip_stands t (ip_adding es (ip_lookup temp)))"
  using assms
proof (induction es arbitrary: i temp)
  case Nil
  then show ?case by (simp add: tbl_find_def ip_stands_def ip_adding_def)
next
  case (Cons e es)
  show ?case
  proof (cases "ipkey e = 0")
    case True
    then have "tbl_used ipkey (e # es) = tbl_used ipkey es" and "ip_adding (e # es) lk = ip_adding es lk" for lk
      by (auto simp: tbl_used_def tbl_find_def ip_adding_def)
    with Cons.IH [of temp "Suc i"] Cons.prems True show ?thesis by (auto split: sum.splits)
  next
    case False
    then have used: "tbl_used ipkey (e # es) = tbl_used ipkey es + 1" by (simp add: tbl_used_def)
    let ?dup = "\<lambda>p. dup (i # p)"
    have lt: "ip_elements temp < ip_size temp div 2" using Cons.prems(2) used by linarith
    then have free: "ip_elements temp < ip_size temp" by linarith
    have put: "cache_putip_depth (Suc d) alloc ?dup temp (ipkey e) (ip_user e) (ip_passwd e)
        = putip_slot ?dup temp (ipkey e) (ip_user e) (ip_passwd e)"
      using lt by (simp add: cache_putip_depth.simps(2))
    note slot = putip_slot_spec [where dup = ?dup and k = "ipkey e" and user = "ip_user e" and passwd = "ip_passwd e", OF Cons.prems(1) free]
    show ?thesis
    proof (cases "putip_slot ?dup temp (ipkey e) (ip_user e) (ip_passwd e)")
      case (Inl f)
      with slot False put show ?thesis by (auto simp: creds_of_def split: option.splits)
    next
      case (Inr t)
      then obtain u p where t: "ip_shape t" "ip_size t = ip_size temp" "ip_elements t \<le> ip_elements temp + 1"
          "ip_user e = Some u" "ip_passwd e = Some p"
          "(\<forall>p. dup p) \<and> ip_whole temp \<longrightarrow> ip_stands t (ip_with (ipkey e) (u, p) (ip_lookup temp))"
        using slot by auto
      have room: "ip_elements t + tbl_used ipkey es \<le> ip_size t div 2"
        using Cons.prems(2) used t(2,3) by linarith
      have cr: "creds_of e = Some (u, p)" using t(4,5) by (simp add: creds_of_def)
      have st: "ip_stands x (ip_adding es (ip_lookup t)) \<Longrightarrow> ip_stands x (ip_adding (e # es) (ip_lookup temp))"
        if "\<forall>p. dup p" "ip_whole temp" "distinct (map ipkey (filter (\<lambda>e. ipkey e \<noteq> 0) (e # es)))" for x
      proof -
        have "ip_lookup t = ip_with (ipkey e) (u, p) (ip_lookup temp)"
          using t(6) that(1,2) by (intro ext) (simp add: ip_stands_def)
        then show "ip_stands x (ip_adding es (ip_lookup t)) \<Longrightarrow> ip_stands x (ip_adding (e # es) (ip_lookup temp))"
          using ip_adding_Cons [OF that(3) False cr] by (simp add: ip_stands_def)
      qed
      from Cons.IH [OF t(1) room, of "Suc i"] t(1-3) t(6) cr Inr False put used st show ?thesis
        by (auto simp: ip_stands_def split: sum.splits)
    qed
  qed
qed

lemma resizeip_spec:
  assumes inv: "ip_sound c" and al: "alloc (ip_size c * 2 * ip2creds_bytes)"
  shows "case cache_resizeip (cache_putip_depth (Suc d) alloc) alloc dup c (ip_size c * 2) of
      Inl f \<Rightarrow> f = Null_Deref \<and> \<not> ip_whole c
    | Inr None \<Rightarrow> False
    | Inr (Some c') \<Rightarrow> ip_shape c' \<and> ip_size c' = ip_size c * 2 \<and> ip_elements c' \<le> ip_elements c
        \<and> ((\<forall>p. dup p) \<and> ip_whole c \<longrightarrow> ip_stands c' (ip_lookup c))"
proof -
  have sh: "ip_shape c" and pos: "0 < ip_size c" and half: "ip_elements c \<le> ip_size c div 2"
    using inv by (auto simp: ip_sound_def)
  obtain temp where temp: "cache_initip alloc (ip_size c * 2) = Some temp"
    using al pos by (simp add: cache_initip_def)
  have ent: "map (\<lambda>i. ip_map c ! i) [0..<ip_size c] = ip_map c"
    using sh by (simp add: ip_shape_def map_nth)
  have used: "tbl_used ipkey (ip_map c) \<le> ip_elements c"
    using sh by (simp add: ip_shape_def)
  have room: "ip_elements temp + tbl_used ipkey (ip_map c) \<le> ip_size temp div 2"
    using initip_inv [OF temp] used half by linarith
  have dist: "distinct (map ipkey (filter (\<lambda>e. ipkey e \<noteq> 0) (ip_map c)))"
    using sh by (auto simp: ip_shape_def intro: probe_ok_distinct)
  note loop = resizeip_loop_spec [where d = d and alloc = alloc and dup = dup and i = 0, OF initip_inv(1) [OF temp] room]
  show ?thesis
  proof (cases "resizeip_loop (cache_putip_depth (Suc d) alloc) dup 0 (ip_map c) temp")
    case (Inl f)
    with loop temp show ?thesis by (auto simp: cache_resizeip_def ent ip_whole_def)
  next
    case (Inr t)
    have "ip_adding (ip_map c) (ip_lookup temp) = ip_lookup c"
      using initip_inv(6) [OF temp] by (auto simp: ip_adding_def ip_lookup_def split: option.split)
    with loop Inr temp dist used initip_inv(2-5) [OF temp] show ?thesis
      by (auto simp: cache_resizeip_def ent ip_shape_def ip_stands_def ip_whole_def ip_lookup_def)
  qed
qed

text \<open>
  Two levels of calls are enough: at any greater depth the result is the same, and it is
  always a result.
\<close>

lemma putip_depth_spec:
  assumes inv: "ip_sound c"
  shows "case cache_putip_depth (Suc (Suc d)) alloc dup c k user passwd of
      Inl f \<Rightarrow> f = Null_Deref \<and> (\<not> ip_whole c \<or> user = None \<or> passwd = None)
    | Inr c' \<Rightarrow> ip_sound c' \<and>
        (if ip_roomy alloc c
         then \<exists>u p. user = Some u \<and> passwd = Some p
            \<and> ((\<forall>p. dup p) \<and> ip_whole c \<longrightarrow> ip_stands c' (ip_with k (u, p) (ip_lookup c)))
         else c' = c)"
proof -
  have sh: "ip_shape c" and pos: "0 < ip_size c" and half: "ip_elements c \<le> ip_size c div 2"
    using inv by (auto simp: ip_sound_def)
  consider "ip_elements c < ip_size c div 2" | "\<not> ip_elements c < ip_size c div 2" "ip_roomy alloc c"
    | "\<not> ip_roomy alloc c" by blast
  then show ?thesis
  proof cases
    case 1
    then have lt: "ip_elements c < ip_size c" by linarith
    have "cache_putip_depth (Suc (Suc d)) alloc dup c k user passwd = putip_slot dup c k user passwd"
      using 1 by (simp add: cache_putip_depth.simps(2))
    with putip_slot_spec [where dup = dup and k = k and user = user and passwd = passwd, OF sh lt] 1 pos show ?thesis
      by (auto simp: ip_sound_def ip_roomy_def split: sum.splits)
  next
    case 3
    then have "cache_putip_depth (Suc (Suc d)) alloc dup c k user passwd = Inr c"
      by (simp add: cache_putip_depth.simps(2) ip_roomy_def cache_resizeip_def cache_initip_def)
    with 3 inv show ?thesis by simp
  next
    case 2
    then have "alloc (ip_size c * 2 * ip2creds_bytes)" by (simp add: ip_roomy_def)
    note grow = resizeip_spec [where alloc = alloc and d = d and dup = dup, OF inv this]
    show ?thesis
    proof (cases "cache_resizeip (cache_putip_depth (Suc d) alloc) alloc dup c (ip_size c * 2)")
      case (Inl f)
      with 2 grow show ?thesis by (simp add: cache_putip_depth.simps(2))
    next
      case (Inr x)
      then obtain c1 where c1: "x = Some c1" "ip_shape c1" "ip_size c1 = ip_size c * 2" "ip_elements c1 \<le> ip_elements c"
          "(\<forall>p. dup p) \<and> ip_whole c \<longrightarrow> ip_stands c1 (ip_lookup c)"
        using grow by (cases x) auto
      have lt: "ip_elements c1 < ip_size c1" using c1(3,4) half pos by linarith
      have put: "cache_putip_depth (Suc (Suc d)) alloc dup c k user passwd = putip_slot dup c1 k user passwd"
        using 2 Inr c1(1) by (simp add: cache_putip_depth.simps(2))
      have "ip_elements c' \<le> ip_elements c1 + 1 \<Longrightarrow> ip_elements c' \<le> ip_size c1 div 2" for c'
        using c1(3,4) half pos by presburger
      moreover have "ip_with k v (ip_lookup c1) = ip_with k v (ip_lookup c)" if "ip_stands c1 (ip_lookup c)" for v
        using that by (auto simp: ip_stands_def ip_with_def)
      ultimately show ?thesis
        using putip_slot_spec [where dup = dup and k = k and user = user and passwd = passwd, OF c1(2) lt] 2(2) put c1(2,3,5) pos
        by (auto simp: ip_sound_def ip_stands_def split: sum.splits)
    qed
  qed
qed

lemmas putip_spec = putip_depth_spec [where d = 0, folded numeral_2_eq_2, folded cache_putip_def]

lemma putip_full:
  "ip_inv c \<Longrightarrow> \<not> ip_roomy alloc c \<Longrightarrow> cache_putip alloc dup c k (Some u) (Some p) = Inr c"
  using putip_spec [where c = c and alloc = alloc and dup = dup and k = k and user = "Some u" and passwd = "Some p"] by (auto simp: ip_inv_def split: sum.splits)

lemma putip_roomy:
  "ip_inv c \<Longrightarrow> ip_roomy alloc c \<Longrightarrow>
   \<exists>c'. cache_putip alloc (\<lambda>_. True) c k (Some u) (Some p) = Inr c' \<and> ip_inv c' \<and>
     (\<forall>k'. ip_lookup c' k' = (if k' = k \<and> k' \<noteq> 0 then Some (u, p) else ip_lookup c k'))"
  using putip_spec [where c = c and alloc = alloc and dup = "\<lambda>_. True" and k = k and user = "Some u" and passwd = "Some p"]
  by (auto simp: ip_inv_def ip_stands_def ip_with_def split: sum.splits)

interpretation ipc: cred_cache "\<lambda>k. k" "\<lambda>(u, p). (Some u, Some p)" "cache_getip (\<lambda>_. True)"
  "\<lambda>c k (u, p). cache_putip alloc (\<lambda>_. True) c k (Some u) (Some p)" ip_lookup ip_inv "ip_roomy alloc"
  for alloc
proof (unfold_locales, goal_cases)
  case (1 c a)
  then show ?case using getip_cases [where c = c and dup = "\<lambda>_. True" and k = a] ip_sound_free [of c]
    by (auto simp: ip_inv_def ip_sound_def split: sum.splits)
next
  case (2 c)
  then show ?case by (simp add: ip_lookup_def tbl_find_def)
next
  case (3 c a v)
  then show ?case by (cases v) (simp add: putip_full)
next
  case (4 c a v)
  obtain u p where v: "v = (u, p)" by (cases v)
  show ?case unfolding v prod.case using 4 by (rule putip_roomy)
qed

text \<open>The calls on any table of the right shape, whatever copies fail now or failed before.\<close>

lemma getip_sound:
  "ip_sound c \<Longrightarrow> case cache_getip dup c k of Inl f \<Rightarrow> f = Null_Deref \<and> \<not> ip_whole c
     | Inr r \<Rightarrow> (\<forall>p. dup p) \<longrightarrow> (\<forall>up. r = Some up \<longrightarrow> fst up \<noteq> None \<and> snd up \<noteq> None)"
  using getip_cases [where c = c and dup = dup and k = k] ip_sound_free [of c] by (auto simp: ip_sound_def split: sum.splits)

lemma putip_sound:
  "ip_sound c \<Longrightarrow> case cache_putip alloc dup c k user passwd of
      Inl f \<Rightarrow> f = Null_Deref \<and> (\<not> ip_whole c \<or> user = None \<or> passwd = None)
    | Inr c' \<Rightarrow> ip_sound c' \<and> ((\<forall>p. dup p) \<and> ip_whole c \<longrightarrow> ip_whole c')"
  using putip_spec [where c = c and alloc = alloc and dup = dup and k = k and user = user and passwd = passwd] by (auto simp: ip_stands_def split: sum.splits if_splits)

subsection \<open>Properties\<close>

lemma ip_inv_init: "cache_initip alloc n = Some c \<Longrightarrow> ip_inv c"
  by (auto simp: cache_initip_def ip_inv_def ip_sound_def ip_shape_def ip_whole_def tbl_used_def ip2creds_zero_def
      map_replicate_const probe_ok_def split: if_splits)

lemma putip_null:
  assumes inv: "ip_sound c" and room: "ip_elements c < ip_size c div 2" and k: "k \<noteq> 0"
    and d: "\<not> (dup [0] \<and> dup [1])"
  shows "\<exists>c'. cache_putip alloc dup c k (Some u) (Some p) = Inr c' \<and> (\<forall>d. cache_getip d c' k = Inl Null_Deref)"
proof -
  have sh: "ip_shape c" and lt: "ip_elements c < ip_size c" using inv room by (auto simp: ip_sound_def)
  obtain c' e where c': "putip_slot dup c k (Some u) (Some p) = Inr c'"
      "tbl_find ipkey (ip_map c') k = Some e" "creds_of e = None"
    using putip_slot_null [OF sh lt k d] by blast
  have put: "cache_putip alloc dup c k (Some u) (Some p) = Inr c'"
    using room c'(1) by (simp add: cache_putip_def numeral_2_eq_2 cache_putip_depth.simps(2))
  then have "ip_sound c'"
    using putip_sound [where alloc = alloc and dup = dup and k = k and user = "Some u" and passwd = "Some p", OF inv]
    by simp
  then have "cache_getip d c' k = Inl Null_Deref" for d
    using getip_null [OF _ _ c'(2,3)] ip_sound_free by (auto simp: ip_sound_def)
  with put show ?thesis by blast
qed

text \<open>C13: The credential cache is a map from addresses to credentials.  Storing credentials for
  a non-zero address in a cache that has room, or can grow, does not hang and keeps the table
  well formed; afterwards that address yields the new credentials and every other address what
  it yielded before, also when the table was resized on the way, as long as the strings could be
  copied.  If one could not, which the code does not look at, the slot is in use with a NULL, and
  the next lookup of that address dereferences it.\<close>

theorem ip_cache_get_after_put:
  assumes "ip_inv c" and "ip_roomy alloc c" and "key \<noteq> 0"
  shows "(\<exists>c'. cache_putip alloc (\<lambda>_. True) c key (Some u) (Some p) = Inr c' \<and> ip_inv c' \<and>
       (\<forall>k. cache_getip (\<lambda>_. True) c' k =
          (if k = key then Inr (Some (Some u, Some p)) else cache_getip (\<lambda>_. True) c k)))
    \<and> (ip_elements c < ip_size c div 2 \<and> \<not> (dup [0] \<and> dup [1]) \<longrightarrow>
       (\<exists>c'. cache_putip alloc dup c key (Some u) (Some p) = Inr c' \<and> (\<forall>d. cache_getip d c' key = Inl Null_Deref)))"
proof -
  obtain c' where c': "cache_putip alloc (\<lambda>_. True) c key (Some u) (Some p) = Inr c'" "ip_inv c'"
    using putip_roomy [OF assms(1,2)] by blast
  moreover have "ip_sound c" using assms(1) by (simp add: ip_inv_def)
  ultimately show ?thesis
    using ipc.get_after_put [OF assms(1,2,3), of "(u, p)" c'] putip_null [OF _ _ assms(3), of c dup alloc u p] by auto
qed

lemma ip_cache_get_after_put_witness:
  "let c = \<lparr>ip_elements = 0, ip_size = 2, ip_map = replicate 2 ip2creds_zero\<rparr> in
   (\<exists>c'. cache_putip (\<lambda>_. True) (\<lambda>_. True) c 0x0A000001 (Some [1]) (Some [2]) = Inr c' \<and> ip_inv c' \<and>
     (\<forall>k. cache_getip (\<lambda>_. True) c' k =
        (if k = 0x0A000001 then Inr (Some (Some [1], Some [2])) else cache_getip (\<lambda>_. True) c k)))
   \<and> (\<exists>c'. cache_putip (\<lambda>_. True) (\<lambda>q. q \<noteq> [1]) c 0x0A000001 (Some [1]) (Some [2]) = Inr c'
        \<and> (\<forall>d. cache_getip d c' 0x0A000001 = Inl Null_Deref))"
proof -
  let ?c = "\<lparr>ip_elements = 0, ip_size = 2, ip_map = replicate 2 ip2creds_zero\<rparr>"
  have i: "ip_inv ?c" by (rule ip_inv_init [of "\<lambda>_. True" 2]) (simp add: cache_initip_def)
  have "ip_roomy (\<lambda>_. True) ?c" "(0x0A000001 :: u32) \<noteq> 0" by (simp_all add: ip_roomy_def)
  from ip_cache_get_after_put [OF i this, of "[1]" "[2]" "\<lambda>q. q \<noteq> [1]"] show ?thesis by (simp add: Let_def)
qed

text \<open>Boundary cases of the credential cache.  A full cache that cannot get memory for a
  larger table drops the new entry and stays as it is; the address 0.0.0.0, whose key marks a
  free slot, is never found; and every lookup in a well-formed cache ends.\<close>

theorem ip_cache_boundaries:
  assumes "ip_inv c"
  shows "(\<not> ip_roomy alloc c \<longrightarrow> cache_putip alloc dup c key (Some u) (Some p) = Inr c)
    \<and> cache_getip (\<lambda>_. True) c 0 = Inr None \<and> (\<exists>r. cache_getip (\<lambda>_. True) c key = Inr r)"
  using putip_full [OF assms] ipc.get_zero [OF assms] ipc.get_lookup [OF assms] by blast

lemma ip_cache_boundaries_witness:
  "let c = \<lparr>ip_elements = 0, ip_size = 1, ip_map = [ip2creds_zero]\<rparr> in
   cache_putip (\<lambda>_. False) (\<lambda>_. True) c 7 (Some [1]) (Some [2]) = Inr c
   \<and> cache_getip (\<lambda>_. True) c 0 = Inr None \<and> (\<exists>r. cache_getip (\<lambda>_. True) c 7 = Inr r)"
  unfolding Let_def
  using ip_cache_boundaries [of "\<lparr>ip_elements = 0, ip_size = 1, ip_map = [ip2creds_zero]\<rparr>"
      "\<lambda>_. False" "\<lambda>_. True" 7 "[1]" "[2]"]
    ip_inv_init [of "\<lambda>_. True" 1] by (simp add: cache_initip_def ip_roomy_def)

end
