(* ===== verification/Silk_Cache_App.thy ===== *)
theory Silk_Cache_App
  imports Silk_Hash Silk_Probe Silk_Cred_Cache
begin

section \<open>The cache of application passwords (cache.c)\<close>

text \<open>
  \<open>struct app2passwd\<close>, \<open>struct cache_ap\<close>, \<open>cache_initapp\<close>, \<open>cache_resizeapp\<close>,
  \<open>cache_putapp_hash\<close>, \<open>cache_putapp\<close> and \<open>cache_getapp\<close>.  The slots hold the 64 bit
  hash of the user name and never the name: \<open>cache_getapp\<close> compares hashes only.  Here the
  resize fills the new table with \<open>cache_putapp_hash\<close>, which does not resize.  As in the other
  cache, a \<open>strdup\<close> that fails leaves a NULL password in a slot that is in use.
\<close>

record app2passwd =
  appkey :: u64
  app_passwd :: cptr

record cache_ap =
  ap_elements :: nat
  ap_size :: nat
  ap_map :: "app2passwd list"

definition app2passwd_zero :: app2passwd where
  "app2passwd_zero = \<lparr>appkey = 0, app_passwd = None\<rparr>"

definition app2passwd_bytes :: nat where
  "app2passwd_bytes = 16"

definition cache_initapp :: "(nat \<Rightarrow> bool) \<Rightarrow> nat \<Rightarrow> cache_ap option" where
  "cache_initapp alloc initsize =
     (if initsize < 1 then None
      else if \<not> alloc (initsize * app2passwd_bytes) then None
      else Some \<lparr>ap_elements = 0, ap_size = initsize, ap_map = replicate initsize app2passwd_zero\<rparr>)"

definition cache_putapp_hash :: "copying \<Rightarrow> cache_ap \<Rightarrow> u64 \<Rightarrow> cptr \<Rightarrow> c_fault + cache_ap" where
  "cache_putapp_hash dup c hash passwd =
     (case probe (map appkey (ap_map c)) (ap_size c) hash (unat hash mod ap_size c) of
        None \<Rightarrow> Inl Hangs
      | Some i \<Rightarrow>
          (let c1 = (if appkey (ap_map c ! i) \<noteq> 0 then c
                     else c\<lparr>ap_elements := ap_elements c + 1\<rparr>)
           in case strdup (dup [0]) passwd of
                Inl f \<Rightarrow> Inl f
              | Inr p \<Rightarrow> Inr (c1\<lparr>ap_map := (ap_map c1)[i := \<lparr>appkey = hash, app_passwd = p\<rparr>]\<rparr>)))"

fun resizeapp_loop :: "copying \<Rightarrow> nat \<Rightarrow> app2passwd list \<Rightarrow> cache_ap \<Rightarrow> c_fault + cache_ap" where
  "resizeapp_loop dup i [] temp = Inr temp"
| "resizeapp_loop dup i (e # es) temp =
     (if appkey e \<noteq> 0
      then case cache_putapp_hash (\<lambda>p. dup (i # p)) temp (appkey e) (app_passwd e) of
             Inl f \<Rightarrow> Inl f
           | Inr temp' \<Rightarrow> resizeapp_loop dup (Suc i) es temp'
      else resizeapp_loop dup (Suc i) es temp)"

definition cache_resizeapp :: "(nat \<Rightarrow> bool) \<Rightarrow> copying \<Rightarrow> cache_ap \<Rightarrow> nat \<Rightarrow> c_fault + cache_ap option" where
  "cache_resizeapp alloc dup c newsize =
     (case cache_initapp alloc newsize of
        None \<Rightarrow> Inr None
      | Some temp \<Rightarrow>
          (case resizeapp_loop dup 0 (map (\<lambda>i. ap_map c ! i) [0..<ap_size c]) temp of
             Inl f \<Rightarrow> Inl f
           | Inr temp' \<Rightarrow>
               Inr (Some (c\<lparr>ap_elements := ap_elements temp', ap_size := ap_size temp',
                            ap_map := ap_map temp'\<rparr>))))"

definition cache_putapp ::
  "(nat \<Rightarrow> bool) \<Rightarrow> copying \<Rightarrow> cache_ap \<Rightarrow> byte list \<Rightarrow> cptr \<Rightarrow> c_fault + cache_ap"
where
  "cache_putapp alloc dup c app passwd =
     (if ap_elements c \<ge> ap_size c div 2
      then case cache_resizeapp alloc dup c (ap_size c * 2) of
             Inl f \<Rightarrow> Inl f
           | Inr None \<Rightarrow> Inr c
           | Inr (Some c') \<Rightarrow> cache_putapp_hash dup c' (hashStr app) passwd
      else cache_putapp_hash dup c (hashStr app) passwd)"

definition cache_getapp :: "copying \<Rightarrow> cache_ap \<Rightarrow> byte list \<Rightarrow> c_fault + cptr option" where
  "cache_getapp dup c app =
     (let hash = hashStr app in
      case probe (map appkey (ap_map c)) (ap_size c) hash (unat hash mod ap_size c) of
        None \<Rightarrow> Inl Hangs
      | Some i \<Rightarrow>
          (if appkey (ap_map c ! i) = 0 then Inr None
           else case strdup (dup [0]) (app_passwd (ap_map c ! i)) of
                  Inl f \<Rightarrow> Inl f
                | Inr p \<Rightarrow> Inr (Some p)))"

subsection \<open>Well-formed tables and the map they stand for\<close>

definition app_lookup :: "cache_ap \<Rightarrow> u64 \<Rightarrow> cstr option" where
  "app_lookup c k = Option.bind (tbl_find appkey (ap_map c) k) app_passwd"

definition app_shape :: "cache_ap \<Rightarrow> bool" where
  "app_shape c \<longleftrightarrow>
     ap_size c = length (ap_map c) \<and> probe_ok unat (map appkey (ap_map c))
     \<and> tbl_used appkey (ap_map c) \<le> ap_elements c"

abbreviation passwds_whole :: "app2passwd list \<Rightarrow> bool" where
  "passwds_whole es \<equiv> \<forall>e \<in> set es. appkey e \<noteq> 0 \<longrightarrow> app_passwd e \<noteq> None"

definition app_whole :: "cache_ap \<Rightarrow> bool" where
  "app_whole c \<longleftrightarrow> passwds_whole (ap_map c)"

definition app_sound :: "cache_ap \<Rightarrow> bool" where
  "app_sound c \<longleftrightarrow> app_shape c \<and> 0 < ap_size c \<and> ap_elements c \<le> ap_size c div 2"

definition app_inv :: "cache_ap \<Rightarrow> bool" where
  "app_inv c \<longleftrightarrow> app_sound c \<and> app_whole c"

definition app_roomy :: "(nat \<Rightarrow> bool) \<Rightarrow> cache_ap \<Rightarrow> bool" where
  "app_roomy alloc c \<longleftrightarrow>
     ap_elements c < ap_size c div 2 \<or> alloc (ap_size c * 2 * app2passwd_bytes)"

lemma app_shape_free:
  "app_shape c \<Longrightarrow> ap_elements c < ap_size c \<Longrightarrow> tbl_used appkey (ap_map c) < length (ap_map c)"
  by (simp add: app_shape_def)

lemma app_sound_free: "app_sound c \<Longrightarrow> ap_elements c < ap_size c"
  by (auto simp: app_sound_def)

lemma appkey_zero [simp]: "appkey app2passwd_zero = 0"
  by (simp add: app2passwd_zero_def)

lemma initapp_inv:
  assumes "cache_initapp alloc n = Some c"
  shows "app_shape c" and "app_whole c" and "ap_elements c = 0" and "ap_size c = n" and "0 < n"
    and "app_lookup c k = None"
  using assms
  by (auto simp: cache_initapp_def app_shape_def app_whole_def app_lookup_def tbl_find_replicate tbl_used_def
      split: if_splits)

subsection \<open>Looking up and storing\<close>

lemma getapp_cases:
  assumes sh: "app_shape c" and free: "ap_elements c < ap_size c"
  shows "case cache_getapp dup c a of
      Inl f \<Rightarrow> f = Null_Deref \<and> \<not> app_whole c
    | Inr r \<Rightarrow> r = map_option (\<lambda>p. if dup [0] then Some p else None) (app_lookup c (hashStr a))"
proof -
  let ?k = "hashStr a"
  have sz: "ap_size c = length (ap_map c)" and pok: "probe_ok unat (map appkey (ap_map c))"
    using sh by (auto simp: app_shape_def)
  obtain r where pr: "probe (map appkey (ap_map c)) (length (ap_map c)) ?k (unat ?k mod length (ap_map c)) = Some r"
      and r: "r < length (ap_map c)"
      and fnd: "tbl_find appkey (ap_map c) ?k = (if appkey (ap_map c ! r) = 0 then None else Some (ap_map c ! r))"
    using probe_find [OF pok app_shape_free [OF sh free]] by blast
  show ?thesis
  proof (cases "appkey (ap_map c ! r) = 0")
    case True
    with pr fnd show ?thesis by (simp add: cache_getapp_def app_lookup_def sz Let_def)
  next
    case False
    show ?thesis
    proof (cases "app_passwd (ap_map c ! r)")
      case None
      then have "\<not> app_whole c" using False r by (auto simp: app_whole_def)
      with None False pr show ?thesis by (simp add: cache_getapp_def sz Let_def)
    next
      case (Some p)
      with False pr fnd show ?thesis by (simp add: cache_getapp_def app_lookup_def sz Let_def)
    qed
  qed
qed

text \<open>\<open>app_stands c lk\<close>: the table stands for the map \<open>lk\<close>, without NULLs.\<close>

definition app_stands :: "cache_ap \<Rightarrow> (u64 \<Rightarrow> cstr option) \<Rightarrow> bool" where
  "app_stands c lk \<longleftrightarrow> app_whole c \<and> (\<forall>k. app_lookup c k = lk k)"

definition app_with :: "u64 \<Rightarrow> cstr \<Rightarrow> (u64 \<Rightarrow> cstr option) \<Rightarrow> u64 \<Rightarrow> cstr option" where
  "app_with k v lk k' = (if k' = k \<and> k' \<noteq> 0 then Some v else lk k')"

lemma app_with_mono: "lk \<subseteq>\<^sub>m lk' \<Longrightarrow> app_with k v lk \<subseteq>\<^sub>m app_with k v lk'"
  by (auto simp: map_le_def app_with_def dom_def)

lemma app_with_SomeD:
  assumes "lk' \<subseteq>\<^sub>m app_with k p lk" and "lk' k' = Some v"
  shows "k' = k \<and> v = p \<or> lk k' = Some v"
proof -
  have "app_with k p lk k' = Some v" using assms unfolding map_le_def by (metis domI)
  then show ?thesis by (auto simp: app_with_def split: if_splits)
qed

lemma putapp_hash_spec:
  assumes sh: "app_shape c" and free: "ap_elements c < ap_size c"
  shows "case cache_putapp_hash dup c k passwd of
      Inl f \<Rightarrow> f = Null_Deref \<and> passwd = None
    | Inr c' \<Rightarrow> app_shape c' \<and> ap_size c' = ap_size c \<and> ap_elements c' \<le> ap_elements c + 1
        \<and> (\<exists>p. passwd = Some p \<and> app_lookup c' \<subseteq>\<^sub>m app_with k p (app_lookup c)
            \<and> ((\<forall>p. dup p) \<and> app_whole c \<longrightarrow> app_stands c' (app_with k p (app_lookup c))))"
proof (cases passwd)
  case None
  obtain i where "probe (map appkey (ap_map c)) (ap_size c) k (unat k mod ap_size c) = Some i"
    using probe_find [of unat appkey "ap_map c" k] sh app_shape_free [OF sh free]
    by (auto simp: app_shape_def)
  with None show ?thesis by (simp add: cache_putapp_hash_def Let_def)
next
  case (Some p)
  define m where "m = ap_map c"
  define e where "e = \<lparr>appkey = k, app_passwd = (if dup [0] then Some p else None)\<rparr>"
  have sz: "ap_size c = length m" and pok: "probe_ok unat (map appkey m)"
    using sh by (auto simp: app_shape_def m_def)
  have ek: "appkey e = k" by (simp add: e_def)
  obtain r where pr: "probe (map appkey m) (length m) k (unat k mod length m) = Some r"
      and rn: "r < length m" and kr: "appkey (m ! r) = 0 \<or> appkey (m ! r) = k"
      and ok': "probe_ok unat (map appkey (m[r := e]))"
      and fnd: "\<And>k'. tbl_find appkey (m[r := e]) k' = (if k' = k \<and> k' \<noteq> 0 then Some e else tbl_find appkey m k')"
      and used: "tbl_used appkey (m[r := e]) \<le> tbl_used appkey m + (if appkey (m ! r) = 0 then 1 else 0)"
    using probe_fill [OF pok _ ek] app_shape_free [OF sh free] unfolding m_def by blast
  define c' where "c' = c\<lparr>ap_elements := ap_elements c + (if appkey (m ! r) = 0 then 1 else 0),
                          ap_map := m[r := e]\<rparr>"
  have "cache_putapp_hash dup c k passwd = Inr c'"
    using pr by (simp add: cache_putapp_hash_def c'_def m_def [symmetric] sz e_def Some)
  moreover have "app_shape c'"
    using sh ok' used unfolding app_shape_def c'_def by (auto simp: m_def)
  moreover have "app_lookup c' \<subseteq>\<^sub>m app_with k p (app_lookup c)"
    using fnd unfolding map_le_def app_with_def app_lookup_def c'_def m_def
    by (auto simp: e_def split: if_splits)
  moreover have "app_stands c' (app_with k p (app_lookup c))" if "\<forall>p. dup p" "app_whole c"
  proof -
    have ec: "app_passwd e = Some p" using that(1) by (simp add: e_def)
    then have "app_whole c'"
      using that(2) unfolding app_whole_def c'_def
      by (auto simp: m_def dest!: set_update_subset_insert [THEN subsetD])
    then show ?thesis using fnd ec unfolding app_stands_def app_with_def app_lookup_def c'_def m_def by auto
  qed
  ultimately show ?thesis using Some by (simp add: c'_def sz)
qed

subsection \<open>Growing\<close>

definition app_adding :: "app2passwd list \<Rightarrow> (u64 \<Rightarrow> cstr option) \<Rightarrow> u64 \<Rightarrow> cstr option" where
  "app_adding es lk k = (case Option.bind (tbl_find appkey es k) app_passwd of None \<Rightarrow> lk k | Some v \<Rightarrow> Some v)"

lemma app_adding_mono: "lk \<subseteq>\<^sub>m lk' \<Longrightarrow> app_adding es lk \<subseteq>\<^sub>m app_adding es lk'"
  by (auto simp: map_le_def app_adding_def dom_def split: option.splits)

lemma app_adding_Cons:
  assumes "distinct (map appkey (filter (\<lambda>e. appkey e \<noteq> 0) (e # es)))" and "appkey e \<noteq> 0"
    and "app_passwd e = Some v"
  shows "app_adding es (app_with (appkey e) v lk) = app_adding (e # es) lk"
proof
  fix k
  have "tbl_find appkey es (appkey e) = None"
    using assms(1,2) by (simp add: tbl_find_None_iff) (metis (mono_tags, lifting) imageI mem_Collect_eq nth_mem)
  then show "app_adding es (app_with (appkey e) v lk) k = app_adding (e # es) lk k" using assms(2,3)
    by (auto simp: app_adding_def app_with_def tbl_find_def split: option.split)
qed

lemma resizeapp_loop_spec:
  assumes "app_shape temp" and "ap_elements temp + tbl_used appkey es < ap_size temp"
    and "distinct (map appkey (filter (\<lambda>e. appkey e \<noteq> 0) es))"
  shows "case resizeapp_loop dup i es temp of
      Inl f \<Rightarrow> f = Null_Deref \<and> \<not> passwds_whole es
    | Inr t \<Rightarrow> app_shape t \<and> ap_size t = ap_size temp \<and> ap_elements t \<le> ap_elements temp + tbl_used appkey es
        \<and> app_lookup t \<subseteq>\<^sub>m app_adding es (app_lookup temp)
        \<and> ((\<forall>p. dup p) \<and> app_whole temp \<longrightarrow> app_stands t (app_adding es (app_lookup temp)))"
  using assms
proof (induction es arbitrary: i temp)
  case Nil
  then show ?case by (simp add: tbl_find_def app_stands_def app_adding_def map_le_def)
next
  case (Cons e es)
  show ?case
  proof (cases "appkey e = 0")
    case True
    then have "tbl_used appkey (e # es) = tbl_used appkey es" and "app_adding (e # es) lk = app_adding es lk" for lk
      by (auto simp: tbl_used_Cons tbl_find_Cons app_adding_def)
    with Cons.IH [of temp "Suc i"] Cons.prems True show ?thesis by (auto split: sum.splits)
  next
    case False
    then have used: "tbl_used appkey (e # es) = tbl_used appkey es + 1" by (simp add: tbl_used_Cons)
    let ?dup = "\<lambda>p. dup (i # p)"
    have free: "ap_elements temp < ap_size temp" using Cons.prems(2) by linarith
    note slot = putapp_hash_spec [where dup = ?dup and k = "appkey e" and passwd = "app_passwd e",
        OF Cons.prems(1) free]
    show ?thesis
    proof (cases "cache_putapp_hash ?dup temp (appkey e) (app_passwd e)")
      case (Inl f)
      with slot False show ?thesis by auto
    next
      case (Inr t)
      then obtain p where t: "app_shape t" "ap_size t = ap_size temp" "ap_elements t \<le> ap_elements temp + 1"
          "app_passwd e = Some p" "app_lookup t \<subseteq>\<^sub>m app_with (appkey e) p (app_lookup temp)"
          "(\<forall>p. dup p) \<and> app_whole temp \<longrightarrow> app_stands t (app_with (appkey e) p (app_lookup temp))"
        using slot by auto
      have room: "ap_elements t + tbl_used appkey es < ap_size t"
        using Cons.prems(2) used t(2,3) by linarith
      have dist: "distinct (map appkey (filter (\<lambda>e. appkey e \<noteq> 0) es))"
        using Cons.prems(3) False by simp
      note add = app_adding_Cons [OF Cons.prems(3) False t(4), of "app_lookup temp"]
      have sub: "app_adding es (app_lookup t) \<subseteq>\<^sub>m app_adding (e # es) (app_lookup temp)"
        using app_adding_mono [OF t(5), of es] by (simp only: add)
      have st: "app_lookup t = app_with (appkey e) p (app_lookup temp)" if "\<forall>p. dup p" "app_whole temp"
        using t(6) that by (intro ext) (simp add: app_stands_def)
      have wh: "app_whole t" if "\<forall>p. dup p" "app_whole temp" using t(6) that by (simp add: app_stands_def)
      have ends: "app_stands x (app_adding (e # es) (app_lookup temp))"
        if "(\<forall>p. dup p) \<and> app_whole t \<longrightarrow> app_stands x (app_adding es (app_lookup t))" "\<forall>p. dup p" "app_whole temp" for x
        using that st wh add by simp
      show ?thesis
      proof (cases "resizeapp_loop dup (Suc i) es t")
        case (Inl f)
        with Cons.IH [OF t(1) room dist, of "Suc i"] Inr \<open>cache_putapp_hash ?dup temp (appkey e) (app_passwd e) = Inr t\<close> False
        show ?thesis by simp
      next
        case (Inr x)
        with Cons.IH [OF t(1) room dist, of "Suc i"] have x: "app_shape x" "ap_size x = ap_size t"
            "ap_elements x \<le> ap_elements t + tbl_used appkey es" "app_lookup x \<subseteq>\<^sub>m app_adding es (app_lookup t)"
            "(\<forall>p. dup p) \<and> app_whole t \<longrightarrow> app_stands x (app_adding es (app_lookup t))" by auto
        have "resizeapp_loop dup i (e # es) temp = Inr x"
          using \<open>cache_putapp_hash ?dup temp (appkey e) (app_passwd e) = Inr t\<close> Inr False by simp
        with x t(2,3) used ends [OF x(5)] map_le_trans [OF x(4) sub] show ?thesis by simp
      qed
    qed
  qed
qed

lemma resizeapp_spec:
  assumes inv: "app_sound c" and al: "alloc (ap_size c * 2 * app2passwd_bytes)"
  shows "case cache_resizeapp alloc dup c (ap_size c * 2) of
      Inl f \<Rightarrow> f = Null_Deref \<and> \<not> app_whole c
    | Inr None \<Rightarrow> False
    | Inr (Some c') \<Rightarrow> app_shape c' \<and> ap_size c' = ap_size c * 2 \<and> ap_elements c' \<le> ap_elements c
        \<and> app_lookup c' \<subseteq>\<^sub>m app_lookup c
        \<and> ((\<forall>p. dup p) \<and> app_whole c \<longrightarrow> app_stands c' (app_lookup c))"
proof -
  have sh: "app_shape c" and pos: "0 < ap_size c" and half: "ap_elements c \<le> ap_size c div 2"
    using inv by (auto simp: app_sound_def)
  obtain temp where temp: "cache_initapp alloc (ap_size c * 2) = Some temp"
    using al pos by (simp add: cache_initapp_def)
  have ent: "map (\<lambda>i. ap_map c ! i) [0..<ap_size c] = ap_map c"
    using sh by (simp add: app_shape_def map_nth)
  have used: "tbl_used appkey (ap_map c) \<le> ap_elements c"
    using sh by (simp add: app_shape_def)
  have room: "ap_elements temp + tbl_used appkey (ap_map c) < ap_size temp"
    using initapp_inv(3,4) [OF temp] used half pos by linarith
  have dist: "distinct (map appkey (filter (\<lambda>e. appkey e \<noteq> 0) (ap_map c)))"
    using sh by (auto simp: app_shape_def intro: probe_ok_distinct)
  note loop = resizeapp_loop_spec [where dup = dup and i = 0, OF initapp_inv(1) [OF temp] room dist]
  show ?thesis
  proof (cases "resizeapp_loop dup 0 (ap_map c) temp")
    case (Inl f)
    with loop temp show ?thesis by (auto simp: cache_resizeapp_def ent app_whole_def)
  next
    case (Inr t)
    have "app_adding (ap_map c) (app_lookup temp) = app_lookup c"
      using initapp_inv(6) [OF temp] by (auto simp: app_adding_def app_lookup_def split: option.split)
    moreover have "app_lookup (c\<lparr>ap_elements := x, ap_size := y, ap_map := ap_map t\<rparr>) = app_lookup t" for x y
      by (rule ext) (simp add: app_lookup_def)
    ultimately show ?thesis
      using loop Inr temp used initapp_inv(2-5) [OF temp]
      by (auto simp: cache_resizeapp_def ent app_shape_def app_stands_def app_whole_def)
  qed
qed

lemma putapp_spec:
  assumes inv: "app_sound c"
  shows "case cache_putapp alloc dup c a passwd of
      Inl f \<Rightarrow> f = Null_Deref \<and> (\<not> app_whole c \<or> passwd = None)
    | Inr c' \<Rightarrow> app_sound c' \<and>
        (if app_roomy alloc c
         then \<exists>p. passwd = Some p \<and> app_lookup c' \<subseteq>\<^sub>m app_with (hashStr a) p (app_lookup c)
            \<and> ((\<forall>p. dup p) \<and> app_whole c \<longrightarrow> app_stands c' (app_with (hashStr a) p (app_lookup c)))
         else c' = c)"
proof -
  have sh: "app_shape c" and pos: "0 < ap_size c" and half: "ap_elements c \<le> ap_size c div 2"
    using inv by (auto simp: app_sound_def)
  consider "ap_elements c < ap_size c div 2" | "\<not> ap_elements c < ap_size c div 2" "app_roomy alloc c"
    | "\<not> app_roomy alloc c" by blast
  then show ?thesis
  proof cases
    case 1
    then have lt: "ap_elements c < ap_size c" by linarith
    have "cache_putapp alloc dup c a passwd = cache_putapp_hash dup c (hashStr a) passwd"
      using 1 by (simp add: cache_putapp_def)
    with putapp_hash_spec [where dup = dup and k = "hashStr a" and passwd = passwd, OF sh lt] 1 pos
    show ?thesis by (auto simp: app_sound_def app_roomy_def split: sum.splits)
  next
    case 3
    then have "cache_putapp alloc dup c a passwd = Inr c"
      by (simp add: app_roomy_def cache_putapp_def cache_resizeapp_def cache_initapp_def)
    with 3 inv show ?thesis by simp
  next
    case 2
    then have "alloc (ap_size c * 2 * app2passwd_bytes)" by (simp add: app_roomy_def)
    note grow = resizeapp_spec [where alloc = alloc and dup = dup, OF inv this]
    show ?thesis
    proof (cases "cache_resizeapp alloc dup c (ap_size c * 2)")
      case (Inl f)
      with 2 grow show ?thesis by (simp add: cache_putapp_def)
    next
      case (Inr x)
      then obtain c1 where c1: "x = Some c1" "app_shape c1" "ap_size c1 = ap_size c * 2"
          "ap_elements c1 \<le> ap_elements c" "app_lookup c1 \<subseteq>\<^sub>m app_lookup c"
          "(\<forall>p. dup p) \<and> app_whole c \<longrightarrow> app_stands c1 (app_lookup c)"
        using grow by (cases x) auto
      have lt: "ap_elements c1 < ap_size c1" using c1(3,4) half pos by linarith
      have put: "cache_putapp alloc dup c a passwd = cache_putapp_hash dup c1 (hashStr a) passwd"
        using 2 Inr c1(1) by (simp add: cache_putapp_def)
      have "ap_elements c' \<le> ap_elements c1 + 1 \<Longrightarrow> ap_elements c' \<le> ap_size c1 div 2" for c'
        using c1(3,4) half pos by presburger
      moreover have "app_with k v (app_lookup c1) = app_with k v (app_lookup c)"
        if "app_stands c1 (app_lookup c)" for k v
        using that by (auto simp: app_stands_def app_with_def)
      moreover have "lk \<subseteq>\<^sub>m app_with k v (app_lookup c1) \<Longrightarrow> lk \<subseteq>\<^sub>m app_with k v (app_lookup c)" for lk k v
        using app_with_mono [OF c1(5)] map_le_trans by blast
      ultimately show ?thesis
        using putapp_hash_spec [where dup = dup and k = "hashStr a" and passwd = passwd, OF c1(2) lt]
          2(2) put c1(2,3,6) pos
        by (auto simp: app_sound_def app_stands_def split: sum.splits)
    qed
  qed
qed

lemma putapp_full:
  "app_inv c \<Longrightarrow> \<not> app_roomy alloc c \<Longrightarrow> cache_putapp alloc dup c a (Some p) = Inr c"
  using putapp_spec [where c = c and alloc = alloc and dup = dup and a = a and passwd = "Some p"]
  by (auto simp: app_inv_def split: sum.splits)

lemma putapp_roomy:
  assumes "app_inv c" and "app_roomy alloc c"
  shows "\<exists>c'. cache_putapp alloc (\<lambda>_. True) c a (Some p) = Inr c' \<and> app_inv c' \<and>
    (\<forall>k. app_lookup c' k = (if k = hashStr a \<and> k \<noteq> 0 then Some p else app_lookup c k))"
  using assms putapp_spec [where c = c and alloc = alloc and dup = "\<lambda>_. True" and a = a and passwd = "Some p"]
  by (auto simp: app_inv_def app_stands_def app_with_def split: sum.splits)

interpretation apc: cred_cache hashStr Some "cache_getapp (\<lambda>_. True)"
  "\<lambda>c a p. cache_putapp alloc (\<lambda>_. True) c a (Some p)" app_lookup app_inv "app_roomy alloc"
  for alloc
proof (unfold_locales, goal_cases)
  case (1 c a)
  then show ?case using getapp_cases [where c = c and dup = "\<lambda>_. True" and a = a] app_sound_free [of c]
    by (auto simp: app_inv_def app_sound_def split: sum.splits)
next
  case (2 c)
  then show ?case by (simp add: app_lookup_def tbl_find_def)
next
  case (3 c a v)
  then show ?case by (rule putapp_full)
next
  case (4 c a v)
  then show ?case by (rule putapp_roomy)
qed

text \<open>The calls on any table of the right shape, whatever copies fail now or failed before.\<close>

lemma getapp_sound:
  "app_sound c \<Longrightarrow> case cache_getapp dup c a of Inl f \<Rightarrow> f = Null_Deref \<and> \<not> app_whole c
     | Inr r \<Rightarrow> (dup [0] \<longrightarrow> r \<noteq> Some None) \<and> (\<forall>p. r = Some (Some p) \<longrightarrow> app_lookup c (hashStr a) = Some p)"
  using getapp_cases [where c = c and dup = dup and a = a] app_sound_free [of c]
  by (auto simp: app_sound_def split: sum.splits if_splits)

lemma putapp_sound:
  "app_sound c \<Longrightarrow> case cache_putapp alloc dup c a (Some p) of
      Inl f \<Rightarrow> f = Null_Deref \<and> \<not> app_whole c
    | Inr c' \<Rightarrow> app_sound c' \<and> ((\<forall>p. dup p) \<and> app_whole c \<longrightarrow> app_whole c')
        \<and> (\<forall>k v. app_lookup c' k = Some v \<longrightarrow> k = hashStr a \<and> v = p \<or> app_lookup c k = Some v)"
  using putapp_spec [where c = c and alloc = alloc and dup = dup and a = a and passwd = "Some p"]
  by (auto simp: app_stands_def split: sum.splits if_splits dest: app_with_SomeD)

subsection \<open>Properties\<close>

lemma app_inv_init: "cache_initapp alloc n = Some c \<Longrightarrow> app_inv c"
  by (auto simp: cache_initapp_def app_inv_def app_sound_def app_shape_def app_whole_def tbl_used_def
      app2passwd_zero_def map_replicate_const probe_ok_def split: if_splits)

text \<open>C14: The password cache stores hashes of user names, not the names.  After the password of
  one user is stored, every name with the same hash is answered with it, and every other name
  as before, as long as the strings could be copied; the operation does not hang and keeps the
  table well formed.\<close>

theorem app_cache_get_after_put:
  assumes "app_inv c" and "app_roomy alloc c" and "hashStr a \<noteq> 0"
  shows "\<exists>c'. cache_putapp alloc (\<lambda>_. True) c a (Some p) = Inr c' \<and> app_inv c' \<and>
     (\<forall>b. cache_getapp (\<lambda>_. True) c' b = (if hashStr b = hashStr a then Inr (Some (Some p)) else cache_getapp (\<lambda>_. True) c b))"
proof -
  obtain c' where c': "cache_putapp alloc (\<lambda>_. True) c a (Some p) = Inr c'" "app_inv c'"
    using putapp_roomy [OF assms(1,2)] by blast
  with apc.get_after_put [OF assms, of p c'] show ?thesis by auto
qed

lemma app_cache_get_after_put_witness:
  "\<exists>c'. cache_putapp (\<lambda>_. True) (\<lambda>_. True) \<lparr>ap_elements = 0, ap_size = 2, ap_map = replicate 2 app2passwd_zero\<rparr> [97, 98] (Some [1])
      = Inr c' \<and> app_inv c' \<and>
     (\<forall>b. cache_getapp (\<lambda>_. True) c' b = (if hashStr b = hashStr [97, 98] then Inr (Some (Some [1]))
        else cache_getapp (\<lambda>_. True) \<lparr>ap_elements = 0, ap_size = 2, ap_map = replicate 2 app2passwd_zero\<rparr> b))"
proof (rule app_cache_get_after_put)
  show "app_inv \<lparr>ap_elements = 0, ap_size = 2, ap_map = replicate 2 app2passwd_zero\<rparr>"
    by (rule app_inv_init [of "\<lambda>_. True" 2]) (simp add: cache_initapp_def)
qed (simp_all add: app_roomy_def, code_simp)

text \<open>C15: Two different user names can share a cache entry.  Once the password of the user
  \<open>s @ [c, d] @ t\<close> is cached, the user \<open>s @ [c + 1, d - 33] @ t\<close>, such as \<open>bA\<close> for \<open>ab\<close>, is
  authenticated with that password and the data base is not asked.\<close>

theorem app_cache_collision:
  assumes "app_inv c" and "app_roomy alloc c"
    and "0 \<notin> set s" and "unat c2 = unat c1 + 1" and "unat d1 = unat d2 + 33" and "c1 \<noteq> 0" and "d2 \<noteq> 0"
    and "hashStr (s @ c1 # d1 # t) \<noteq> 0"
  shows "s @ c2 # d2 # t \<noteq> s @ c1 # d1 # t
    \<and> (\<exists>c'. cache_putapp alloc (\<lambda>_. True) c (s @ c1 # d1 # t) (Some p) = Inr c'
          \<and> cache_getapp (\<lambda>_. True) c' (s @ c2 # d2 # t) = Inr (Some (Some p)))"
proof -
  obtain c' where c': "cache_putapp alloc (\<lambda>_. True) c (s @ c1 # d1 # t) (Some p) = Inr c'"
    using putapp_roomy [OF assms(1,2)] by blast
  have "hashStr (s @ c2 # d2 # t) = hashStr (s @ c1 # d1 # t)" by (rule hashStr_sibling) (use assms in auto)
  with apc.get_after_put [OF assms(1,2,8) c', of "s @ c2 # d2 # t"]
  have "cache_getapp (\<lambda>_. True) c' (s @ c2 # d2 # t) = Inr (Some (Some p))" by simp
  with c' assms(4) show ?thesis by auto
qed

lemma app_cache_collision_witness:
  "[] @ 98 # 65 # [] \<noteq> [] @ 97 # 98 # ([] :: byte list)
    \<and> (\<exists>c'. cache_putapp (\<lambda>_. True) (\<lambda>_. True) \<lparr>ap_elements = 0, ap_size = 2, ap_map = replicate 2 app2passwd_zero\<rparr>
            ([] @ 97 # 98 # []) (Some [1]) = Inr c'
          \<and> cache_getapp (\<lambda>_. True) c' ([] @ 98 # 65 # []) = Inr (Some (Some [1])))"
proof (rule app_cache_collision)
  show "app_inv \<lparr>ap_elements = 0, ap_size = 2, ap_map = replicate 2 app2passwd_zero\<rparr>"
    by (rule app_inv_init [of "\<lambda>_. True" 2]) (simp add: cache_initapp_def)
qed (simp_all add: app_roomy_def, code_simp)

end
