(* ===== verification/Silk_Chain.thy ===== *)
theory Silk_Chain
  imports Silk_Prelude
begin

section \<open>Singly linked lists in a store\<close>

text \<open>
  A pointer is \<open>nat option\<close>, None being NULL; \<open>nx\<close> gives the link field of each node.
  \<open>chain nx p es\<close> says that following the links from \<open>p\<close> visits \<open>es\<close> and ends in NULL,
  \<open>path nx p es q\<close> that it visits \<open>es\<close> and arrives at \<open>q\<close>.  The DNS table, the job queue
  and the URL queue are made of such lists.
\<close>

fun path :: "(nat \<Rightarrow> nat option) \<Rightarrow> nat option \<Rightarrow> nat list \<Rightarrow> nat option \<Rightarrow> bool" where
  "path nx p [] q \<longleftrightarrow> p = q"
| "path nx p (e # es) q \<longleftrightarrow> p = Some e \<and> path nx (nx e) es q"

definition chain :: "(nat \<Rightarrow> nat option) \<Rightarrow> nat option \<Rightarrow> nat list \<Rightarrow> bool" where
  "chain nx p es \<longleftrightarrow> path nx p es None"

lemma chain_Nil [simp]: "chain nx p [] \<longleftrightarrow> p = None"
  by (simp add: chain_def)

lemma chain_Cons [simp]: "chain nx p (e # es) \<longleftrightarrow> p = Some e \<and> chain nx (nx e) es"
  by (simp add: chain_def)

lemma path_append: "path nx p (es @ fs) q \<longleftrightarrow> (\<exists>r. path nx p es r \<and> path nx r fs q)"
  by (induction es arbitrary: p) auto

lemma chain_append: "chain nx p (es @ fs) \<longleftrightarrow> (\<exists>r. path nx p es r \<and> chain nx r fs)"
  by (simp add: chain_def path_append)

lemma path_upd [simp]: "e \<notin> set es \<Longrightarrow> path (nx(e := v)) p es q \<longleftrightarrow> path nx p es q"
  by (induction es arbitrary: p) auto

lemma chain_upd [simp]: "e \<notin> set es \<Longrightarrow> chain (nx(e := v)) p es \<longleftrightarrow> chain nx p es"
  by (simp add: chain_def)

lemma chain_cong: "(\<And>e. e \<in> set es \<Longrightarrow> nx e = nx' e) \<Longrightarrow> chain nx p es \<longleftrightarrow> chain nx' p es"
  by (induction es arbitrary: p) auto

lemma path_snoc: "path nx p (es @ [e]) q \<longleftrightarrow> path nx p es (Some e) \<and> nx e = q"
  by (auto simp: path_append)

lemma chain_unique: "chain nx p es \<Longrightarrow> chain nx p fs \<Longrightarrow> es = fs"
proof (induction es arbitrary: p fs)
  case Nil
  then show ?case by (cases fs) auto
next
  case (Cons e es)
  then show ?case by (cases fs) auto
qed

text \<open>The list as a function of the store: at most \<open>n\<close> links are followed.\<close>

fun follow :: "(nat \<Rightarrow> nat option) \<Rightarrow> nat \<Rightarrow> nat option \<Rightarrow> nat list" where
  "follow nx 0 p = []"
| "follow nx (Suc n) p = (case p of None \<Rightarrow> [] | Some e \<Rightarrow> e # follow nx n (nx e))"

lemma follow_chain: "chain nx p es \<Longrightarrow> length es \<le> n \<Longrightarrow> follow nx n p = es"
proof (induction es arbitrary: p n)
  case Nil
  then show ?case by (cases n) auto
next
  case (Cons e es)
  then show ?case by (cases n) auto
qed

text \<open>Taking a node out of a list: its predecessor's link skips it.\<close>

lemma chain_unlink_mid:
  assumes "chain nx p (ks @ [k] @ e # es)" and "k \<notin> set ks" and "k \<notin> set es"
  shows "chain (nx(k := nx e)) p (ks @ [k] @ es)"
  using assms by (auto simp: chain_append)

end
