(* ===== verification/Silk_Timed_Map.thy ===== *)
theory Silk_Timed_Map
  imports Silk_Prelude
begin

section \<open>The contract of a map whose entries expire\<close>

text \<open>
  What socks.c relies on in the DNS table.  Times are passed in; \<open>put\<close> reads the clock
  twice, at \<open>t1\<close> and then at \<open>t2\<close>.  \<open>lookup m k t\<close> is the value visible at time \<open>t\<close>.
  Every law speaks of times not before the operation: what has expired by then may have been
  removed by it.
\<close>

locale timed_map =
  fixes key_of :: "'a \<Rightarrow> 'k"
    and get :: "'m \<Rightarrow> 'a \<Rightarrow> int \<Rightarrow> c_fault + ('m \<times> 'v option)"
    and put :: "'m \<Rightarrow> 'a \<Rightarrow> 'v \<Rightarrow> int \<Rightarrow> int \<Rightarrow> int \<Rightarrow> c_fault + ('m \<times> nat)"
    and lookup :: "'m \<Rightarrow> 'k \<Rightarrow> int \<Rightarrow> 'v option"
    and inv :: "'m \<Rightarrow> bool"
    and fits :: "'v \<Rightarrow> bool"
  assumes get_law: "inv m \<Longrightarrow> \<exists>m'. get m a t = Inr (m', lookup m (key_of a) t) \<and> inv m'
        \<and> (\<forall>k t'. t \<le> t' \<longrightarrow> lookup m' k t' = lookup m k t')"
    and put_law: "inv m \<Longrightarrow> t1 \<le> t2 \<Longrightarrow> fits v \<Longrightarrow> \<exists>m' r. put m a v ex t1 t2 = Inr (m', r) \<and> inv m'
        \<and> (m' = m \<or> r = 1 \<and> (\<forall>k t'. t2 \<le> t' \<longrightarrow> lookup m' k t' =
              (if k = key_of a then if t' \<le> ex then Some v else None else lookup m k t')))"
begin

lemma get_total: "inv m \<Longrightarrow> \<exists>m' r. get m a t = Inr (m', r) \<and> inv m'"
  using get_law by blast

text \<open>Looking twice gives the same answer as long as time does not pass.\<close>

lemma get_again:
  assumes "inv m" and "get m a t = Inr (m', r)"
  shows "\<exists>m''. get m' a t = Inr (m'', r)"
  using get_law [OF assms(1), of a t] assms(2) get_law [of m' a t] by auto

lemma get_other_after_put:
  assumes "inv m" and "t1 \<le> t2" and "fits v" and "t2 \<le> t" and "key_of b \<noteq> key_of a"
    and "put m a v ex t1 t2 = Inr (m', r)" and "get m b t = Inr (m1, x)"
  shows "\<exists>m2. get m' b t = Inr (m2, x)"
proof -
  have "inv m'" and "lookup m' (key_of b) t = lookup m (key_of b) t"
    using put_law [OF assms(1-3), of a ex] assms(4-6) by auto
  then show ?thesis
    using get_law [OF assms(1), of b t] get_law [of m' b t] assms(7) by auto
qed

end

text \<open>A map that holds values of the right form only, so that what it returns has it too.\<close>

locale typed_map = timed_map +
  assumes lookup_fits: "inv m \<Longrightarrow> lookup m k t = Some v \<Longrightarrow> fits v"
begin

lemma get_fits: "inv m \<Longrightarrow> get m a t = Inr (m', Some v) \<Longrightarrow> inv m' \<and> fits v"
  using get_law [of m a t] lookup_fits by fastforce

end

end
