(* ===== verification/Silk_Hashtbl.thy ===== *)
theory Silk_Hashtbl
  imports Silk_Hash Silk_Chain Silk_Timed_Map "HOL-Library.Multiset"
begin

section \<open>The DNS table (hashtbl.c)\<close>

text \<open>
  A chained hash table with a fixed pool of entries, a free list and expiry times.  A pointer
  to a \<open>struct hash_entry\<close> is the index of the entry in the pool: index \<open>i\<close> is
  \<open>he_idx(i)\<close>, and \<open>entries\<close> itself is index 0, which is right for records of 4 bytes, the
  only ones the program creates a table for (\<open>he_idx_first\<close> below).
\<close>

record hash_entry =
  he_hash :: u64
  he_expires :: int
  he_next :: "nat option"
  he_value :: "byte list"

record hash_table =
  ht_size :: nat
  ht_record :: nat
  ht_table :: "nat option list"
  ht_entries :: "hash_entry list"
  ht_empty :: "nat option"

text \<open>
  The macro \<open>he_idx\<close>, as a byte offset from \<open>entries\<close>; \<open>sizeof(struct hash_entry)\<close> is 32,
  and the value starts 24 bytes into an entry.
\<close>

definition he_idx :: "nat \<Rightarrow> nat \<Rightarrow> nat" where
  "he_idx record_size i = i * 32 + record_size - 4"

lemma he_idx_first: "4 \<le> rs \<Longrightarrow> he_idx rs 0 = 0 \<longleftrightarrow> rs = 4"
  by (auto simp: he_idx_def)

definition he_zero :: hash_entry where
  "he_zero = \<lparr>he_hash = 0, he_expires = 0, he_next = None, he_value = replicate 4 0\<rparr>"

text \<open>
  \<open>hashtbl_init\<close> for 4 byte records: None is the return value -1.  With a size of 0 the bound
  \<open>size-1\<close> of the loop wraps around and the loop writes outside of the pool.
\<close>

definition hashtbl_init :: "(nat \<Rightarrow> bool) \<Rightarrow> nat \<Rightarrow> c_fault + hash_table option" where
  "hashtbl_init alloc sz =
     (if \<not> alloc (sz * 8) then Inr None
      else if \<not> alloc (sz * 32) then Inr None
      else if sz = 0 then Inl Buffer_Overflow
      else Inr (Some \<lparr>ht_size = sz, ht_record = 4, ht_table = replicate sz None,
                      ht_entries = map (\<lambda>i. he_zero\<lparr>he_next := if i < sz - 1 then Some (i + 1) else None\<rparr>)
                                     [0..<sz],
                      ht_empty = Some 0\<rparr>))"

text \<open>\<open>pphe\<close>, the address of a link: a slot of the table, or the \<open>next\<close> field of an entry.\<close>

datatype link = Slot nat | Next nat

fun ht_deref :: "hash_table \<Rightarrow> link \<Rightarrow> nat option" where
  "ht_deref h (Slot i) = ht_table h ! i"
| "ht_deref h (Next e) = he_next (ht_entries h ! e)"

definition ht_set_next :: "hash_table \<Rightarrow> nat \<Rightarrow> nat option \<Rightarrow> hash_table" where
  "ht_set_next h e p = h\<lparr>ht_entries := (ht_entries h)[e := (ht_entries h ! e)\<lparr>he_next := p\<rparr>]\<rparr>"

fun ht_assign :: "hash_table \<Rightarrow> link \<Rightarrow> nat option \<Rightarrow> hash_table" where
  "ht_assign h (Slot i) p = h\<lparr>ht_table := (ht_table h)[i := p]\<rparr>"
| "ht_assign h (Next e) p = ht_set_next h e p"

text \<open>The four assignments with which \<open>put\<close> and \<open>get\<close> give an entry back to the free list.\<close>

definition ht_release :: "hash_table \<Rightarrow> link \<Rightarrow> nat \<Rightarrow> hash_table" where
  "ht_release h pphe phe =
     (let h1 = ht_assign h pphe (he_next (ht_entries h ! phe));
          h2 = h1\<lparr>ht_entries := (ht_entries h1)[phe := (ht_entries h1 ! phe)\<lparr>he_expires := 0\<rparr>]\<rparr>;
          h3 = ht_set_next h2 phe (ht_empty h2)
      in h3\<lparr>ht_empty := Some phe\<rparr>)"

text \<open>The loops may run for ever on a damaged table, then they are None.\<close>

partial_function (option) ht_check_loop :: "hash_table \<Rightarrow> u64 \<Rightarrow> int \<Rightarrow> link \<Rightarrow> bool option" where
  "ht_check_loop h hash now pphe =
     (case ht_deref h pphe of
        None \<Rightarrow> Some False
      | Some phe \<Rightarrow>
          (if he_hash (ht_entries h ! phe) = hash \<and> he_expires (ht_entries h ! phe) > now
           then Some True
           else ht_check_loop h hash now (Next phe)))"

definition hashtbl_check :: "hash_table \<Rightarrow> byte list \<Rightarrow> int \<Rightarrow> bool option" where
  "hashtbl_check h key now =
     (let hash = hashStr key in ht_check_loop h hash now (Slot (unat hash mod ht_size h)))"

partial_function (option) ht_purge_loop :: "hash_table \<Rightarrow> u64 \<Rightarrow> int \<Rightarrow> link \<Rightarrow> hash_table option" where
  "ht_purge_loop h hash now pphe =
     (case ht_deref h pphe of
        None \<Rightarrow> Some h
      | Some phe \<Rightarrow>
          (if hash = he_hash (ht_entries h ! phe) \<or> he_expires (ht_entries h ! phe) < now
           then ht_purge_loop (ht_release h pphe phe) hash now pphe
           else ht_purge_loop h hash now (Next phe)))"

definition hashtbl_put ::
  "hash_table \<Rightarrow> byte list \<Rightarrow> byte list \<Rightarrow> int \<Rightarrow> int \<Rightarrow> int \<Rightarrow> c_fault + (hash_table \<times> nat)"
where
  "hashtbl_put h key val ex now1 now2 =
     (case ht_empty h of
        None \<Rightarrow> Inr (h, 0)
      | Some hentry \<Rightarrow>
          (case hashtbl_check h key now1 of
             None \<Rightarrow> Inl Hangs
           | Some True \<Rightarrow> Inr (h, 1)
           | Some False \<Rightarrow>
               (let hash = hashStr key;
                    idx = unat hash mod ht_size h;
                    h1 = h\<lparr>ht_empty := he_next (ht_entries h ! hentry)\<rparr>;
                    h2 = h1\<lparr>ht_entries := (ht_entries h1)
                              [hentry := \<lparr>he_hash = hash, he_expires = ex, he_next = None,
                                          he_value = take (ht_record h) val\<rparr>]\<rparr>
                in case ht_purge_loop h2 hash now2 (Slot idx) of
                     None \<Rightarrow> Inl Hangs
                   | Some h3 \<Rightarrow>
                       (let h4 = ht_set_next h3 hentry (ht_table h3 ! idx)
                        in Inr (h4\<lparr>ht_table := (ht_table h4)[idx := Some hentry]\<rparr>, 1)))))"

partial_function (option) ht_get_loop ::
  "hash_table \<Rightarrow> u64 \<Rightarrow> int \<Rightarrow> link \<Rightarrow> (hash_table \<times> byte list option) option"
where
  "ht_get_loop h hash now pphe =
     (case ht_deref h pphe of
        None \<Rightarrow> Some (h, None)
      | Some phe \<Rightarrow>
          (if he_expires (ht_entries h ! phe) < now
           then ht_get_loop (ht_release h pphe phe) hash now pphe
           else if he_hash (ht_entries h ! phe) = hash
           then Some (h, Some (take (ht_record h) (he_value (ht_entries h ! phe))))
           else ht_get_loop h hash now (Next phe)))"

definition hashtbl_get ::
  "hash_table \<Rightarrow> byte list \<Rightarrow> int \<Rightarrow> c_fault + (hash_table \<times> byte list option)"
where
  "hashtbl_get h key now =
     (let hash = hashStr key in
      case ht_get_loop h hash now (Slot (unat hash mod ht_size h)) of
        None \<Rightarrow> Inl Hangs
      | Some r \<Rightarrow> Inr r)"

subsection \<open>One chain while a loop walks over it\<close>

abbreviation nx :: "hash_table \<Rightarrow> nat \<Rightarrow> nat option" where
  "nx h \<equiv> \<lambda>e. he_next (ht_entries h ! e)"

text \<open>
  The chain of slot \<open>i\<close> is \<open>ks @ es\<close>, the loop has passed \<open>ks\<close>, and \<open>fs\<close> is the free list.
\<close>

definition seg :: "hash_table \<Rightarrow> nat \<Rightarrow> nat list \<Rightarrow> nat list \<Rightarrow> nat list \<Rightarrow> bool" where
  "seg h i ks es fs \<longleftrightarrow>
     chain (nx h) (ht_table h ! i) (ks @ es) \<and> chain (nx h) (ht_empty h) fs
     \<and> distinct (ks @ es @ fs) \<and> set (ks @ es @ fs) \<subseteq> {..<length (ht_entries h)}
     \<and> i < length (ht_table h)"

definition link_at :: "nat list \<Rightarrow> nat \<Rightarrow> link" where
  "link_at ks i = (if ks = [] then Slot i else Next (last ks))"

lemma link_at_Nil [simp]: "link_at [] i = Slot i"
  and link_at_snoc [simp]: "link_at (ks @ [e]) i = Next e"
  by (simp_all add: link_at_def)

lemma seg_shift: "seg h i ks (e # es) fs = seg h i (ks @ [e]) es fs"
  by (simp add: seg_def)

lemma deref_link_at:
  assumes "seg h i ks es fs"
  shows "ht_deref h (link_at ks i) = (case es of [] \<Rightarrow> None | e # _ \<Rightarrow> Some e)"
proof (cases ks rule: rev_cases)
  case Nil
  with assms show ?thesis by (cases es) (auto simp: seg_def)
next
  case (snoc ks' k)
  with assms have "chain (nx h) (nx h k) es" by (auto simp: seg_def chain_append)
  with snoc show ?thesis by (cases es) auto
qed

text \<open>
  What a loop over slot \<open>i\<close> leaves alone: everything but the entries \<open>S\<close> and that slot, and
  the contents of every entry it does not free (\<open>D\<close>).
\<close>

definition frame :: "hash_table \<Rightarrow> hash_table \<Rightarrow> nat \<Rightarrow> nat set \<Rightarrow> nat set \<Rightarrow> bool" where
  "frame h h' i S D \<longleftrightarrow>
     ht_size h' = ht_size h \<and> ht_record h' = ht_record h
     \<and> length (ht_entries h') = length (ht_entries h) \<and> length (ht_table h') = length (ht_table h)
     \<and> (\<forall>j. j \<noteq> i \<longrightarrow> ht_table h' ! j = ht_table h ! j)
     \<and> (\<forall>x. x \<notin> S \<longrightarrow> ht_entries h' ! x = ht_entries h ! x)
     \<and> (\<forall>x. x \<notin> D \<longrightarrow> he_hash (ht_entries h' ! x) = he_hash (ht_entries h ! x)
          \<and> he_expires (ht_entries h' ! x) = he_expires (ht_entries h ! x)
          \<and> he_value (ht_entries h' ! x) = he_value (ht_entries h ! x))"

lemma frame_refl [simp]: "frame h h i S D"
  by (simp add: frame_def)

lemma frame_trans:
  "frame h h1 i S D \<Longrightarrow> frame h1 h2 i S' D' \<Longrightarrow> S \<subseteq> T \<Longrightarrow> S' \<subseteq> T \<Longrightarrow> D \<subseteq> E \<Longrightarrow> D' \<subseteq> E \<Longrightarrow>
   frame h h2 i T E"
  unfolding frame_def by (intro conjI allI impI) (auto 4 3)

text \<open>Releasing the entry under the loop's link takes it out of the chain and frees it.\<close>

lemma release_nx:
  assumes "phe < length (ht_entries h)" and "l \<noteq> Next phe"
  shows "nx (ht_release h l phe) =
    (case l of Slot i \<Rightarrow> (nx h)(phe := ht_empty h)
     | Next k \<Rightarrow> if k < length (ht_entries h) then (nx h)(k := nx h phe, phe := ht_empty h)
               else (nx h)(phe := ht_empty h))"
  using assms
  by (auto simp: ht_release_def ht_set_next_def Let_def fun_eq_iff nth_list_update
      list_update_beyond split: link.split)

lemma release_seg:
  assumes "seg h i ks (e # es) fs"
  shows "seg (ht_release h (link_at ks i) e) i ks es (e # fs)"
    and "frame h (ht_release h (link_at ks i) e) i (set ks \<union> {e}) {e}"
proof -
  have e: "e < length (ht_entries h)" and enotin: "e \<notin> set ks" "e \<notin> set es" "e \<notin> set fs"
    and ch: "chain (nx h) (ht_table h ! i) (ks @ e # es)" and fch: "chain (nx h) (ht_empty h) fs"
    and dist: "distinct (ks @ e # es @ fs)" and sub: "set (ks @ e # es @ fs) \<subseteq> {..<length (ht_entries h)}"
    and i: "i < length (ht_table h)"
    using assms by (auto simp: seg_def)
  let ?h = "ht_release h (link_at ks i) e"
  have empty: "ht_empty ?h = Some e" and len: "length (ht_entries ?h) = length (ht_entries h)"
      "length (ht_table ?h) = length (ht_table h)"
    by (cases "link_at ks i"; simp add: ht_release_def ht_set_next_def Let_def)+
  have "chain (nx ?h) (ht_table ?h ! i) (ks @ es) \<and> chain (nx ?h) (nx ?h e) fs"
  proof (cases ks rule: rev_cases)
    case Nil
    have nx: "nx ?h = (nx h)(e := ht_empty h)" using release_nx [OF e, of "Slot i"] Nil by simp
    have tab: "ht_table ?h ! i = nx h e"
      using Nil i by (simp add: ht_release_def ht_set_next_def Let_def)
    have "nx ?h e = ht_empty h" using fun_cong [OF nx, of e] by simp
    then show ?thesis unfolding nx tab using Nil ch fch enotin by simp
  next
    case (snoc ks' k)
    have k: "k < length (ht_entries h)" "k \<noteq> e" using sub enotin snoc by auto
    have nx: "nx ?h = (nx h)(k := nx h e, e := ht_empty h)"
      using release_nx [OF e, of "Next k"] snoc k by simp
    have tab: "ht_table ?h ! i = ht_table h ! i"
      using snoc by (simp add: ht_release_def ht_set_next_def Let_def)
    have "chain ((nx h)(k := nx h e)) (ht_table h ! i) (ks' @ [k] @ es)"
      using chain_unlink_mid [of "nx h" "ht_table h ! i" ks' k e es] ch dist snoc by simp
    moreover have "nx ?h e = ht_empty h" using fun_cong [OF nx, of e] by simp
    ultimately show ?thesis
      unfolding nx tab using snoc enotin fch dist by simp
  qed
  then show "seg ?h i ks es (e # fs)"
    using dist sub i by (auto simp: seg_def empty len)
  show "frame h ?h i (set ks \<union> {e}) {e}"
  proof (cases ks rule: rev_cases)
    case Nil
    then show ?thesis by (simp add: frame_def ht_release_def ht_set_next_def Let_def nth_list_update_neq)
  next
    case (snoc ks' k)
    then have "k \<noteq> e" "k < length (ht_entries h)" using enotin sub by auto
    with snoc e show ?thesis
      by (auto simp: frame_def ht_release_def ht_set_next_def Let_def nth_list_update list_update_beyond)
  qed
qed

subsection \<open>The loops\<close>

lemma check_loop_spec:
  assumes "chain (nx h) (ht_deref h l) es"
  shows "ht_check_loop h hash now l =
    Some (\<exists>e \<in> set es. he_hash (ht_entries h ! e) = hash \<and> he_expires (ht_entries h ! e) > now)"
  using assms
proof (induction es arbitrary: l)
  case Nil
  then show ?case by (simp add: ht_check_loop.simps)
next
  case (Cons e es)
  then have "ht_deref h l = Some e" by simp
  with Cons show ?case by (auto simp: ht_check_loop.simps [of h hash now l])
qed

definition purged :: "hash_table \<Rightarrow> u64 \<Rightarrow> int \<Rightarrow> nat \<Rightarrow> bool" where
  "purged h hash now e \<longleftrightarrow> hash = he_hash (ht_entries h ! e) \<or> he_expires (ht_entries h ! e) < now"

lemma purged_frame: "frame h h' i S D \<Longrightarrow> e \<notin> D \<Longrightarrow> purged h' hash now e = purged h hash now e"
  by (simp add: frame_def purged_def)

lemma purge_loop_spec:
  assumes "seg h i ks es fs"
  shows "\<exists>h'. ht_purge_loop h hash now (link_at ks i) = Some h'
     \<and> seg h' i (ks @ filter (\<lambda>e. \<not> purged h hash now e) es) []
             (rev (filter (purged h hash now) es) @ fs)
     \<and> frame h h' i (set ks \<union> set es) (set (filter (purged h hash now) es))"
  using assms
proof (induction es arbitrary: h ks fs)
  case Nil
  then show ?case using deref_link_at [OF Nil] by (simp add: ht_purge_loop.simps)
next
  case (Cons e es)
  let ?l = "link_at ks i"
  have d: "ht_deref h ?l = Some e" using deref_link_at [OF Cons.prems] by simp
  have ne: "e \<notin> set es" using Cons.prems by (auto simp: seg_def)
  show ?case
  proof (cases "purged h hash now e")
    case True
    let ?h = "ht_release h ?l e"
    note rel = release_seg [OF Cons.prems]
    have cong: "purged ?h hash now x = purged h hash now x" if "x \<in> set es" for x
      using that ne purged_frame [OF rel(2), where e = x] by auto
    have same: "filter (purged ?h hash now) es = filter (purged h hash now) es"
        "filter (\<lambda>e. \<not> purged ?h hash now e) es = filter (\<lambda>e. \<not> purged h hash now e) es"
      using cong by (auto intro!: filter_cong)
    obtain h' where h': "ht_purge_loop ?h hash now ?l = Some h'"
        "seg h' i (ks @ filter (\<lambda>e. \<not> purged h hash now e) es) []
             (rev (filter (purged h hash now) es) @ e # fs)"
        "frame ?h h' i (set ks \<union> set es) (set (filter (purged h hash now) es))"
      using Cons.IH [OF rel(1)] unfolding same by blast
    have "frame h h' i (set ks \<union> set (e # es)) (set (filter (purged h hash now) (e # es)))"
      using True by (intro frame_trans [OF rel(2) h'(3)]) auto
    moreover have "ht_purge_loop h hash now ?l = ht_purge_loop ?h hash now ?l"
      using True d by (simp add: ht_purge_loop.simps [of h hash now ?l] purged_def [of h hash now e])
    ultimately show ?thesis using True h'(1,2) by simp
  next
    case False
    have l: "link_at (ks @ [e]) i = Next e" by simp
    have "ht_purge_loop h hash now ?l = ht_purge_loop h hash now (Next e)"
      using False d by (simp add: ht_purge_loop.simps [of h hash now ?l] purged_def [of h hash now e])
    with Cons.IH [OF Cons.prems [unfolded seg_shift]] False show ?thesis
      unfolding l by simp
  qed
qed

text \<open>The entry a get at time \<open>now\<close> stops at, and the ones it frees on the way.\<close>

definition hit :: "hash_table \<Rightarrow> u64 \<Rightarrow> int \<Rightarrow> nat \<Rightarrow> bool" where
  "hit h hash now e \<longleftrightarrow> he_hash (ht_entries h ! e) = hash \<and> \<not> he_expires (ht_entries h ! e) < now"

definition dead :: "hash_table \<Rightarrow> int \<Rightarrow> nat \<Rightarrow> bool" where
  "dead h now e \<longleftrightarrow> he_expires (ht_entries h ! e) < now"

lemma hit_dead_frame:
  "frame h h' i S D \<Longrightarrow> e \<notin> D \<Longrightarrow> hit h' hash now e = hit h hash now e"
  "frame h h' i S D \<Longrightarrow> e \<notin> D \<Longrightarrow> dead h' now e = dead h now e"
  by (simp_all add: frame_def hit_def dead_def)

fun get_kept :: "(nat \<Rightarrow> bool) \<Rightarrow> (nat \<Rightarrow> bool) \<Rightarrow> nat list \<Rightarrow> nat list" where
  "get_kept dd ht [] = []"
| "get_kept dd ht (e # es) =
     (if dd e then get_kept dd ht es else if ht e then e # es else e # get_kept dd ht es)"

fun get_freed :: "(nat \<Rightarrow> bool) \<Rightarrow> (nat \<Rightarrow> bool) \<Rightarrow> nat list \<Rightarrow> nat list" where
  "get_freed dd ht [] = []"
| "get_freed dd ht (e # es) =
     (if dd e then e # get_freed dd ht es else if ht e then [] else get_freed dd ht es)"

lemma get_kept_cong:
  "(\<And>e. e \<in> set es \<Longrightarrow> dd e = dd' e \<and> ht e = ht' e) \<Longrightarrow>
   get_kept dd ht es = get_kept dd' ht' es \<and> get_freed dd ht es = get_freed dd' ht' es"
  by (induction es) auto

lemma mset_kept_freed: "mset (get_kept dd ht es) + mset (get_freed dd ht es) = mset es"
  by (induction es) auto

lemma set_freed: "e \<in> set (get_freed dd ht es) \<Longrightarrow> e \<in> set es \<and> dd e"
  by (induction es) (auto split: if_splits)

lemma find_kept: "(\<And>e. P e \<Longrightarrow> \<not> dd e) \<Longrightarrow> find P (get_kept dd ht es) = find P es"
  by (induction es) auto

lemma get_loop_spec:
  assumes "seg h i ks es fs"
  shows "\<exists>h'. ht_get_loop h hash now (link_at ks i) =
        Some (h', map_option (\<lambda>e. take (ht_record h) (he_value (ht_entries h ! e))) (find (hit h hash now) es))
     \<and> seg h' i [] (ks @ get_kept (dead h now) (hit h hash now) es)
             (rev (get_freed (dead h now) (hit h hash now) es) @ fs)
     \<and> frame h h' i (set ks \<union> set es) (set (get_freed (dead h now) (hit h hash now) es))"
  using assms
proof (induction es arbitrary: h ks fs)
  case Nil
  then show ?case using deref_link_at [OF Nil] by (simp add: ht_get_loop.simps seg_def)
next
  case (Cons e es)
  let ?l = "link_at ks i"
  have d: "ht_deref h ?l = Some e" using deref_link_at [OF Cons.prems] by simp
  have ne: "e \<notin> set es" using Cons.prems by (auto simp: seg_def)
  show ?case
  proof (cases "dead h now e")
    case True
    let ?h = "ht_release h ?l e"
    note rel = release_seg [OF Cons.prems]
    have cong: "dead ?h now x = dead h now x \<and> hit ?h hash now x = hit h hash now x" if "x \<in> set es" for x
      using that ne hit_dead_frame [OF rel(2), where e = x] by auto
    have same: "get_kept (dead ?h now) (hit ?h hash now) es = get_kept (dead h now) (hit h hash now) es"
        "get_freed (dead ?h now) (hit ?h hash now) es = get_freed (dead h now) (hit h hash now) es"
      using get_kept_cong [of es] cong by blast+
    have val: "map_option (\<lambda>e. take (ht_record ?h) (he_value (ht_entries ?h ! e))) (find (hit ?h hash now) es)
        = map_option (\<lambda>e. take (ht_record h) (he_value (ht_entries h ! e))) (find (hit h hash now) es)"
    proof -
      have "find (hit ?h hash now) es = find (hit h hash now) es" using cong by (intro find_cong) auto
      moreover have "ht_record ?h = ht_record h" "\<And>x. x \<in> set es \<Longrightarrow> he_value (ht_entries ?h ! x) = he_value (ht_entries h ! x)"
        using rel(2) ne by (auto simp: frame_def)
      ultimately show ?thesis by (auto simp: find_Some_iff intro!: map_option_cong)
    qed
    obtain h' where h': "ht_get_loop ?h hash now ?l =
          Some (h', map_option (\<lambda>e. take (ht_record h) (he_value (ht_entries h ! e))) (find (hit h hash now) es))"
        "seg h' i [] (ks @ get_kept (dead h now) (hit h hash now) es)
             (rev (get_freed (dead h now) (hit h hash now) es) @ e # fs)"
        "frame ?h h' i (set ks \<union> set es) (set (get_freed (dead h now) (hit h hash now) es))"
      using Cons.IH [OF rel(1)] unfolding same val by blast
    have "frame h h' i (set ks \<union> set (e # es)) (set (get_freed (dead h now) (hit h hash now) (e # es)))"
      using True by (intro frame_trans [OF rel(2) h'(3)]) auto
    moreover have "ht_get_loop h hash now ?l = ht_get_loop ?h hash now ?l" "\<not> hit h hash now e"
      using True d
      by (simp_all add: ht_get_loop.simps [of h hash now ?l] dead_def [of h now e] hit_def [of h hash now e])
    ultimately show ?thesis using True h'(1,2) by simp
  next
    case False
    have l: "link_at (ks @ [e]) i = Next e" by simp
    show ?thesis
    proof (cases "hit h hash now e")
      case True
      with False d have "ht_get_loop h hash now ?l =
          Some (h, Some (take (ht_record h) (he_value (ht_entries h ! e))))"
        by (simp add: ht_get_loop.simps [of h hash now ?l] dead_def [of h now e] hit_def [of h hash now e])
      with True False Cons.prems show ?thesis by (simp add: seg_def)
    next
      case nohit: False
      have "ht_get_loop h hash now ?l = ht_get_loop h hash now (Next e)"
        using False nohit d
        by (simp add: ht_get_loop.simps [of h hash now ?l] dead_def [of h now e] hit_def [of h hash now e])
      with Cons.IH [OF Cons.prems [unfolded seg_shift]] False nohit show ?thesis
        unfolding l by simp
    qed
  qed
qed

subsection \<open>Well-formed tables\<close>

text \<open>
  \<open>cs\<close> are the chains of the slots and \<open>fs\<close> is the free list: every entry of the pool is in
  exactly one of them, each entry hangs in the slot its hash belongs to, and no chain holds
  two entries with the same hash.
\<close>

definition placed :: "hash_table \<Rightarrow> nat \<Rightarrow> nat list \<Rightarrow> bool" where
  "placed h i c \<longleftrightarrow>
     (\<forall>e \<in> set c. unat (he_hash (ht_entries h ! e)) mod ht_size h = i)
     \<and> distinct (map (\<lambda>e. he_hash (ht_entries h ! e)) c)"

definition ht_rep :: "hash_table \<Rightarrow> nat list list \<Rightarrow> nat list \<Rightarrow> bool" where
  "ht_rep h cs fs \<longleftrightarrow>
     0 < ht_size h \<and> ht_record h = 4 \<and> length (ht_table h) = ht_size h
     \<and> length (ht_entries h) = ht_size h \<and> length cs = ht_size h
     \<and> (\<forall>i < ht_size h. chain (nx h) (ht_table h ! i) (cs ! i) \<and> placed h i (cs ! i))
     \<and> chain (nx h) (ht_empty h) fs
     \<and> mset (concat cs @ fs) = mset [0..<ht_size h]"

definition ht_chains :: "hash_table \<Rightarrow> nat list list" where
  "ht_chains h = map (\<lambda>i. follow (nx h) (ht_size h) (ht_table h ! i)) [0..<ht_size h]"

definition ht_free :: "hash_table \<Rightarrow> nat list" where
  "ht_free h = follow (nx h) (ht_size h) (ht_empty h)"

definition ht_wf :: "hash_table \<Rightarrow> bool" where
  "ht_wf h \<longleftrightarrow> ht_rep h (ht_chains h) (ht_free h)"

text \<open>The value a reader sees at time \<open>now\<close> for a hash.\<close>

definition ht_lookup :: "hash_table \<Rightarrow> u64 \<Rightarrow> int \<Rightarrow> byte list option" where
  "ht_lookup h hash now =
     map_option (\<lambda>e. take (ht_record h) (he_value (ht_entries h ! e)))
       (find (hit h hash now) (ht_chains h ! (unat hash mod ht_size h)))"

lemma mset_concat_update:
  "i < length cs \<Longrightarrow> mset (concat (cs[i := c])) + mset (cs ! i) = mset (concat cs) + mset c"
proof (induction cs arbitrary: i)
  case (Cons c0 cs)
  then show ?case
  proof (cases i)
    case (Suc j)
    then have "mset (concat (cs[j := c])) + mset (cs ! j) = mset (concat cs) + mset c"
      using Cons by simp
    with Suc show ?thesis by (simp add: ac_simps)
  qed (simp add: ac_simps)
qed simp

lemma nth_subset_concat: "i < length cs \<Longrightarrow> set (cs ! i) \<subseteq> set (concat cs)"
  using nth_mem [of i cs] by (simp only: set_concat) blast

lemma rep_facts:
  assumes "ht_rep h cs fs"
  shows "distinct (concat cs @ fs)" and "set (concat cs @ fs) = {..<ht_size h}"
    and "i < ht_size h \<Longrightarrow> length (cs ! i) \<le> ht_size h" and "length fs \<le> ht_size h"
    and "i < ht_size h \<Longrightarrow> distinct (cs ! i @ fs)"
    and "i < ht_size h \<Longrightarrow> j < ht_size h \<Longrightarrow> i \<noteq> j \<Longrightarrow> set (cs ! i) \<inter> set (cs ! j) = {}"
proof -
  have m: "mset (concat cs @ fs) = mset [0..<ht_size h]" and len: "length cs = ht_size h"
    using assms by (auto simp: ht_rep_def)
  show d: "distinct (concat cs @ fs)" using mset_eq_imp_distinct_iff [OF m] by simp
  show "set (concat cs @ fs) = {..<ht_size h}" using mset_eq_setD [OF m] by (simp add: lessThan_atLeast0)
  have l: "length (concat cs @ fs) = ht_size h" using mset_eq_length [OF m] by simp
  show "length fs \<le> ht_size h" using l by simp
  show "length (cs ! i) \<le> ht_size h" if "i < ht_size h"
  proof -
    have "length (cs ! i) \<le> sum_list (map length cs)"
      using that len by (intro member_le_sum_list) auto
    then show ?thesis using l by (simp add: length_concat)
  qed
  show "distinct (cs ! i @ fs)" if "i < ht_size h"
  proof -
    have mem: "cs ! i \<in> set cs" using that len by simp
    with d have "distinct (cs ! i)" unfolding distinct_append distinct_concat_iff by blast
    with d nth_subset_concat [of i cs] that len show ?thesis by auto
  qed
  show "set (cs ! i) \<inter> set (cs ! j) = {}" if "i < ht_size h" "j < ht_size h" "i \<noteq> j"
  proof (rule ccontr)
    assume "set (cs ! i) \<inter> set (cs ! j) \<noteq> {}"
    then obtain x where x: "x \<in> set (cs ! i)" "x \<in> set (cs ! j)" by blast
    have "count (mset (concat cs)) x \<le> 1"
      using d distinct_count_atmost_1 [of "concat cs"] by (simp split: if_splits)
    moreover have "count (mset (concat cs)) x
        = count (mset (concat (cs[i := []]))) x + count (mset (cs ! i)) x"
      using arg_cong [OF mset_concat_update [of i cs "[]"], of "\<lambda>m. count m x"] that len by simp
    moreover have "x \<in> set (concat (cs[i := []]))"
      using nth_subset_concat [of j "cs[i := []]"] x(2) that len by auto
    then have "0 < count (mset (concat (cs[i := []]))) x" by simp
    moreover have "0 < count (mset (cs ! i)) x" using x(1) by simp
    ultimately show False by linarith
  qed
qed

lemma rep_unique: "ht_rep h cs fs \<Longrightarrow> ht_chains h = cs \<and> ht_free h = fs"
proof
  assume r: "ht_rep h cs fs"
  show "ht_chains h = cs"
  proof (rule nth_equalityI)
    show "length (ht_chains h) = length cs" using r by (simp add: ht_chains_def ht_rep_def)
  next
    fix i
    assume "i < length (ht_chains h)"
    then have i: "i < ht_size h" by (simp add: ht_chains_def)
    then show "ht_chains h ! i = cs ! i"
      using r rep_facts(3) [OF r] by (simp add: ht_chains_def ht_rep_def follow_chain)
  qed
  show "ht_free h = fs"
    using r rep_facts(4) [OF r] by (simp add: ht_free_def ht_rep_def follow_chain)
qed

lemma rep_wf: "ht_rep h cs fs \<Longrightarrow> ht_wf h"
  using rep_unique [of h cs fs] by (simp add: ht_wf_def)

lemma rep_seg:
  assumes "ht_rep h cs fs" and "i < ht_size h"
  shows "seg h i [] (cs ! i) fs"
proof -
  have "set (cs ! i) \<subseteq> set (concat cs @ fs)"
    using assms nth_subset_concat [of i cs] by (auto simp: ht_rep_def)
  then show ?thesis
    using assms rep_facts(5) [OF assms] rep_facts(2) [OF assms(1)] by (auto simp: seg_def ht_rep_def)
qed

text \<open>Putting one rewritten chain back.\<close>

lemma rep_update:
  assumes r: "ht_rep h cs fs" and i: "i < ht_size h" and f: "frame h h' i S D"
    and S: "S \<subseteq> set (cs ! i) \<union> set fs" and D: "D \<subseteq> set (cs ! i) \<union> set fs"
    and sg: "seg h' i [] c fs'" and m: "mset c + mset fs' = mset (cs ! i) + mset fs"
    and pl: "placed h' i c"
  shows "ht_rep h' (cs[i := c]) fs'"
proof -
  have sz: "ht_size h' = ht_size h" "ht_record h' = ht_record h"
      "length (ht_table h') = length (ht_table h)" "length (ht_entries h') = length (ht_entries h)"
    using f by (auto simp: frame_def)
  have len: "length cs = ht_size h" using r by (simp add: ht_rep_def)
  have other: "chain (nx h') (ht_table h' ! j) (cs ! j) \<and> placed h' j (cs ! j)"
    if j: "j < ht_size h" "j \<noteq> i" for j
  proof -
    have out: "x \<notin> S \<and> x \<notin> D" if x: "x \<in> set (cs ! j)" for x
    proof -
      have "x \<notin> set (cs ! i)" using rep_facts(6) [OF r i j(1)] x j(2) by blast
      moreover have "x \<notin> set fs" using rep_facts(5) [OF r j(1)] x by auto
      ultimately show ?thesis using S D by blast
    qed
    have "chain (nx h) (ht_table h ! j) (cs ! j)" "placed h j (cs ! j)"
      using r j by (auto simp: ht_rep_def)
    moreover have "nx h' x = nx h x \<and> he_hash (ht_entries h' ! x) = he_hash (ht_entries h ! x)"
      if "x \<in> set (cs ! j)" for x using out [OF that] f by (simp add: frame_def)
    moreover have "ht_table h' ! j = ht_table h ! j" using f j by (simp add: frame_def)
    ultimately show ?thesis
      using chain_cong [of "cs ! j" "nx h'" "nx h"]
      by (auto simp: placed_def sz distinct_map inj_on_def)
  qed
  have "mset (concat (cs[i := c]) @ fs') = mset (concat cs @ fs)"
  proof -
    have "mset (concat (cs[i := c])) + mset fs' + mset (cs ! i)
        = mset (concat cs) + (mset c + mset fs')"
      using mset_concat_update [of i cs c] i len by (simp add: ac_simps)
    also have "\<dots> = mset (concat cs) + mset fs + mset (cs ! i)"
      unfolding m by (simp add: ac_simps)
    finally show ?thesis by simp
  qed
  then have "mset (concat (cs[i := c]) @ fs') = mset [0..<ht_size h]"
    using r by (simp add: ht_rep_def)
  moreover have "\<forall>j < ht_size h. chain (nx h') (ht_table h' ! j) (cs[i := c] ! j) \<and> placed h' j (cs[i := c] ! j)"
    using other sg pl len i by (auto simp: seg_def nth_list_update)
  ultimately show ?thesis
    using r sg by (simp add: ht_rep_def seg_def sz)
qed

text \<open>A lookup in a slot the operation did not touch.\<close>

lemma lookup_other:
  assumes r: "ht_rep h cs fs" and r': "ht_rep h' (cs[i := c]) fs'" and f: "frame h h' i S D"
    and D: "D \<subseteq> set (cs ! i) \<union> set fs" and i: "i < ht_size h" and ne: "unat k mod ht_size h \<noteq> i"
  shows "ht_lookup h' k t = ht_lookup h k t"
proof -
  let ?j = "unat k mod ht_size h"
  have j: "?j < ht_size h" using i by (intro mod_less_divisor) linarith
  have sz: "ht_size h' = ht_size h" "ht_record h' = ht_record h" using f by (auto simp: frame_def)
  have out: "x \<notin> D" if x: "x \<in> set (cs ! ?j)" for x
    using rep_facts(6) [OF r i j] rep_facts(5) [OF r j] x ne D by auto
  have "find (hit h' k t) (cs ! ?j) = find (hit h k t) (cs ! ?j)"
    using out hit_dead_frame(1) [OF f] by (intro find_cong) auto
  moreover have "he_value (ht_entries h' ! x) = he_value (ht_entries h ! x)"
    if "find (hit h k t) (cs ! ?j) = Some x" for x
    using that out f by (auto simp: find_Some_iff frame_def)
  ultimately show ?thesis
    using rep_unique [OF r] rep_unique [OF r'] ne
    by (auto simp: ht_lookup_def sz intro!: map_option_cong)
qed

subsection \<open>Creating a table\<close>

lemma chain_upto:
  "a < n \<Longrightarrow> chain (\<lambda>i. if i < n - 1 then Some (i + 1) else None) (Some a) [a..<n]"
proof (induction "n - a" arbitrary: a)
  case (Suc d)
  show ?case
  proof (cases "Suc a < n")
    case True
    then show ?thesis using Suc.hyps(1) [of "Suc a"] Suc.hyps(2) by (simp add: upt_conv_Cons)
  next
    case False
    with Suc.prems have "n = Suc a" by simp
    then show ?thesis by simp
  qed
qed simp

lemma distinct_map_part:
  assumes "mset xs + mset ys = mset zs" and "distinct (map f zs)"
  shows "distinct (map f xs)"
proof -
  have "mset (map f (xs @ ys)) = mset (map f zs)"
    using arg_cong [OF assms(1), of "image_mset f"] by simp
  from mset_eq_imp_distinct_iff [OF this] assms(2) show ?thesis by simp
qed

lemma init_rep:
  assumes "hashtbl_init alloc n = Inr (Some h)"
  shows "ht_rep h (replicate n []) [0..<n]" and "ht_lookup h k t = None"
proof -
  have n: "0 < n" and h: "ht_size h = n" "ht_record h = 4" "ht_table h = replicate n None"
      "ht_entries h = map (\<lambda>i. he_zero\<lparr>he_next := if i < n - 1 then Some (i + 1) else None\<rparr>) [0..<n]"
      "ht_empty h = Some 0"
    using assms by (auto simp: hashtbl_init_def split: if_splits)
  have "chain (\<lambda>i. if i < n - 1 then Some (i + 1) else None) (Some 0) [0..<n]"
    using n by (rule chain_upto)
  then have "chain (nx h) (ht_empty h) [0..<n]"
    unfolding h by (subst (asm) chain_cong [where nx' = "nx h"]) (auto simp: h)
  then show rep: "ht_rep h (replicate n []) [0..<n]"
    using n by (simp add: ht_rep_def h placed_def concat_replicate_trivial)
  have "unat k mod n < n" using n by simp
  with rep_unique [OF rep] show "ht_lookup h k t = None"
    by (simp add: ht_lookup_def h)
qed

subsection \<open>The laws of get and put\<close>

lemma get_rep:
  assumes r: "ht_rep h cs fs" and i: "i = unat (hashStr a) mod ht_size h"
  shows "\<exists>h' cs' fs'. hashtbl_get h a t = Inr (h', ht_lookup h (hashStr a) t) \<and> ht_rep h' cs' fs'
     \<and> length fs \<le> length fs'
     \<and> (\<forall>k t'. t \<le> t' \<longrightarrow> ht_lookup h' k t' = ht_lookup h k t')"
proof -
  let ?k = "hashStr a" and ?c = "cs ! i"
  let ?kept = "get_kept (dead h t) (hit h ?k t) ?c" and ?freed = "get_freed (dead h t) (hit h ?k t) ?c"
  have pos: "0 < ht_size h" and rs: "ht_record h = 4" using r by (auto simp: ht_rep_def)
  have il: "i < ht_size h" using pos i by simp
  have uniq: "ht_chains h = cs" using rep_unique [OF r] by simp
  obtain h' where h': "ht_get_loop h ?k t (Slot i) = Some (h', ht_lookup h ?k t)"
      "seg h' i [] ?kept (rev ?freed @ fs)" "frame h h' i (set ?c) (set ?freed)"
    using get_loop_spec [OF rep_seg [OF r il], of ?k t] uniq i by (auto simp: ht_lookup_def)
  have sub: "set ?freed \<subseteq> set ?c \<union> set fs" "set ?kept \<subseteq> set ?c"
    using mset_eq_setD [of "?kept @ ?freed" ?c] mset_kept_freed [of "dead h t" "hit h ?k t" ?c] by auto
  have dis: "x \<notin> set ?freed" if "x \<in> set ?kept" for x
    using h'(2) that by (auto simp: seg_def)
  have data: "he_hash (ht_entries h' ! x) = he_hash (ht_entries h ! x)"
      "he_expires (ht_entries h' ! x) = he_expires (ht_entries h ! x)"
      "he_value (ht_entries h' ! x) = he_value (ht_entries h ! x)" if "x \<in> set ?kept" for x
    using dis [OF that] h'(3) by (auto simp: frame_def)
  have sz: "ht_size h' = ht_size h" "ht_record h' = ht_record h" using h'(3) by (auto simp: frame_def)
  have pl: "placed h i ?c" using r il by (simp add: ht_rep_def)
  have "distinct (map (\<lambda>e. he_hash (ht_entries h ! e)) ?kept)"
    using pl unfolding placed_def by (elim conjE) (rule distinct_map_part [OF mset_kept_freed])
  then have pl': "placed h' i ?kept"
    using pl sub(2) data by (auto simp: placed_def sz distinct_map inj_on_def)
  have r': "ht_rep h' (cs[i := ?kept]) (rev ?freed @ fs)"
    using mset_kept_freed [of "dead h t" "hit h ?k t" ?c]
    by (intro rep_update [OF r il h'(3) _ sub(1) h'(2) _ pl']) (auto simp: ac_simps)
  have "ht_lookup h' k t' = ht_lookup h k t'" if "t \<le> t'" for k t'
  proof (cases "unat k mod ht_size h = i")
    case False
    show ?thesis using lookup_other [OF r r' h'(3) sub(1) il False] .
  next
    case True
    have "find (hit h' k t') ?kept = find (hit h k t') ?kept"
      using data by (intro find_cong) (auto simp: hit_def)
    also have "\<dots> = find (hit h k t') ?c"
      using that by (intro find_kept) (auto simp: hit_def dead_def)
    finally have eq: "find (hit h' k t') ?kept = find (hit h k t') ?c" .
    have "length cs = ht_size h" using r by (simp add: ht_rep_def)
    moreover have "he_value (ht_entries h' ! x) = he_value (ht_entries h ! x)"
      if "find (hit h' k t') ?kept = Some x" for x
      using that data by (auto simp: find_Some_iff)
    ultimately show ?thesis
      using True eq il rep_unique [OF r'] uniq
      by (auto simp: ht_lookup_def sz intro!: map_option_cong)
  qed
  moreover have "hashtbl_get h a t = Inr (h', ht_lookup h ?k t)"
    using h'(1) i by (simp add: hashtbl_get_def Let_def)
  ultimately show ?thesis using r' by (intro exI conjI) auto
qed

lemma check_rep:
  assumes "ht_rep h cs fs"
  shows "hashtbl_check h a t =
    Some (\<exists>e \<in> set (cs ! (unat (hashStr a) mod ht_size h)).
            he_hash (ht_entries h ! e) = hashStr a \<and> he_expires (ht_entries h ! e) > t)"
  using assms unfolding hashtbl_check_def Let_def
  by (intro check_loop_spec) (simp add: ht_rep_def)

text \<open>The last two assignments of \<open>hashtbl_put\<close>: hang the entry in front of the chain.\<close>

definition ht_hang :: "hash_table \<Rightarrow> nat \<Rightarrow> nat \<Rightarrow> hash_table" where
  "ht_hang h e i =
     (let h4 = ht_set_next h e (ht_table h ! i)
      in h4\<lparr>ht_table := (ht_table h4)[i := Some e]\<rparr>)"

lemma hang_seg:
  assumes "seg h i ks [] fs" and "e \<notin> set ks \<union> set fs" and "e < length (ht_entries h)"
  shows "seg (ht_hang h e i) i [] (e # ks) fs" and "frame h (ht_hang h e i) i {e} {}"
proof -
  let ?h = "ht_hang h e i"
  have nx: "nx ?h = (nx h)(e := ht_table h ! i)"
    using assms(3) by (auto simp: ht_hang_def ht_set_next_def Let_def fun_eq_iff nth_list_update)
  have "nx ?h e = ht_table h ! i" using fun_cong [OF nx, of e] by simp
  moreover have "ht_empty ?h = ht_empty h" "ht_table ?h ! i = Some e"
      "length (ht_entries ?h) = length (ht_entries h)" "length (ht_table ?h) = length (ht_table h)"
    using assms(1) by (auto simp: ht_hang_def ht_set_next_def Let_def seg_def)
  moreover have "chain (nx ?h) (ht_table h ! i) ks" "chain (nx ?h) (ht_empty h) fs"
    unfolding nx using assms by (auto simp: seg_def)
  ultimately show "seg ?h i [] (e # ks) fs"
    using assms by (auto simp: seg_def)
  show "frame h ?h i {e} {}"
    using assms(3)
    by (auto simp: frame_def ht_hang_def ht_set_next_def Let_def nth_list_update)
qed

text \<open>Taking the first free entry and filling it in.\<close>

definition ht_take :: "hash_table \<Rightarrow> nat \<Rightarrow> u64 \<Rightarrow> int \<Rightarrow> byte list \<Rightarrow> hash_table" where
  "ht_take h e hash ex val =
     (let h1 = h\<lparr>ht_empty := he_next (ht_entries h ! e)\<rparr>
      in h1\<lparr>ht_entries := (ht_entries h1)
              [e := \<lparr>he_hash = hash, he_expires = ex, he_next = None, he_value = take (ht_record h) val\<rparr>]\<rparr>)"

lemma take_seg:
  assumes "seg h i [] c (e # fs)"
  shows "seg (ht_take h e hash ex val) i [] c fs" and "frame h (ht_take h e hash ex val) i {e} {e}"
proof -
  let ?h = "ht_take h e hash ex val"
  have e: "e < length (ht_entries h)" "e \<notin> set c" "e \<notin> set fs" using assms by (auto simp: seg_def)
  have nx: "nx ?h = (nx h)(e := None)"
    using e(1) by (auto simp: ht_take_def Let_def fun_eq_iff nth_list_update)
  have "ht_empty ?h = nx h e" "ht_table ?h = ht_table h"
      "length (ht_entries ?h) = length (ht_entries h)"
    by (auto simp: ht_take_def Let_def)
  moreover have "chain (nx ?h) (ht_table h ! i) c" "chain (nx ?h) (nx h e) fs"
    unfolding nx using assms e by (auto simp: seg_def)
  ultimately show "seg ?h i [] c fs" using assms by (auto simp: seg_def)
  show "frame h ?h i {e} {e}" by (simp add: frame_def ht_take_def Let_def nth_list_update_neq)
qed

lemma put_unfold:
  "hashtbl_put h a v ex t1 t2 =
     (case ht_empty h of
        None \<Rightarrow> Inr (h, 0)
      | Some e \<Rightarrow>
          (case hashtbl_check h a t1 of
             None \<Rightarrow> Inl Hangs
           | Some True \<Rightarrow> Inr (h, 1)
           | Some False \<Rightarrow>
               (let i = unat (hashStr a) mod ht_size h in
                case ht_purge_loop (ht_take h e (hashStr a) ex v) (hashStr a) t2 (Slot i) of
                  None \<Rightarrow> Inl Hangs
                | Some h3 \<Rightarrow> Inr (ht_hang h3 e i, 1))))"
  by (simp add: hashtbl_put_def ht_take_def ht_hang_def Let_def split: option.split bool.split)

text \<open>The table after a put that stores its entry.\<close>

lemma put_store:
  assumes r: "ht_rep h cs (e # fs)" and i: "i = unat (hashStr a) mod ht_size h"
  obtains h' where
    "map_option (\<lambda>h3. ht_hang h3 e i)
       (ht_purge_loop (ht_take h e (hashStr a) ex v) (hashStr a) t2 (Slot i)) = Some h'"
    and "ht_rep h' (cs[i := e # filter (\<lambda>x. \<not> purged h (hashStr a) t2 x) (cs ! i)])
           (rev (filter (purged h (hashStr a) t2) (cs ! i)) @ fs)"
    and "frame h h' i (insert e (set (cs ! i))) (insert e (set (filter (purged h (hashStr a) t2) (cs ! i))))"
    and "he_hash (ht_entries h' ! e) = hashStr a" and "he_expires (ht_entries h' ! e) = ex"
    and "he_value (ht_entries h' ! e) = take 4 v"
proof -
  let ?k = "hashStr a" and ?c = "cs ! i"
  let ?keep = "filter (\<lambda>x. \<not> purged h ?k t2 x) ?c" and ?out = "filter (purged h ?k t2) ?c"
  have pos: "0 < ht_size h" and rs: "ht_record h = 4" using r by (auto simp: ht_rep_def)
  have il: "i < ht_size h" using pos i by simp
  define h2 where "h2 = ht_take h e ?k ex v"
  have sg: "seg h i [] ?c (e # fs)" by (rule rep_seg [OF r il])
  note tk = take_seg [OF sg, of ?k ex v, folded h2_def]
  have e: "e < length (ht_entries h)" "e \<notin> set ?c" "e \<notin> set fs" using sg by (auto simp: seg_def)
  have cong: "purged h2 ?k t2 x = purged h ?k t2 x" if "x \<in> set ?c" for x
    using that e(2) purged_frame [OF tk(2), where e = x] by auto
  then have same: "filter (purged h2 ?k t2) ?c = ?out"
      "filter (\<lambda>x. \<not> purged h2 ?k t2 x) ?c = ?keep"
    by (auto intro!: filter_cong)
  obtain h3 where h3: "ht_purge_loop h2 ?k t2 (Slot i) = Some h3"
      "seg h3 i ?keep [] (rev ?out @ fs)" "frame h2 h3 i (set ?c) (set ?out)"
    using purge_loop_spec [OF tk(1), of ?k t2] unfolding same by auto
  have e3: "e < length (ht_entries h3)" "e \<notin> set ?keep \<union> set (rev ?out @ fs)"
    using e tk(2) h3(3) by (auto simp: frame_def)
  define h' where "h' = ht_hang h3 e i"
  note hg = hang_seg [OF h3(2) e3(2,1), folded h'_def]
  have f: "frame h h' i (insert e (set ?c)) (insert e (set ?out))"
    by (rule frame_trans [OF frame_trans [OF tk(2) h3(3), of "insert e (set ?c)" "insert e (set ?out)"] hg(2)]) auto
  have dat: "he_hash (ht_entries h' ! e) = ?k" "he_expires (ht_entries h' ! e) = ex"
      "he_value (ht_entries h' ! e) = take 4 v"
  proof -
    have "ht_entries h2 ! e = \<lparr>he_hash = ?k, he_expires = ex, he_next = None, he_value = take 4 v\<rparr>"
      using e(1) rs by (simp add: h2_def ht_take_def Let_def)
    moreover have "e \<notin> set ?out" using e(2) by simp
    ultimately show "he_hash (ht_entries h' ! e) = ?k" "he_expires (ht_entries h' ! e) = ex"
      "he_value (ht_entries h' ! e) = take 4 v"
      using h3(3) hg(2) by (auto simp: frame_def)
  qed
  have pl: "placed h i ?c" using r il by (simp add: ht_rep_def)
  have hs: "he_hash (ht_entries h' ! x) = he_hash (ht_entries h ! x)"
      "he_hash (ht_entries h ! x) \<noteq> ?k" if "x \<in> set ?keep" for x
    using that e(2) f by (auto simp: frame_def purged_def)
  have "map (\<lambda>x. he_hash (ht_entries h' ! x)) ?keep = map (\<lambda>x. he_hash (ht_entries h ! x)) ?keep"
    using hs(1) by (intro map_cong) auto
  moreover have "distinct (map (\<lambda>x. he_hash (ht_entries h ! x)) ?keep)"
    using pl by (intro distinct_map_filter) (simp add: placed_def)
  moreover have "ht_size h' = ht_size h" using f by (simp add: frame_def)
  ultimately have "placed h' i (e # ?keep)"
    unfolding placed_def
  proof (intro conjI ballI)
    fix x assume "x \<in> set (e # ?keep)"
    then consider "x = e" | "x \<in> set ?keep" by auto
    then show "unat (he_hash (ht_entries h' ! x)) mod ht_size h' = i"
    proof cases
      case 1
      then show ?thesis using dat(1) i \<open>ht_size h' = ht_size h\<close> by simp
    next
      case 2
      then have "x \<in> set ?c" by simp
      with pl hs(1) [OF 2] \<open>ht_size h' = ht_size h\<close> show ?thesis by (simp only: placed_def)
    qed
  next
    have "he_hash (ht_entries h' ! e) \<notin> set (map (\<lambda>x. he_hash (ht_entries h ! x)) ?keep)"
      unfolding dat(1) by (intro not_in_map hs(2))
    with \<open>distinct (map (\<lambda>x. he_hash (ht_entries h ! x)) ?keep)\<close>
    show "distinct (map (\<lambda>x. he_hash (ht_entries h' ! x)) (e # ?keep))"
      unfolding list.map distinct.simps
        \<open>map (\<lambda>x. he_hash (ht_entries h' ! x)) ?keep = map (\<lambda>x. he_hash (ht_entries h ! x)) ?keep\<close>
      by (rule conjI [rotated])
  qed
  have "mset (e # ?keep) + mset (rev ?out @ fs) = mset ?c + mset (e # fs)"
    using multiset_partition [of "mset ?c" "purged h ?k t2"] by (simp flip: mset_filter)
  with \<open>placed h' i (e # ?keep)\<close> have "ht_rep h' (cs[i := e # ?keep]) (rev ?out @ fs)"
    by (intro rep_update [OF r il f _ _ hg(1)]) auto
  then show thesis
    using that [of h'] f dat h3(1) by (simp add: h'_def h2_def)
qed

lemma put_rep:
  assumes r: "ht_rep h cs fs" and t: "t1 \<le> t2" and v: "length v = 4"
  shows "\<exists>h' n. hashtbl_put h a v ex t1 t2 = Inr (h', n) \<and> ht_wf h' \<and>
     (if fs = [] then n = 0 \<and> h' = h
      else if hashtbl_check h a t1 = Some True then n = 1 \<and> h' = h
      else n = 1 \<and> (\<forall>k t'. t2 \<le> t' \<longrightarrow> ht_lookup h' k t' =
        (if k = hashStr a then if t' \<le> ex then Some v else None else ht_lookup h k t')))"
proof (cases fs)
  case Nil
  then have "ht_empty h = None" using r by (simp add: ht_rep_def)
  then show ?thesis using rep_wf [OF r] Nil by (simp add: hashtbl_put_def)
next
  case (Cons e fs')
  let ?k = "hashStr a"
  define i where "i = unat ?k mod ht_size h"
  let ?c = "cs ! i"
  let ?keep = "filter (\<lambda>x. \<not> purged h ?k t2 x) ?c" and ?out = "filter (purged h ?k t2) ?c"
  have ep: "ht_empty h = Some e" using r Cons by (simp add: ht_rep_def)
  note r' = r [unfolded Cons]
  show ?thesis
  proof (cases "hashtbl_check h a t1 = Some True")
    case True
    then show ?thesis using ep rep_wf [OF r] Cons by (simp add: hashtbl_put_def)
  next
    case False
    then have chk: "hashtbl_check h a t1 = Some False" using check_rep [OF r, of a t1] by auto
    obtain h' where h': "map_option (\<lambda>h3. ht_hang h3 e i)
           (ht_purge_loop (ht_take h e ?k ex v) ?k t2 (Slot i)) = Some h'"
        "ht_rep h' (cs[i := e # ?keep]) (rev ?out @ fs')"
        "frame h h' i (insert e (set ?c)) (insert e (set ?out))"
        "he_hash (ht_entries h' ! e) = ?k" "he_expires (ht_entries h' ! e) = ex"
        "he_value (ht_entries h' ! e) = take 4 v"
      using put_store [OF r' i_def] by blast
    have put: "hashtbl_put h a v ex t1 t2 = Inr (h', 1)"
      using ep chk h'(1) by (auto simp: put_unfold i_def [symmetric] Let_def)
    have il: "i < ht_size h" using r by (simp add: i_def ht_rep_def)
    have sz: "ht_size h' = ht_size h" "ht_record h' = 4" "length cs = ht_size h"
      using h'(3) r by (auto simp: frame_def ht_rep_def)
    have e: "e \<notin> set ?c" using rep_seg [OF r' il] by (auto simp: seg_def)
    have "ht_lookup h' k t' = (if k = ?k then if t' \<le> ex then Some v else None else ht_lookup h k t')"
      if t': "t2 \<le> t'" for k t'
    proof (cases "unat k mod ht_size h = i")
      case False
      then have "k \<noteq> ?k" by (auto simp: i_def)
      moreover have "ht_lookup h' k t' = ht_lookup h k t'"
        using lookup_other [OF r' h'(2,3) _ il False] by auto
      ultimately show ?thesis by simp
    next
      case True
      have data: "hit h' k t' x = hit h k t' x" "he_value (ht_entries h' ! x) = he_value (ht_entries h ! x)"
        if "x \<in> set ?keep" for x
        using that e h'(3) by (auto simp: frame_def hit_def)
      have lk: "ht_lookup h' k t' = map_option (\<lambda>x. take 4 (he_value (ht_entries h' ! x)))
            (find (hit h' k t') (e # ?keep))"
        using True il sz rep_unique [OF h'(2)] by (simp add: ht_lookup_def)
      have hk: "find (hit h' k t') ?keep = find (hit h k t') ?keep"
        using data(1) by (intro find_cong) auto
      show ?thesis
      proof (cases "k = ?k")
        case True
        have "find (hit h k t') ?keep = None"
          using True by (auto simp: find_None_iff hit_def purged_def)
        then show ?thesis
          unfolding lk using True hk h'(4-6) v
            by (simp add: hit_def [of h' "hashStr a" t' e] not_less)
      next
        case False
        have "find (hit h k t') ?keep = find (hit h k t') ?c"
          using False t' by (intro find_filter_implied) (auto simp: hit_def purged_def)
        then have "find (hit h' k t') (e # ?keep) = find (hit h k t') ?c"
          using False hk h'(4) by (simp add: hit_def [of h' k t' e])
        moreover have "ht_lookup h k t' = map_option (\<lambda>x. take 4 (he_value (ht_entries h ! x)))
            (find (hit h k t') ?c)"
          using \<open>unat k mod ht_size h = i\<close> rep_unique [OF r] r by (simp add: ht_lookup_def ht_rep_def)
        moreover have "he_value (ht_entries h' ! x) = he_value (ht_entries h ! x)"
          if "find (hit h k t') ?c = Some x" for x
          using that \<open>find (hit h k t') ?keep = find (hit h k t') ?c\<close>
          by (intro data(2)) (metis find_Some_iff nth_mem)
        ultimately show ?thesis
          unfolding lk using False by (cases "find (hit h k t') ?c") simp_all
      qed
    qed
    then show ?thesis using put rep_wf [OF h'(2)] Cons False by simp
  qed
qed

interpretation dns: timed_map hashStr hashtbl_get hashtbl_put ht_lookup ht_wf "\<lambda>v. length v = 4"
proof (unfold_locales, goal_cases)
  case (1 m a t)
  then show ?case using get_rep [OF _ refl, of m _ _ a t] by (metis rep_wf ht_wf_def)
next
  case (2 m t1 t2 v a ex)
  then show ?case using put_rep [of m "ht_chains m" "ht_free m" t1 t2 v a ex]
    unfolding ht_wf_def by (auto split: if_splits)
qed

subsection \<open>The values of the table\<close>

text \<open>Every entry holds an address of four bytes, whatever the chains look like.\<close>

definition values_ok :: "hash_table \<Rightarrow> bool" where
  "values_ok h \<longleftrightarrow> ht_record h = 4
     \<and> (\<forall>i < length (ht_entries h). length (he_value (ht_entries h ! i)) = 4)"

lemma values_ok_upd [simp]:
  "values_ok (h\<lparr>ht_table := t\<rparr>) = values_ok h" "values_ok (h\<lparr>ht_empty := p\<rparr>) = values_ok h"
  by (simp_all add: values_ok_def)

lemma values_ok_entry:
  "values_ok h \<Longrightarrow> (e < length (ht_entries h) \<Longrightarrow> length (he_value x) = 4) \<Longrightarrow>
   values_ok (h\<lparr>ht_entries := (ht_entries h)[e := x]\<rparr>)"
  unfolding values_ok_def by (auto simp: nth_list_update split: if_splits) (metis nth_list_update_eq nth_list_update_neq)

lemma values_ok_set_next: "values_ok h \<Longrightarrow> values_ok (ht_set_next h e p)"
  unfolding ht_set_next_def by (rule values_ok_entry) (simp_all add: values_ok_def)

lemma values_ok_release: "values_ok h \<Longrightarrow> values_ok (ht_release h l e)"
proof -
  assume h: "values_ok h"
  define h1 where "h1 = ht_assign h l (he_next (ht_entries h ! e))"
  have "values_ok h1" using h by (cases l) (simp_all add: h1_def values_ok_set_next)
  moreover from this have "values_ok (h1\<lparr>ht_entries := (ht_entries h1)[e := (ht_entries h1 ! e)\<lparr>he_expires := 0\<rparr>]\<rparr>)"
    using \<open>values_ok h1\<close> by (intro values_ok_entry) (simp_all add: values_ok_def)
  ultimately show ?thesis
    by (simp add: ht_release_def h1_def [symmetric] Let_def values_ok_set_next)
qed

lemma values_ok_purge: "ht_purge_loop h hash now l = Some h' \<Longrightarrow> values_ok h \<Longrightarrow> values_ok h'"
proof -
  have "ht_purge_loop h hash now l = Some h' \<Longrightarrow> values_ok h \<longrightarrow> values_ok h'"
  proof (rule ht_purge_loop.raw_induct [of "\<lambda>h _ _ _ h'. values_ok h \<longrightarrow> values_ok h'"], goal_cases)
    case (1 loop h hash now l h')
    from 1(3) show ?case by (auto split: option.splits if_splits dest!: 1(2) intro: values_ok_release)
  qed
  then show "ht_purge_loop h hash now l = Some h' \<Longrightarrow> values_ok h \<Longrightarrow> values_ok h'" by blast
qed

lemma values_ok_get_loop: "ht_get_loop h hash now l = Some r \<Longrightarrow> values_ok h \<Longrightarrow> values_ok (fst r)"
proof -
  have "ht_get_loop h hash now l = Some r \<Longrightarrow> values_ok h \<longrightarrow> values_ok (fst r)"
  proof (rule ht_get_loop.raw_induct [of "\<lambda>h _ _ _ r. values_ok h \<longrightarrow> values_ok (fst r)"], goal_cases)
    case (1 loop h hash now l r)
    from 1(3) show ?case by (auto split: option.splits if_splits dest!: 1(2) intro: values_ok_release)
  qed
  then show "ht_get_loop h hash now l = Some r \<Longrightarrow> values_ok h \<Longrightarrow> values_ok (fst r)" by blast
qed

lemma values_ok_get: "hashtbl_get h a t = Inr (h', v) \<Longrightarrow> values_ok h \<Longrightarrow> values_ok h'"
  by (fastforce simp: hashtbl_get_def Let_def split: option.splits dest: values_ok_get_loop)

lemma values_ok_put:
  assumes "hashtbl_put h a v ex t1 t2 = Inr (h', r)" and "values_ok h" and "length v = 4"
  shows "values_ok h'"
proof -
  have e: "values_ok (h\<lparr>ht_empty := p, ht_entries := (ht_entries h)
      [e := \<lparr>he_hash = hashStr a, he_expires = ex, he_next = None, he_value = take (ht_record h) v\<rparr>]\<rparr>)" for p e
    using values_ok_entry [of "h\<lparr>ht_empty := p\<rparr>" e] assms(2,3) by (simp add: values_ok_def)
  from assms(1,2) show ?thesis
    by (auto simp: hashtbl_put_def Let_def split: option.splits bool.splits if_splits
        intro!: values_ok_set_next dest: values_ok_purge [OF _ e])
qed

definition dns_ok :: "hash_table \<Rightarrow> bool" where
  "dns_ok h \<longleftrightarrow> ht_wf h \<and> values_ok h"

lemma dns_ok_lookup:
  assumes "dns_ok h" and "ht_lookup h k t = Some v"
  shows "length v = 4"
proof -
  have r: "ht_rep h (ht_chains h) (ht_free h)" and v: "values_ok h"
    using assms(1) by (auto simp: dns_ok_def ht_wf_def)
  let ?i = "unat k mod ht_size h"
  from assms(2) obtain e where e: "e \<in> set (ht_chains h ! ?i)" "v = take (ht_record h) (he_value (ht_entries h ! e))"
    by (auto simp: ht_lookup_def find_Some_iff in_set_conv_nth)
  have "?i < length (ht_chains h)" using r by (simp add: ht_rep_def)
  then have "ht_chains h ! ?i \<in> set (ht_chains h)" by simp
  with e(1) have "e \<in> set (concat (ht_chains h) @ ht_free h)" by auto
  moreover have "set (concat (ht_chains h) @ ht_free h) = {..<ht_size h}"
    using r mset_eq_setD [of "concat (ht_chains h) @ ht_free h" "[0..<ht_size h]"] by (auto simp: ht_rep_def)
  ultimately have "e < ht_size h" by blast
  then have "e < length (ht_entries h)" using r by (simp add: ht_rep_def)
  with v e(2) show ?thesis by (simp add: values_ok_def)
qed

lemma dns_ok_init: "hashtbl_init alloc n = Inr (Some h) \<Longrightarrow> dns_ok h"
  using rep_wf [OF init_rep(1)] by (auto simp: dns_ok_def hashtbl_init_def values_ok_def he_zero_def split: if_splits)

interpretation dnsv: typed_map hashStr hashtbl_get hashtbl_put ht_lookup dns_ok "\<lambda>v. length v = 4"
proof (unfold_locales, goal_cases)
  case (1 m a t)
  then obtain m' where m': "hashtbl_get m a t = Inr (m', ht_lookup m (hashStr a) t)" "ht_wf m'"
      "\<forall>k t'. t \<le> t' \<longrightarrow> ht_lookup m' k t' = ht_lookup m k t'"
    using dns.get_law [of m a t] by (auto simp: dns_ok_def)
  moreover from values_ok_get [OF m'(1)] 1 have "values_ok m'" by (simp add: dns_ok_def)
  ultimately show ?case by (auto simp: dns_ok_def)
next
  case (2 m t1 t2 v a ex)
  then have "ht_wf m" "values_ok m" by (auto simp: dns_ok_def)
  from dns.put_law [OF this(1) 2(2,3), of a ex] values_ok_put [OF _ this(2) 2(3), of a ex t1 t2]
  show ?case by (fastforce simp: dns_ok_def)
next
  case (3 m k t v)
  then show ?case by (rule dns_ok_lookup)
qed

subsection \<open>Properties\<close>

text \<open>A table fresh from \<open>hashtbl_init\<close> is well formed and empty: its entries form the free
  list and no name is found at any time.\<close>

theorem dns_init:
  assumes "hashtbl_init alloc n = Inr (Some h)"
  shows "ht_wf h \<and> ht_size h = n \<and> ht_free h = [0..<n] \<and> (\<exists>h'. hashtbl_get h name now = Inr (h', None))"
proof -
  have r: "ht_rep h (replicate n []) [0..<n]" by (rule init_rep(1) [OF assms])
  have "\<exists>h'. hashtbl_get h name now = Inr (h', None)"
    using dns.get_law [OF rep_wf [OF r], of name now] unfolding init_rep(2) [OF assms] by blast
  moreover have "ht_size h = n" using assms by (auto simp: hashtbl_init_def split: if_splits)
  ultimately show ?thesis using rep_wf [OF r] rep_unique [OF r] by simp
qed

text \<open>C12: The DNS table is a map from host name hashes to addresses with expiry times.  A put
  returns and keeps the table well formed.  Without a free entry, or with a live entry for the
  name, it leaves the table alone; else it stores the address: from then on the name yields it
  up to its expiry time and not later, and all names with other hashes yield what they did.\<close>

theorem dns_put_get:
  assumes "ht_wf h" and "t1 \<le> t2" and "length a = 4"
  shows "\<exists>h' r. hashtbl_put h name a ex t1 t2 = Inr (h', r) \<and> ht_wf h' \<and>
     (if ht_free h = [] then r = 0 \<and> h' = h
      else if hashtbl_check h name t1 = Some True then r = 1 \<and> h' = h
      else r = 1 \<and> (\<forall>n t. t2 \<le> t \<longrightarrow>
        (\<exists>g. hashtbl_get h' n t = Inr (g,
           if hashStr n = hashStr name then if t \<le> ex then Some a else None
           else ht_lookup h (hashStr n) t))))"
proof -
  obtain h' r where p: "hashtbl_put h name a ex t1 t2 = Inr (h', r)" "ht_wf h'"
      "if ht_free h = [] then r = 0 \<and> h' = h
       else if hashtbl_check h name t1 = Some True then r = 1 \<and> h' = h
       else r = 1 \<and> (\<forall>k t'. t2 \<le> t' \<longrightarrow> ht_lookup h' k t' =
         (if k = hashStr name then if t' \<le> ex then Some a else None else ht_lookup h k t'))"
    using put_rep [OF assms(1) [unfolded ht_wf_def] assms(2,3), of name ex] by blast
  have get: "\<exists>g. hashtbl_get h' n t = Inr (g, ht_lookup h' (hashStr n) t)" for n t
    using dns.get_law [OF p(2), of n t] by blast
  show ?thesis
  proof (cases "ht_free h = [] \<or> hashtbl_check h name t1 = Some True")
    case True
    with p show ?thesis by (auto split: if_splits)
  next
    case False
    with p(3) have r: "r = 1" and look: "\<forall>k t'. t2 \<le> t' \<longrightarrow> ht_lookup h' k t' =
         (if k = hashStr name then if t' \<le> ex then Some a else None else ht_lookup h k t')"
      by simp_all
    have "\<exists>g. hashtbl_get h' n t = Inr (g, if hashStr n = hashStr name
           then if t \<le> ex then Some a else None else ht_lookup h (hashStr n) t)" if "t2 \<le> t" for n t
    proof -
      have "ht_lookup h' (hashStr n) t = (if hashStr n = hashStr name
           then if t \<le> ex then Some a else None else ht_lookup h (hashStr n) t)"
        using look that by blast
      with get [of n t] show ?thesis by simp
    qed
    with p(1,2) r False show ?thesis by simp
  qed
qed

text \<open>Looking a name up never hangs, keeps the table well formed, gives the address that is
  visible at that time, and changes no later lookup: only entries that have expired are taken
  out of the chain.\<close>

theorem dns_get_pure:
  assumes "ht_wf h"
  shows "\<exists>h'. hashtbl_get h name t = Inr (h', ht_lookup h (hashStr name) t) \<and> ht_wf h' \<and>
     (\<forall>k t'. t \<le> t' \<longrightarrow> ht_lookup h' k t' = ht_lookup h k t')"
  using dns.get_law [OF assms, of name t] .

text \<open>A table of two entries for the examples.\<close>

definition dns_example :: hash_table where
  "dns_example = \<lparr>ht_size = 2, ht_record = 4, ht_table = [None, None],
     ht_entries = [he_zero\<lparr>he_next := Some 1\<rparr>, he_zero], ht_empty = Some 0\<rparr>"

lemma dns_example_init: "hashtbl_init (\<lambda>_. True) 2 = Inr (Some dns_example)"
  by (simp add: hashtbl_init_def dns_example_def he_zero_def numeral_2_eq_2)

lemma dns_example_wf: "ht_wf dns_example"
  by (rule rep_wf [OF init_rep(1) [OF dns_example_init]])

lemma dns_example_ok: "dns_ok dns_example"
  by (rule dns_ok_init [OF dns_example_init])

lemma dns_example_empty: "\<exists>h. hashtbl_get dns_example name t = Inr (h, None) \<and> ht_wf h"
  using dns.get_law [OF dns_example_wf, of name t] unfolding init_rep(2) [OF dns_example_init] by blast

lemma dns_init_witness:
  "ht_wf dns_example \<and> ht_size dns_example = 2 \<and> ht_free dns_example = [0..<2]
   \<and> (\<exists>h'. hashtbl_get dns_example [97] 7 = Inr (h', None))"
  by (rule dns_init [OF dns_example_init])

lemma dns_put_get_witness:
  "\<exists>h' r. hashtbl_put dns_example [97] [10, 0, 0, 1] 310 10 10 = Inr (h', r) \<and> ht_wf h' \<and>
     (if ht_free dns_example = [] then r = 0 \<and> h' = dns_example
      else if hashtbl_check dns_example [97] 10 = Some True then r = 1 \<and> h' = dns_example
      else r = 1 \<and> (\<forall>n t. 10 \<le> t \<longrightarrow>
        (\<exists>g. hashtbl_get h' n t = Inr (g,
           if hashStr n = hashStr [97] then if t \<le> 310 then Some [10, 0, 0, 1] else None
           else ht_lookup dns_example (hashStr n) t))))"
  by (rule dns_put_get [OF dns_example_wf]) simp_all

lemma dns_get_pure_witness:
  "\<exists>h'. hashtbl_get dns_example [97] 7 = Inr (h', ht_lookup dns_example (hashStr [97]) 7) \<and> ht_wf h' \<and>
     (\<forall>k t'. 7 \<le> t' \<longrightarrow> ht_lookup h' k t' = ht_lookup dns_example k t')"
  by (rule dns_get_pure [OF dns_example_wf])

end
