(* ===== verification/Silk_Session.thy ===== *)
theory Silk_Session
  imports Silk_Io Silk_Login Silk_Connect Silk_Relay_Poll Silk_Cache_Ip Silk_Cache_App Silk_Hashtbl
begin

section \<open>The state of a session and its control flow (socks.c)\<close>

text \<open>
  One session is one call of \<open>socks5_run\<close> by a worker thread.  Its state holds the session
  record, the two sockets, the three shared tables as this thread sees them, and a trace of
  the calls that other parties can observe.  The environment holds what does not change
  during the session: what the kernel will answer, the data base (through the functions of
  db.c), the resolver behind \<open>host_serv\<close>, the clock readings, and the allocator: \<open>alloc\<close> for
  \<open>malloc\<close>, \<open>dup\<close> for the copies of strings that each call of a cache makes, and \<open>sql_dup\<close> for those
  of the two queries.

  Other threads change the tables between two calls of this one.  Each operation on a table
  holds the table's mutex from its start to its end, so it is one step; before each, the
  environment says what the others have made of the three tables (\<open>others\<close>).  A session comes to
  each of the six points at most once, so this stands for any interleaving of the calls.
\<close>

datatype action =
    A_resolve cstr
  | A_socket
  | A_connect sockaddr
  | A_relay
  | A_close int

record world =
  sess :: socks5_cli
  w_cli :: sock
  w_prx :: sock
  w_ip :: cache_ip
  w_app :: cache_ap
  w_dns :: hash_table
  trace :: "action list"

type_synonym tables = "cache_ip \<times> cache_ap \<times> hash_table"

datatype point = At_app_get | At_app_put | At_dns_get | At_dns_put | At_ip_get | At_ip_put

record env =
  peername_ok :: bool
  socket_fd :: int
  conn_scr :: conn_script
  sockname :: "sockaddr option"
  alloc :: "nat \<Rightarrow> bool"
  dup :: "point \<Rightarrow> copying"
  sql_dup :: copying
  sql_app :: "cstr \<Rightarrow> cstr option"
  sql_proxy :: "u32 \<Rightarrow> u16 \<Rightarrow> (cstr \<times> cstr) option"
  resolve :: "cstr \<Rightarrow> byte list option"
  t_get :: int
  t_ttl :: int
  t_check :: int
  t_put :: int
  nb_cli :: bool
  nb_prx :: bool
  polls :: "poll_ev list"
  others :: "point \<Rightarrow> tables \<Rightarrow> tables"

text \<open>
  A function of socks.c that returns a status either gets through, with a value, or returns
  early with a status other than 0, or does not return because of a fault.
\<close>

datatype 'a outcome = Fault c_fault | Stop nat world | Val 'a world

type_synonym 'a act = "world \<Rightarrow> 'a outcome"

definition ret :: "'a \<Rightarrow> 'a act" where
  "ret x w = Val x w"

definition bnd :: "'a act \<Rightarrow> ('a \<Rightarrow> 'b act) \<Rightarrow> 'b act" where
  "bnd m f w = (case m w of Fault e \<Rightarrow> Fault e | Stop st w' \<Rightarrow> Stop st w' | Val x w' \<Rightarrow> f x w')"

definition stop :: "nat \<Rightarrow> 'a act" where
  "stop st w = Stop st w"

definition require :: "bool \<Rightarrow> nat \<Rightarrow> unit act" where
  "require b st w = (if b then Val () w else Stop st w)"

definition get_sess :: "socks5_cli act" where
  "get_sess w = Val (sess w) w"

definition upd_sess :: "(socks5_cli \<Rightarrow> socks5_cli) \<Rightarrow> unit act" where
  "upd_sess f w = Val () (w\<lparr>sess := f (sess w)\<rparr>)"

definition emit :: "action \<Rightarrow> unit act" where
  "emit a w = Val () (w\<lparr>trace := trace w @ [a]\<rparr>)"

text \<open>The tables as this thread finds them when it comes to the next point.\<close>

definition meanwhile :: "env \<Rightarrow> point \<Rightarrow> world \<Rightarrow> world" where
  "meanwhile e p w =
     (case others e p (w_ip w, w_app w, w_dns w) of
        (i, a, d) \<Rightarrow> w\<lparr>w_ip := i, w_app := a, w_dns := d\<rparr>)"

definition quiet :: "env \<Rightarrow> bool" where
  "quiet e \<longleftrightarrow> (\<forall>p. others e p = id)"

text \<open>No copy of a string fails.\<close>

definition plenty :: "env \<Rightarrow> bool" where
  "plenty e \<longleftrightarrow> dup e = (\<lambda>_ _. True) \<and> sql_dup e = (\<lambda>_. True)"

lemma meanwhile_quiet [simp]: "quiet e \<Longrightarrow> meanwhile e p w = w"
  by (simp add: meanwhile_def quiet_def)

lemma meanwhile_frame [simp]:
  "sess (meanwhile e p w) = sess w" "trace (meanwhile e p w) = trace w"
  "w_cli (meanwhile e p w) = w_cli w" "w_prx (meanwhile e p w) = w_prx w"
  by (simp_all add: meanwhile_def split: prod.split)

text \<open>
  \<open>readn_timeo\<close> and \<open>writen_timeo\<close> followed by the check of their result, with the status
  returned when it is not the number asked for.
\<close>

definition recv_cli :: "nat \<Rightarrow> nat \<Rightarrow> byte list act" where
  "recv_cli n st w =
     (case readn_timeo n (w_cli w) of
        (r, bs, s) \<Rightarrow> if r \<noteq> int n then Stop st (w\<lparr>w_cli := s\<rparr>) else Val bs (w\<lparr>w_cli := s\<rparr>))"

definition recv_prx :: "nat \<Rightarrow> nat \<Rightarrow> byte list act" where
  "recv_prx n st w =
     (case readn_timeo n (w_prx w) of
        (r, bs, s) \<Rightarrow> if r \<noteq> int n then Stop st (w\<lparr>w_prx := s\<rparr>) else Val bs (w\<lparr>w_prx := s\<rparr>))"

definition send_cli :: "byte list \<Rightarrow> nat \<Rightarrow> unit act" where
  "send_cli bs st w =
     (case writen_timeo bs (w_cli w) of
        (r, s) \<Rightarrow> if r \<noteq> int (length bs) then Stop st (w\<lparr>w_cli := s\<rparr>) else Val () (w\<lparr>w_cli := s\<rparr>))"

definition send_prx :: "byte list \<Rightarrow> nat \<Rightarrow> unit act" where
  "send_prx bs st w =
     (case writen_timeo bs (w_prx w) of
        (r, s) \<Rightarrow> if r \<noteq> int (length bs) then Stop st (w\<lparr>w_prx := s\<rparr>) else Val () (w\<lparr>w_prx := s\<rparr>))"

text \<open>The status a caller gets: 0 when the function runs to its end.\<close>

primrec status_of :: "unit outcome \<Rightarrow> c_fault + (nat \<times> world)" where
  "status_of (Fault e) = Inl e"
| "status_of (Stop st w) = Inr (st, w)"
| "status_of (Val u w) = Inr (0, w)"

subsection \<open>Rules\<close>

lemma bnd_Val: "m w = Val x w' \<Longrightarrow> bnd m f w = f x w'"
  by (simp add: bnd_def)

lemma bnd_eq_Val: "bnd m f w = Val y w2 \<longleftrightarrow> (\<exists>x w1. m w = Val x w1 \<and> f x w1 = Val y w2)"
  by (simp add: bnd_def split: outcome.split)

lemma bnd_eq_Stop:
  "bnd m f w = Stop st w2 \<longleftrightarrow>
     m w = Stop st w2 \<or> (\<exists>x w1. m w = Val x w1 \<and> f x w1 = Stop st w2)"
  by (auto simp: bnd_def split: outcome.split)

lemma bnd_eq_Fault:
  "bnd m f w = Fault e \<longleftrightarrow> m w = Fault e \<or> (\<exists>x w1. m w = Val x w1 \<and> f x w1 = Fault e)"
  by (auto simp: bnd_def split: outcome.split)

lemmas bnd_eq = bnd_eq_Val bnd_eq_Stop bnd_eq_Fault

end
