(* ===== verification/Silk_Socks.thy ===== *)
theory Silk_Socks
  imports Silk_Session
begin

section \<open>The SOCKS5 server and client of a session (socks.c)\<close>

text \<open>
  One definition per function of socks.c, in its order.  A session reads the client's method
  list, its user name and password and its request, connects to the upstream proxy named in
  the user name, authenticates there with credentials from the data base, passes the request
  on, answers the client and relays.
\<close>

definition NEEDAUTH :: bool where
  "NEEDAUTH = True"

subsection \<open>The client's side: methods, authentication, request\<close>

text \<open>The loop over the methods the client offers.\<close>

fun read_methods :: "nat \<Rightarrow> byte \<Rightarrow> byte act" where
  "read_methods 0 m = ret m"
| "read_methods (Suc k) m =
     bnd (recv_cli 1 1) (\<lambda>a. read_methods k (if hd a = 0x02 \<and> NEEDAUTH then 0x02 else m))"

definition socks5_choosemethod :: "byte act" where
  "socks5_choosemethod =
     bnd (recv_cli 1 1) (\<lambda>v.
     bnd (require (hd v = 0x05) 1) (\<lambda>_.
     bnd (recv_cli 1 1) (\<lambda>b.
     bnd (read_methods (unat (hd b)) 0) (\<lambda>m.
     let climethod = (if NEEDAUTH \<and> m = 0 then 0xFF else m) in
     bnd (send_cli [0x05, climethod] 1) (\<lambda>_.
     ret climethod)))))"

definition socks5_readauth :: "unit act" where
  "socks5_readauth =
     bnd (recv_cli 1 1) (\<lambda>v.
     bnd (require (hd v = 0x01) 1) (\<lambda>_.
     bnd (recv_cli 1 1) (\<lambda>ul.
     bnd (recv_cli (unat (hd ul)) 1) (\<lambda>un.
     bnd (upd_sess (\<lambda>c. c\<lparr>user := c_str un\<rparr>)) (\<lambda>_.
     bnd (recv_cli 1 1) (\<lambda>pl.
     bnd (recv_cli (unat (hd pl)) 1) (\<lambda>pw.
     bnd (upd_sess (\<lambda>c. c\<lparr>passwd := c_str pw\<rparr>)) (\<lambda>_.
     send_cli [1, 0] 1))))))))"

definition run_strip :: "unit act" where
  "run_strip w =
     (case strip_redirectaddr (sess w) of
        (st, c) \<Rightarrow> if st \<noteq> 0 then Stop st (w\<lparr>sess := c\<rparr>) else Val () (w\<lparr>sess := c\<rparr>))"

text \<open>The two calls of the password cache, each after what other threads did.\<close>

definition app_get :: "env \<Rightarrow> cstr \<Rightarrow> cptr option act" where
  "app_get e u w0 =
     (let w = meanwhile e At_app_get w0
      in case cache_getapp (dup e At_app_get) (w_app w) u of
           Inl f \<Rightarrow> Fault f
         | Inr r \<Rightarrow> Val r w)"

definition app_put :: "env \<Rightarrow> cstr \<Rightarrow> cstr \<Rightarrow> unit act" where
  "app_put e u p w0 =
     (let w = meanwhile e At_app_put w0
      in case cache_putapp (alloc e) (dup e At_app_put) (w_app w) u (Some p) of
           Inl f \<Rightarrow> Fault f
         | Inr c \<Rightarrow> Val () (w\<lparr>w_app := c\<rparr>))"

text \<open>
  \<open>sqlget_apppasswd\<close> returns a copy of the password, so that a NULL also says that the copy
  failed.  The password that comes out of the cache may be a NULL, too, and that is not looked at.
\<close>

definition app_query :: "env \<Rightarrow> cstr \<Rightarrow> cptr" where
  "app_query e u = (case sql_app e u of None \<Rightarrow> None | Some p \<Rightarrow> if sql_dup e [0] then Some p else None)"

definition app_passwd_of :: "env \<Rightarrow> cstr \<Rightarrow> cptr option act" where
  "app_passwd_of e u =
     bnd (app_get e u) (\<lambda>r.
     case r of
       Some p \<Rightarrow> ret (Some p)
     | None \<Rightarrow>
         (case app_query e u of
            None \<Rightarrow> ret None
          | Some p \<Rightarrow> bnd (app_put e u p) (\<lambda>_. ret (Some (Some p)))))"

definition lift_fault :: "c_fault + 'a \<Rightarrow> 'a act" where
  "lift_fault x w = (case x of Inl f \<Rightarrow> Fault f | Inr a \<Rightarrow> Val a w)"

definition socks5_doauth :: "env \<Rightarrow> unit act" where
  "socks5_doauth e =
     bnd get_sess (\<lambda>client.
     bnd (app_passwd_of e (user client)) (\<lambda>p.
     case p of
       None \<Rightarrow> stop 5
     | Some apppasswd \<Rightarrow>
         bnd (lift_fault (c_string apppasswd)) (\<lambda>s. require (passwd client = s) 5)))"

text \<open>The lookup of a domain name, through the DNS table and the resolver.\<close>

definition dns_get :: "env \<Rightarrow> cstr \<Rightarrow> byte list option act" where
  "dns_get e name w0 =
     (let w = meanwhile e At_dns_get w0
      in case hashtbl_get (w_dns w) name (t_get e) of
           Inl f \<Rightarrow> Fault f
         | Inr (h, r) \<Rightarrow> Val r (w\<lparr>w_dns := h\<rparr>))"

definition dns_put :: "env \<Rightarrow> cstr \<Rightarrow> byte list \<Rightarrow> unit act" where
  "dns_put e name a w0 =
     (let w = meanwhile e At_dns_put w0
      in case hashtbl_put (w_dns w) name a (t_ttl e + 300) (t_check e) (t_put e) of
           Inl f \<Rightarrow> Fault f
         | Inr (h, r) \<Rightarrow> Val () (w\<lparr>w_dns := h\<rparr>))"

definition set_request :: "(sockaddr \<Rightarrow> sockaddr) \<Rightarrow> unit act" where
  "set_request f = upd_sess (\<lambda>c. c\<lparr>request := f (request c)\<rparr>)"

definition lookup_name :: "env \<Rightarrow> cstr \<Rightarrow> unit act" where
  "lookup_name e name =
     bnd (set_request (\<lambda>r. r\<lparr>sin_family := AF_INET\<rparr>)) (\<lambda>_.
     bnd (dns_get e name) (\<lambda>v.
     case v of
       Some a \<Rightarrow> set_request (\<lambda>r. r\<lparr>sin_addr := a\<rparr>)
     | None \<Rightarrow>
         bnd (emit (A_resolve name)) (\<lambda>_.
         case resolve e name of
           None \<Rightarrow> stop 4
         | Some a \<Rightarrow>
             bnd (dns_put e name a) (\<lambda>_.
             set_request (\<lambda>r. \<lparr>sin_family = AF_INET, sin_addr = a, sin_port = replicate 2 0\<rparr>)))))"

definition socks5_readrequest :: "env \<Rightarrow> unit act" where
  "socks5_readrequest e =
     bnd (recv_cli 1 1) (\<lambda>v.
     bnd (require (hd v = 0x05) 1) (\<lambda>_.
     bnd (recv_cli 1 1) (\<lambda>c.
     bnd (require (\<not> (hd c < 0x01 \<or> hd c > 0x03)) 7) (\<lambda>_.
     bnd (upd_sess (\<lambda>s. s\<lparr>cmd := hd c\<rparr>)) (\<lambda>_.
     bnd (recv_cli 1 1) (\<lambda>rsv.
     bnd (recv_cli 1 1) (\<lambda>t.
     if hd t = 0x01 then
       bnd (recv_cli 4 1) (\<lambda>a.
       bnd (set_request (\<lambda>r. r\<lparr>sin_family := AF_INET, sin_addr := a\<rparr>)) (\<lambda>_.
       bnd (recv_cli 2 1) (\<lambda>p.
       set_request (\<lambda>r. r\<lparr>sin_port := p\<rparr>))))
     else if hd t = 0x03 then
       bnd (recv_cli 1 1) (\<lambda>l.
       bnd (recv_cli (unat (hd l)) 1) (\<lambda>n.
       bnd (lookup_name e (c_str n)) (\<lambda>_.
       bnd (recv_cli 2 1) (\<lambda>p.
       set_request (\<lambda>r. r\<lparr>sin_port := p\<rparr>)))))
     else if hd t = 0x04 then
       bnd (recv_cli 16 1) (\<lambda>a.
       bnd (set_request (\<lambda>r. r\<lparr>sin_family := AF_INET6, sin_addr := a\<rparr>)) (\<lambda>_.
       bnd (recv_cli 2 1) (\<lambda>p.
       set_request (\<lambda>r. r\<lparr>sin_port := p\<rparr>))))
     else stop 8)))))))"

subsection \<open>The upstream side\<close>

definition socks5_writerequest :: "unit act" where
  "socks5_writerequest =
     bnd get_sess (\<lambda>client.
     let r = request client;
         n = sockADDRLEN r
     in send_prx ([0x05, 0x01, 0x00, if sin_family r = AF_INET then 1 else 4]
                  @ take n (sin_addr r) @ sin_port r) 4)"

text \<open>The buffer of \<open>socks5_readreply\<close> has 256 bytes; a domain name reply can have 257.\<close>

definition recv_domain :: "nat \<Rightarrow> unit act" where
  "recv_domain n w =
     (case readn_timeo n (w_prx w) of
        (r, bs, s) \<Rightarrow>
          if 256 < length bs then Fault Buffer_Overflow
          else if r \<noteq> int n then Stop 2 (w\<lparr>w_prx := s\<rparr>)
          else Val () (w\<lparr>w_prx := s\<rparr>))"

definition socks5_readreply :: "unit act" where
  "socks5_readreply =
     bnd (recv_prx 4 4) (\<lambda>buf.
     if buf ! 0 \<noteq> 0x05 \<or> buf ! 1 \<noteq> 0 then
       (if buf ! 1 = 0 then ret () else stop (unat (buf ! 1)))
     else if buf ! 3 = 0x01 then bnd (recv_prx 6 2) (\<lambda>_. ret ())
     else if buf ! 3 = 0x03 then
       bnd (recv_prx 1 2) (\<lambda>b. recv_domain (unat (hd b) + 2))
     else if buf ! 3 = 0x04 then bnd (recv_prx 18 2) (\<lambda>_. ret ())
     else stop 8)"

definition socks5_writereply :: "env \<Rightarrow> byte \<Rightarrow> unit act" where
  "socks5_writereply e status =
     bnd get_sess (\<lambda>client.
     case (if proxyfd client = -1 then None else sockname e) of
       None \<Rightarrow> stop 1
     | Some ss \<Rightarrow>
         let n = sockADDRLEN ss
         in send_cli ([0x05, status, 0, if sin_family ss = AF_INET then 1 else 4]
                      @ take n (sin_addr ss) @ sin_port ss) 1)"

text \<open>
  The sub-negotiation of user name and password with the proxy.  \<open>buf\<close> is an array of plain
  \<open>char\<close>, which is signed: a length of 128 or more becomes a negative count for memcpy.
\<close>

definition copied :: "cptr \<Rightarrow> c_fault + byte list" where
  "copied ptr =
     (case c_string ptr of
        Inl f \<Rightarrow> Inl f
      | Inr s \<Rightarrow>
          (let k = sint (of_nat (length s) :: byte)
           in if k < 0 then Inl Bad_Memcpy else Inr (of_nat (length s) # take (nat k) s)))"

definition auth_message :: "cptr \<Rightarrow> cptr \<Rightarrow> c_fault + byte list" where
  "auth_message u p =
     (case copied u of
        Inl f \<Rightarrow> Inl f
      | Inr ub \<Rightarrow>
          (case copied p of
             Inl f \<Rightarrow> Inl f
           | Inr pb \<Rightarrow> Inr (0x01 # ub @ pb)))"

definition ip_get :: "env \<Rightarrow> u32 \<Rightarrow> (cptr \<times> cptr) option act" where
  "ip_get e ip w0 =
     (let w = meanwhile e At_ip_get w0
      in case cache_getip (dup e At_ip_get) (w_ip w) ip of
           Inl f \<Rightarrow> Fault f
         | Inr r \<Rightarrow> Val r w)"

definition ip_put :: "env \<Rightarrow> u32 \<Rightarrow> cptr \<times> cptr \<Rightarrow> unit act" where
  "ip_put e ip cr w0 =
     (let w = meanwhile e At_ip_put w0
      in case cache_putip (alloc e) (dup e At_ip_put) (w_ip w) ip (fst cr) (snd cr) of
           Inl f \<Rightarrow> Fault f
         | Inr c \<Rightarrow> Val () (w\<lparr>w_ip := c\<rparr>))"

text \<open>
  \<open>sqlget_proxycreds\<close> hands out two copies and returns 0, also when a copy failed.
\<close>

definition proxy_query :: "env \<Rightarrow> u32 \<Rightarrow> u16 \<Rightarrow> (cptr \<times> cptr) option" where
  "proxy_query e ip port =
     (case sql_proxy e ip port of
        None \<Rightarrow> None
      | Some (u, p) \<Rightarrow>
          Some (if sql_dup e [1] then Some u else None, if sql_dup e [2] then Some p else None))"

definition proxy_creds_of :: "env \<Rightarrow> u32 \<Rightarrow> u16 \<Rightarrow> (cptr \<times> cptr) option act" where
  "proxy_creds_of e ip port =
     bnd (ip_get e ip) (\<lambda>r.
     case r of
       Some cr \<Rightarrow> ret (Some cr)
     | None \<Rightarrow>
         (case proxy_query e ip port of
            None \<Rightarrow> ret None
          | Some cr \<Rightarrow> bnd (ip_put e ip cr) (\<lambda>_. ret (Some cr))))"

text \<open>
  With no other thread at work, and memory for all copies, these are the read-through of the
  cache's contract.
\<close>

abbreviation read_app :: "env \<Rightarrow> cache_ap \<Rightarrow> cstr \<Rightarrow> c_fault + (cptr option \<times> cache_ap)" where
  "read_app e \<equiv> read_through Some (cache_getapp (\<lambda>_. True))
     (\<lambda>c a v. cache_putapp (alloc e) (\<lambda>_. True) c a (Some v)) (sql_app e)"

abbreviation read_ip :: "env \<Rightarrow> u16 \<Rightarrow> cache_ip \<Rightarrow> u32 \<Rightarrow> c_fault + ((cptr \<times> cptr) option \<times> cache_ip)" where
  "read_ip e port \<equiv> read_through (\<lambda>(u, p). (Some u, Some p)) (cache_getip (\<lambda>_. True))
     (\<lambda>c k (u, p). cache_putip (alloc e) (\<lambda>_. True) c k (Some u) (Some p)) (\<lambda>k. sql_proxy e k port)"

lemma app_passwd_of_quiet:
  "quiet e \<Longrightarrow> plenty e \<Longrightarrow> app_passwd_of e u w =
     (case read_app e (w_app w) u of
        Inl f \<Rightarrow> Fault f
      | Inr (r, c) \<Rightarrow> Val r (w\<lparr>w_app := c\<rparr>))"
  by (simp add: app_passwd_of_def app_query_def app_get_def app_put_def bnd_def ret_def read_through_def Let_def
      plenty_def split: sum.split option.split)

lemma proxy_creds_of_quiet:
  "quiet e \<Longrightarrow> plenty e \<Longrightarrow> proxy_creds_of e ip port w =
     (case read_ip e port (w_ip w) ip of
        Inl f \<Rightarrow> Fault f
      | Inr (r, c) \<Rightarrow> Val r (w\<lparr>w_ip := c\<rparr>))"
  by (simp add: proxy_creds_of_def proxy_query_def ip_get_def ip_put_def bnd_def ret_def read_through_def Let_def
      plenty_def split: sum.split option.split prod.split)

text \<open>\<open>client->proxyfd = socket(...)\<close>.\<close>

definition open_proxy :: "env \<Rightarrow> unit act" where
  "open_proxy e w =
     Val () (w\<lparr>trace := trace w @ [A_socket], sess := (sess w)\<lparr>proxyfd := socket_fd e\<rparr>\<rparr>)"

definition socks5_connectproxy :: "env \<Rightarrow> unit act" where
  "socks5_connectproxy e =
     bnd get_sess (\<lambda>client.
     let proxyip = ntohl (sin_addr (srvpeer client)); proxyport = ntohs (sin_port (srvpeer client)) in
     bnd (open_proxy e) (\<lambda>_.
     bnd (require (socket_fd e \<noteq> -1) 1) (\<lambda>_.
     bnd (emit (A_connect (srvpeer client))) (\<lambda>_.
     bnd (require (fst (connect_nonb (conn_scr e) \<lparr>nonblock = False, is_open = True\<rparr>) \<noteq> -1) 4) (\<lambda>_.
     bnd (send_prx [0x05, 1, 0x02] 4) (\<lambda>_.
     bnd (recv_prx 2 4) (\<lambda>m.
     bnd (require (m ! 0 = 5 \<and> m ! 1 = 0x02) 4) (\<lambda>_.
     bnd (proxy_creds_of e proxyip proxyport) (\<lambda>creds.
     case creds of
       None \<Rightarrow> stop 4
     | Some (u, p) \<Rightarrow>
         bnd (lift_fault (auth_message u p)) (\<lambda>msg.
         bnd (send_prx msg 4) (\<lambda>_.
         bnd (recv_prx 2 4) (\<lambda>a.
         bnd (require (a ! 0 = 0x01 \<and> a ! 1 = 0) 5) (\<lambda>_.
         bnd socks5_writerequest (\<lambda>_.
         socks5_readreply))))))))))))))"

subsection \<open>The session\<close>

text \<open>
  The relay at the end of a session.  False says that the loop is still running when the
  environment's list of poll results is used up.
\<close>

definition run_negotiate :: "env \<Rightarrow> bool act" where
  "run_negotiate e =
     bnd (emit A_relay) (\<lambda>_ w.
     case negotiate (nb_cli e) (nb_prx e) (polls e) (w_cli w) (w_prx w) of
       (r, st) \<Rightarrow>
         (let w1 = w\<lparr>w_cli := cli r, w_prx := prx r\<rparr>
          in case st of
               None \<Rightarrow> Val False w1
             | Some n \<Rightarrow> if n \<noteq> 0 then Stop n w1 else Val True w1))"

definition run_connect :: "env \<Rightarrow> bool act" where
  "run_connect e w =
     (case status_of (socks5_connectproxy e w) of
        Inl f \<Rightarrow> Fault f
      | Inr (status, w1) \<Rightarrow>
          if status \<noteq> 0 then
            (case status_of (socks5_writereply e (of_nat status) w1) of
               Inl f \<Rightarrow> Fault f
             | Inr (_, w2) \<Rightarrow> Stop status w2)
          else bnd (socks5_writereply e (of_nat status)) (\<lambda>_. run_negotiate e) w1)"

definition run_auth :: "env \<Rightarrow> byte \<Rightarrow> unit act" where
  "run_auth e method =
     (if method = 0x02 then
        bnd socks5_readauth (\<lambda>_. bnd run_strip (\<lambda>_. socks5_doauth e))
      else if method \<noteq> 0 \<and> method \<noteq> 0xFF then stop 7
      else ret ())"

definition run_body :: "env \<Rightarrow> bool act" where
  "run_body e =
     bnd socks5_choosemethod (\<lambda>method.
     bnd (run_auth e method) (\<lambda>_.
     bnd (socks5_readrequest e) (\<lambda>_.
     bnd get_sess (\<lambda>client.
     if cmd client = 0x01 then run_connect e else stop 7))))"

definition close_both :: "world \<Rightarrow> world" where
  "close_both w = w\<lparr>trace := trace w @ [A_close (clientfd (sess w)), A_close (proxyfd (sess w))]\<rparr>"

text \<open>
  The result of a session: \<open>Returned None\<close> is a return of the uninitialised variable
  \<open>status\<close>, \<open>Relaying\<close> is a session whose relay is still running.
\<close>

datatype run_end = Returned "nat option" | Relaying

primrec run_done :: "bool outcome \<Rightarrow> c_fault + (run_end \<times> world)" where
  "run_done (Fault f) = Inl f"
| "run_done (Stop st w) = Inr (Returned (Some st), close_both w)"
| "run_done (Val fin w) = (if fin then Inr (Returned (Some 0), close_both w) else Inr (Relaying, w))"

definition socks5_run :: "env \<Rightarrow> int \<Rightarrow> world \<Rightarrow> c_fault + (run_end \<times> world)" where
  "socks5_run e fd w =
     (let w0 = w\<lparr>sess := socks5_cli_zero\<lparr>clientfd := fd\<rparr>\<rparr>
      in if \<not> peername_ok e then Inr (Returned None, close_both w0)
         else run_done (run_body e w0))"

text \<open>\<open>proxy_start\<close> of proxy.c, the function the worker threads run: it drops the status.\<close>

definition proxy_start :: "env \<Rightarrow> int \<Rightarrow> world \<Rightarrow> c_fault + world" where
  "proxy_start e fd w = (case socks5_run e fd w of Inl f \<Rightarrow> Inl f | Inr (_, w') \<Rightarrow> Inr w')"

end
