(* ===== verification/Silk_Session_Safety.thy ===== *)
theory Silk_Session_Safety
  imports Silk_Socks
begin

section \<open>What every session keeps (socks.c)\<close>

text \<open>
  Partial correctness of the functions of socks.c, on every branch.  \<open>triple P m Q R E\<close>: from a
  world with \<open>P\<close> the call \<open>m\<close> gets through with \<open>Q\<close>, returns early with \<open>R\<close>, or ends in a
  fault of \<open>E\<close>.  \<open>stays I E m\<close> is the case where \<open>I\<close> is all three conditions.
\<close>

definition triple ::
  "(world \<Rightarrow> bool) \<Rightarrow> 'a act \<Rightarrow> ('a \<Rightarrow> world \<Rightarrow> bool) \<Rightarrow> (world \<Rightarrow> bool) \<Rightarrow> c_fault set \<Rightarrow> bool"
where
  "triple P m Q R E \<longleftrightarrow>
     (\<forall>w. P w \<longrightarrow> (case m w of Fault e \<Rightarrow> e \<in> E | Stop _ w' \<Rightarrow> R w' | Val x w' \<Rightarrow> Q x w'))"

definition stays :: "(world \<Rightarrow> bool) \<Rightarrow> c_fault set \<Rightarrow> 'a act \<Rightarrow> bool" where
  "stays I E m \<longleftrightarrow> triple I m (\<lambda>_. I) I E"

named_theorems stays_intros \<open>rules that show that an act keeps an invariant\<close>

lemma triple_bnd:
  "triple P m M R E \<Longrightarrow> (\<And>x. triple (M x) (f x) Q R E) \<Longrightarrow> triple P (bnd m f) Q R E"
  unfolding triple_def
proof (intro allI impI)
  fix w
  assume m: "\<forall>w. P w \<longrightarrow> (case m w of Fault e \<Rightarrow> e \<in> E | Stop _ w' \<Rightarrow> R w' | Val x w' \<Rightarrow> M x w')"
    and f: "\<And>x. \<forall>w. M x w \<longrightarrow> (case f x w of Fault e \<Rightarrow> e \<in> E | Stop _ w' \<Rightarrow> R w' | Val x w' \<Rightarrow> Q x w')"
    and "P w"
  then have mw: "case m w of Fault e \<Rightarrow> e \<in> E | Stop _ w' \<Rightarrow> R w' | Val x w' \<Rightarrow> M x w'" by blast
  show "case bnd m f w of Fault e \<Rightarrow> e \<in> E | Stop _ w' \<Rightarrow> R w' | Val x w' \<Rightarrow> Q x w'"
  proof (cases "m w")
    case (Val x w')
    with mw have "M x w'" by simp
    with f [of x] Val show ?thesis by (simp add: bnd_def)
  qed (use mw in \<open>simp_all add: bnd_def\<close>)
qed

lemma triple_weaken:
  "triple P m Q R E \<Longrightarrow> (\<And>w. P' w \<Longrightarrow> P w) \<Longrightarrow> (\<And>x w. Q x w \<Longrightarrow> Q' x w) \<Longrightarrow> (\<And>w. R w \<Longrightarrow> R' w)
   \<Longrightarrow> triple P' m Q' R' E"
  unfolding triple_def by (fastforce split: outcome.splits)

lemma stays_triple: "stays I E m \<Longrightarrow> (\<And>w. I w \<Longrightarrow> R w) \<Longrightarrow> triple I m (\<lambda>_. I) R E"
  unfolding stays_def by (erule triple_weaken)

lemma stays_bnd [stays_intros]: "stays I E m \<Longrightarrow> (\<And>x. stays I E (f x)) \<Longrightarrow> stays I E (bnd m f)"
  unfolding stays_def by (rule triple_bnd)

text \<open>A step whose result satisfies \<open>G\<close>, followed by one that needs it.\<close>

definition yields :: "(world \<Rightarrow> bool) \<Rightarrow> c_fault set \<Rightarrow> ('a \<Rightarrow> bool) \<Rightarrow> 'a act \<Rightarrow> bool" where
  "yields I E G m \<longleftrightarrow> triple I m (\<lambda>x w. I w \<and> G x) I E"

lemma stays_yields:
  assumes "yields I E G m" and "\<And>x. G x \<Longrightarrow> stays I E (f x)"
  shows "stays I E (bnd m f)"
  unfolding stays_def
proof (rule triple_bnd [OF assms(1) [unfolded yields_def]])
  show "triple (\<lambda>w. I w \<and> G x) (f x) (\<lambda>_. I) I E" for x
    using assms(2) [of x] by (cases "G x") (auto simp: stays_def triple_def)
qed

lemma yields_stays: "yields I E G m \<Longrightarrow> stays I E m"
  unfolding yields_def stays_def by (erule triple_weaken) simp_all

lemma stays_yields_any: "stays I E m \<Longrightarrow> (\<And>x. G x) \<Longrightarrow> yields I E G m"
  by (simp add: yields_def stays_def)

lemma stays_basic [stays_intros]:
  "stays I E (ret x)" "stays I E (stop st)" "stays I E (require b st)" "stays I E get_sess"
  by (simp_all add: stays_def triple_def ret_def stop_def require_def get_sess_def)

lemma stays_if [stays_intros]: "stays I E m \<Longrightarrow> stays I E n \<Longrightarrow> stays I E (if b then m else n)"
  by simp

lemma stays_option [stays_intros]:
  "stays I E m \<Longrightarrow> (\<And>x. stays I E (n x)) \<Longrightarrow> stays I E (case v of None \<Rightarrow> m | Some x \<Rightarrow> n x)"
  by (cases v) simp_all

lemma stays_pair [stays_intros]: "(\<And>x y. stays I E (n x y)) \<Longrightarrow> stays I E (case p of (x, y) \<Rightarrow> n x y)"
  by (cases p) simp

lemma stays_let [stays_intros]: "(\<And>x. stays I E (n x)) \<Longrightarrow> stays I E (let x = v in n x)"
  by simp

lemma stays_upd: "(\<And>w. I w \<Longrightarrow> I (w\<lparr>sess := h (sess w)\<rparr>)) \<Longrightarrow> stays I E (upd_sess h)"
  by (simp add: stays_def triple_def upd_sess_def)

lemma stays_emit: "(\<And>w. I w \<Longrightarrow> I (w\<lparr>trace := trace w @ [a]\<rparr>)) \<Longrightarrow> stays I E (emit a)"
  by (simp add: stays_def triple_def emit_def)

text \<open>Invariants that say nothing of the two sockets.\<close>

definition off_wire :: "(world \<Rightarrow> bool) \<Rightarrow> bool" where
  "off_wire I \<longleftrightarrow> (\<forall>w s. I w \<longrightarrow> I (w\<lparr>w_cli := s\<rparr>) \<and> I (w\<lparr>w_prx := s\<rparr>))"

lemma stays_wire [stays_intros]:
  "off_wire I \<Longrightarrow> stays I E (recv_cli n st)" "off_wire I \<Longrightarrow> stays I E (recv_prx n st)"
  "off_wire I \<Longrightarrow> stays I E (send_cli bs st)" "off_wire I \<Longrightarrow> stays I E (send_prx bs st)"
  by (auto simp: stays_def triple_def off_wire_def recv_cli_def recv_prx_def send_cli_def send_prx_def
      split: prod.splits)

lemma stays_read_methods [stays_intros]: "off_wire I \<Longrightarrow> stays I E (read_methods n m)"
  by (induction n arbitrary: m) (auto intro!: stays_intros)

lemma stays_choosemethod [stays_intros]: "off_wire I \<Longrightarrow> stays I E socks5_choosemethod"
  unfolding socks5_choosemethod_def by (intro stays_intros)

lemma stays_recv_domain: "off_wire I \<Longrightarrow> Buffer_Overflow \<in> E \<Longrightarrow> stays I E (recv_domain n)"
  by (auto simp: stays_def triple_def off_wire_def recv_domain_def split: prod.splits)

lemma stays_readreply [stays_intros]:
  "off_wire I \<Longrightarrow> Buffer_Overflow \<in> E \<Longrightarrow> stays I E socks5_readreply"
  unfolding socks5_readreply_def by (intro stays_intros stays_recv_domain)

lemma stays_writerequest [stays_intros]: "off_wire I \<Longrightarrow> stays I E socks5_writerequest"
  unfolding socks5_writerequest_def by (intro stays_intros)

lemma stays_writereply [stays_intros]: "off_wire I \<Longrightarrow> stays I E (socks5_writereply e st)"
  unfolding socks5_writereply_def by (intro stays_intros)

text \<open>What a fault set says about a pointer that will be read: it is not NULL, or NULL is allowed for.\<close>

definition readable :: "c_fault set \<Rightarrow> cptr \<Rightarrow> bool" where
  "readable E s \<longleftrightarrow> Null_Deref \<in> E \<or> s \<noteq> None"

lemma stays_lift:
  "Bad_Memcpy \<in> E \<Longrightarrow> readable E u \<Longrightarrow> readable E p \<Longrightarrow> stays I E (lift_fault (auth_message u p))"
  by (auto simp: stays_def triple_def lift_fault_def auth_message_def copied_def c_string_def readable_def Let_def
      split: sum.splits if_splits option.splits)

lemma stays_c_string: "readable E s \<Longrightarrow> stays I E (lift_fault (c_string s))"
  by (auto simp: stays_def triple_def lift_fault_def c_string_def readable_def split: option.split)

definition creds_readable :: "c_fault set \<Rightarrow> (cptr \<times> cptr) option \<Rightarrow> bool" where
  "creds_readable E cr \<longleftrightarrow> (\<forall>u p. cr = Some (u, p) \<longrightarrow> readable E u \<and> readable E p)"

definition passwd_readable :: "c_fault set \<Rightarrow> cptr option \<Rightarrow> bool" where
  "passwd_readable E r \<longleftrightarrow> (\<forall>p. r = Some p \<longrightarrow> readable E p)"

lemma readable_UNIV [simp]: "readable UNIV s" "creds_readable UNIV cr" "passwd_readable UNIV r"
  by (simp_all add: readable_def creds_readable_def passwd_readable_def)

lemma stays_doauth:
  assumes "\<And>u. yields I E (passwd_readable E) (app_passwd_of e u)"
  shows "stays I E (socks5_doauth e)"
  unfolding socks5_doauth_def
proof (rule stays_bnd, rule stays_basic, rule stays_yields, rule assms)
  fix c :: socks5_cli and r assume "passwd_readable E r"
  then show "stays I E (case r of None \<Rightarrow> stop 5
      | Some apppasswd \<Rightarrow> bnd (lift_fault (c_string apppasswd)) (\<lambda>s. require (passwd c = s) 5))"
    by (cases r) (auto simp: passwd_readable_def intro!: stays_intros stays_c_string)
qed

lemma stays_lookup_name:
  assumes "\<And>f. stays I E (set_request f)" and "\<And>n. stays I E (dns_get e n)"
    and "\<And>n a. resolve e n = Some a \<Longrightarrow> stays I E (dns_put e n a)" and "\<And>n. stays I E (emit (A_resolve n))"
  shows "stays I E (lookup_name e n)"
proof -
  have "stays I E (case resolve e n of None \<Rightarrow> stop 4
      | Some a \<Rightarrow> bnd (dns_put e n a) (\<lambda>_.
          set_request (\<lambda>r. \<lparr>sin_family = AF_INET, sin_addr = a, sin_port = replicate 2 0\<rparr>)))"
    by (cases "resolve e n") (auto intro!: stays_intros assms)
  note resolved = this
  show ?thesis
    unfolding lookup_name_def
    by (rule stays_bnd, rule assms(1), rule stays_bnd, rule assms(2), rule stays_option,
        rule stays_bnd, rule assms(4), rule resolved, rule assms(1))
qed

text \<open>The calls of the tables, for invariants that the others keep.\<close>

lemma stays_app_passwd:
  "stays I E (app_get e u) \<Longrightarrow> (\<And>p. app_query e u = Some p \<Longrightarrow> stays I E (app_put e u p)) \<Longrightarrow>
   stays I E (app_passwd_of e u)"
  unfolding app_passwd_of_def by (cases "app_query e u") (auto intro!: stays_intros)

lemma stays_proxy_creds:
  "stays I E (ip_get e ip) \<Longrightarrow> (\<And>cr. proxy_query e ip port = Some cr \<Longrightarrow> stays I E (ip_put e ip cr)) \<Longrightarrow>
   stays I E (proxy_creds_of e ip port)"
  unfolding proxy_creds_of_def by (cases "proxy_query e ip port") (auto intro!: stays_intros)

text \<open>An invariant that does not speak of the tables is kept by all of them.\<close>

definition off_tables :: "(world \<Rightarrow> bool) \<Rightarrow> bool" where
  "off_tables I \<longleftrightarrow> (\<forall>w i a d. I (w\<lparr>w_ip := i, w_app := a, w_dns := d\<rparr>) = I w)"

lemma off_tables_upd:
  assumes "off_tables I"
  shows "I (meanwhile e p w) = I w" "I (w\<lparr>w_ip := i\<rparr>) = I w" "I (w\<lparr>w_app := a\<rparr>) = I w" "I (w\<lparr>w_dns := d\<rparr>) = I w"
proof -
  note t = assms [unfolded off_tables_def, rule_format]
  show "I (meanwhile e p w) = I w" by (simp add: meanwhile_def t split: prod.split)
  show "I (w\<lparr>w_ip := i\<rparr>) = I w" "I (w\<lparr>w_app := a\<rparr>) = I w" "I (w\<lparr>w_dns := d\<rparr>) = I w"
    using t [where w = w and i = i and a = "w_app w" and d = "w_dns w"]
      t [where w = w and i = "w_ip w" and a = a and d = "w_dns w"]
      t [where w = w and i = "w_ip w" and a = "w_app w" and d = d] by simp_all
qed

lemma stays_off_tables:
  assumes "off_tables I"
  shows "stays I UNIV (dns_get e n)" "stays I UNIV (dns_put e n a)" "stays I UNIV (app_passwd_of e u)"
    "stays I UNIV (proxy_creds_of e ip port)"
proof -
  note t = off_tables_upd [OF assms]
  show "stays I UNIV (dns_get e n)" "stays I UNIV (dns_put e n a)"
    by (auto simp: stays_def triple_def dns_get_def dns_put_def t Let_def split: sum.split)
  show "stays I UNIV (app_passwd_of e u)" "stays I UNIV (proxy_creds_of e ip port)"
    by (rule stays_app_passwd stays_proxy_creds;
        auto simp: stays_def triple_def app_get_def app_put_def ip_get_def ip_put_def t Let_def split: sum.split)+
qed

lemma yields_conj:
  "yields I E G m \<Longrightarrow> stays J UNIV m \<Longrightarrow> yields (\<lambda>w. I w \<and> J w) E G m"
  unfolding yields_def stays_def triple_def
proof (intro allI impI, elim conjE)
  fix w
  assume "\<forall>w. I w \<longrightarrow> (case m w of Fault e \<Rightarrow> e \<in> E | Stop _ w' \<Rightarrow> I w' | Val x w' \<Rightarrow> I w' \<and> G x)"
    and "\<forall>w. J w \<longrightarrow> (case m w of Fault e \<Rightarrow> e \<in> UNIV | Stop _ w' \<Rightarrow> J w' | Val _ w' \<Rightarrow> J w')"
    and "I w" and "J w"
  then have "case m w of Fault e \<Rightarrow> e \<in> E | Stop _ w' \<Rightarrow> I w' | Val x w' \<Rightarrow> I w' \<and> G x"
    and "case m w of Fault e \<Rightarrow> e \<in> UNIV | Stop _ w' \<Rightarrow> J w' | Val _ w' \<Rightarrow> J w'" by blast+
  then show "case m w of Fault e \<Rightarrow> e \<in> E | Stop _ w' \<Rightarrow> I w' \<and> J w' | Val x w' \<Rightarrow> (I w' \<and> J w') \<and> G x"
    by (cases "m w") simp_all
qed

lemma stays_conj:
  "stays I E m \<Longrightarrow> stays J UNIV m \<Longrightarrow> stays (\<lambda>w. I w \<and> J w) E m"
  using yields_conj [of I E "\<lambda>_. True" m J] by (simp add: yields_def stays_def)

text \<open>A function that reads the session record works on the record it has read.\<close>

lemma stays_get:
  assumes "\<And>c. stays (\<lambda>w. I w \<and> v (sess w) = v c) E (f c)"
  shows "stays I E (bnd get_sess f)"
  unfolding stays_def triple_def
proof (intro allI impI)
  fix w assume "I w"
  with assms [of "sess w", unfolded stays_def triple_def]
  have "case f (sess w) w of Fault e \<Rightarrow> e \<in> E | Stop _ w' \<Rightarrow> I w' \<and> v (sess w') = v (sess w)
      | Val _ w' \<Rightarrow> I w' \<and> v (sess w') = v (sess w)" by blast
  then show "case bnd get_sess f w of Fault e \<Rightarrow> e \<in> E | Stop _ w' \<Rightarrow> I w' | Val _ w' \<Rightarrow> I w'"
    by (cases "f (sess w) w") (simp_all add: bnd_def get_sess_def)
qed

subsection \<open>The invariants of a session\<close>

text \<open>
  What an invariant \<open>I\<close> of the steps must keep so that the functions keep it: it does not
  speak of the sockets, of the request or of the upstream descriptor, it is kept by the
  tables, and by a connection to the address that the login named.
\<close>

locale session_inv =
  fixes I :: "world \<Rightarrow> bool" and E :: "c_fault set" and e :: env
  assumes wire: "off_wire I"
    and faults: "Bad_Memcpy \<in> E" "Buffer_Overflow \<in> E"
    and req: "\<And>w f. I w \<Longrightarrow> I (w\<lparr>sess := (sess w)\<lparr>request := f (request (sess w))\<rparr>\<rparr>)"
    and cmds: "\<And>w b. I w \<Longrightarrow> I (w\<lparr>sess := (sess w)\<lparr>cmd := b\<rparr>\<rparr>)"
    and fds: "\<And>w. I w \<Longrightarrow> I (w\<lparr>trace := trace w @ [A_socket], sess := (sess w)\<lparr>proxyfd := socket_fd e\<rparr>\<rparr>)"
    and calls: "\<And>w n. I w \<Longrightarrow> I (w\<lparr>trace := trace w @ [A_resolve n]\<rparr>)"
      "\<And>w. I w \<Longrightarrow> I (w\<lparr>trace := trace w @ [A_relay]\<rparr>)"
    and conn: "\<And>w. I w \<Longrightarrow> I (w\<lparr>trace := trace w @ [A_connect (srvpeer (sess w))]\<rparr>)"
    and dnsget: "\<And>n. stays I E (dns_get e n)"
    and dnsput: "\<And>n a. resolve e n = Some a \<Longrightarrow> stays I E (dns_put e n a)"
    and creds: "\<And>ip port. yields I E (creds_readable E) (proxy_creds_of e ip port)"
begin

lemma stays_set_request: "stays I E (set_request f)"
  unfolding set_request_def by (rule stays_upd) (rule req)

lemma stays_readrequest: "stays I E (socks5_readrequest e)"
  unfolding socks5_readrequest_def
  by (intro stays_intros stays_set_request stays_lookup_name dnsget dnsput wire stays_upd cmds stays_emit calls)

abbreviation (input) pinned :: "sockaddr \<Rightarrow> world \<Rightarrow> bool" where
  "pinned sa \<equiv> \<lambda>w. I w \<and> srvpeer (sess w) = sa"

lemma pinned_off_wire: "off_wire (pinned sa)"
  using wire by (simp add: off_wire_def)

lemma pinned_creds: "yields (pinned sa) E (creds_readable E) (proxy_creds_of e ip port)"
  by (rule yields_conj [OF creds]) (rule stays_off_tables, simp add: off_tables_def)

lemma stays_login:
  assumes "creds_readable E cr"
  shows "stays (pinned sa) E (case cr of
       None \<Rightarrow> stop 4
     | Some (u, p) \<Rightarrow>
         bnd (lift_fault (auth_message u p)) (\<lambda>msg.
         bnd (send_prx msg 4) (\<lambda>_.
         bnd (recv_prx 2 4) (\<lambda>a.
         bnd (require (a ! 0 = 0x01 \<and> a ! 1 = 0) 5) (\<lambda>_.
         bnd socks5_writerequest (\<lambda>_.
         socks5_readreply))))))"
proof (cases cr)
  case (Some up)
  obtain u p where "up = (u, p)" by (cases up)
  then have "readable E u" "readable E p" using assms Some by (simp_all add: creds_readable_def)
  then show ?thesis
    unfolding Some \<open>up = (u, p)\<close> option.case prod.case
    by (intro stays_intros stays_lift pinned_off_wire faults)
qed (simp add: stays_basic)

lemma stays_connectproxy: "stays I E (socks5_connectproxy e)"
  unfolding socks5_connectproxy_def Let_def
proof (rule stays_get [where v = srvpeer], goal_cases)
  case (1 c)
  have "stays (pinned (srvpeer c)) E (emit (A_connect (srvpeer c)))"
    by (rule stays_emit) (use conn in fastforce)
  moreover have "stays (pinned (srvpeer c)) E (open_proxy e)"
    using fds by (simp add: stays_def triple_def open_proxy_def)
  ultimately show ?case
    by (intro stays_bnd stays_basic stays_wire stays_yields [OF pinned_creds] stays_login pinned_off_wire)
qed

lemma stays_negotiate: "stays I E (run_negotiate e)"
  unfolding run_negotiate_def
proof (rule stays_bnd)
  show "stays I E (emit A_relay)" by (rule stays_emit) (rule calls)
  show "stays I E (\<lambda>w. case negotiate (nb_cli e) (nb_prx e) (polls e) (w_cli w) (w_prx w) of
       (r, st) \<Rightarrow>
         (let w1 = w\<lparr>w_cli := cli r, w_prx := prx r\<rparr>
          in case st of
               None \<Rightarrow> Val False w1
             | Some n \<Rightarrow> if n \<noteq> 0 then Stop n w1 else Val True w1))" for x :: unit
    using wire by (auto simp: stays_def triple_def off_wire_def Let_def split: prod.splits option.splits)
qed

lemma stays_run_connect: "stays I E (run_connect e)"
  unfolding stays_def triple_def
proof (intro allI impI)
  fix w assume "I w"
  have c: "case socks5_connectproxy e w of Fault f \<Rightarrow> f \<in> E | Stop _ w' \<Rightarrow> I w' | Val _ w' \<Rightarrow> I w'"
    using stays_connectproxy \<open>I w\<close> by (auto simp: stays_def triple_def)
  have r: "I w1 \<Longrightarrow> case socks5_writereply e st w1 of Fault f \<Rightarrow> f \<in> E | Stop _ w' \<Rightarrow> I w' | Val _ w' \<Rightarrow> I w'"
    for w1 st using stays_writereply [OF wire] by (auto simp: stays_def triple_def)
  have n: "stays I E (bnd (socks5_writereply e st) (\<lambda>_. run_negotiate e))" for st
    by (intro stays_intros wire stays_negotiate)
  show "case run_connect e w of Fault f \<Rightarrow> f \<in> E | Stop _ w' \<Rightarrow> I w' | Val _ w' \<Rightarrow> I w'"
  proof (cases "socks5_connectproxy e w")
    case (Fault f)
    with c show ?thesis by (simp add: run_connect_def)
  next
    case (Stop st w1)
    with c r [of w1 "of_nat st"] n [of "of_nat st"] show ?thesis
      by (cases "socks5_writereply e (of_nat st) w1") (auto simp: run_connect_def stays_def triple_def)
  next
    case (Val u w1)
    with c n [of 0] show ?thesis by (simp add: run_connect_def stays_def triple_def)
  qed
qed

lemma stays_after_auth:
  "stays I E (bnd (socks5_readrequest e) (\<lambda>_. bnd get_sess (\<lambda>client.
     if cmd client = 0x01 then run_connect e else stop 7)))"
  by (intro stays_intros stays_readrequest stays_run_connect)

end

lemma stays_readauth:
  assumes "off_wire I" and "\<And>u. stays I E (upd_sess (\<lambda>c. c\<lparr>user := u\<rparr>))"
    and "\<And>u. stays I E (upd_sess (\<lambda>c. c\<lparr>passwd := u\<rparr>))"
  shows "stays I E socks5_readauth"
  unfolding socks5_readauth_def by (intro stays_intros assms)

subsection \<open>The tables stay well formed and nothing hangs\<close>

text \<open>
  \<open>c\<close> says that every copy of a string succeeds, now and before.  Without that the tables still
  have their shape, but a slot in use may hold a NULL.
\<close>

definition tabs_ok :: "bool \<Rightarrow> tables \<Rightarrow> bool" where
  "tabs_ok c = (\<lambda>(i, a, d). ip_sound i \<and> app_sound a \<and> dns_ok d \<and> (c \<longrightarrow> ip_whole i \<and> app_whole a))"

definition tables_ok :: "bool \<Rightarrow> world \<Rightarrow> bool" where
  "tables_ok c w \<longleftrightarrow> tabs_ok c (w_ip w, w_app w, w_dns w)"

text \<open>
  Clock readings come in order, the resolver returns IPv4 addresses, and the other threads leave
  the tables well formed.
\<close>

definition env_ok :: "bool \<Rightarrow> env \<Rightarrow> bool" where
  "env_ok c e \<longleftrightarrow> t_check e \<le> t_put e \<and> (\<forall>n a. resolve e n = Some a \<longrightarrow> length a = 4)
     \<and> (\<forall>p t. tabs_ok c t \<longrightarrow> tabs_ok c (others e p t)) \<and> (c \<longrightarrow> plenty e)"

text \<open>The faults a session can end in.\<close>

definition run_faults :: "bool \<Rightarrow> c_fault set" where
  "run_faults c = {Bad_Memcpy, Buffer_Overflow} \<union> (if c then {} else {Null_Deref})"

lemma run_faults_simps [simp]:
  "Bad_Memcpy \<in> run_faults c" "Buffer_Overflow \<in> run_faults c" "Null_Deref \<in> run_faults c \<longleftrightarrow> \<not> c"
  by (simp_all add: run_faults_def)

lemmas tables_ok_iff = tables_ok_def tabs_ok_def prod.case

lemma tables_ok_off_wire [simp]: "off_wire (tables_ok c)"
  by (simp add: off_wire_def tables_ok_def)

lemma tables_ok_meanwhile: "env_ok c e \<Longrightarrow> tables_ok c w \<Longrightarrow> tables_ok c (meanwhile e p w)"
proof -
  assume e: "env_ok c e" and w: "tables_ok c w"
  then have "tabs_ok c (others e p (w_ip w, w_app w, w_dns w))" by (simp add: env_ok_def tables_ok_def)
  then show "tables_ok c (meanwhile e p w)"
    by (auto simp: meanwhile_def tables_ok_def split: prod.splits)
qed

abbreviation (input) tabs_inv :: "bool \<Rightarrow> env \<Rightarrow> world \<Rightarrow> bool" where
  "tabs_inv c e \<equiv> \<lambda>w. env_ok c e \<and> tables_ok c w"

text \<open>A call of a table, for an invariant that the others keep.\<close>

lemma yields_after_others:
  assumes "\<And>w. I w \<Longrightarrow> I (meanwhile e p w)"
    and "\<And>w. I w \<Longrightarrow> case m w of Fault f \<Rightarrow> f \<in> E | Stop _ w' \<Rightarrow> I w' | Val x w' \<Rightarrow> I w' \<and> G x"
  shows "yields I E G (\<lambda>w. m (meanwhile e p w))"
  using assms by (simp add: yields_def triple_def)

lemma stays_after_others:
  assumes "\<And>w. I w \<Longrightarrow> I (meanwhile e p w)"
    and "\<And>w. I w \<Longrightarrow> case m w of Fault f \<Rightarrow> f \<in> E | Stop _ w' \<Rightarrow> I w' | Val _ w' \<Rightarrow> I w'"
  shows "stays I E (\<lambda>w. m (meanwhile e p w))"
  using assms by (simp add: stays_def triple_def)

lemma tabs_inv_meanwhile: "tabs_inv c e w \<Longrightarrow> tabs_inv c e (meanwhile e p w)"
  using tables_ok_meanwhile by blast

lemma tables_ok_app_get: "yields (tabs_inv c e) (run_faults c) (passwd_readable (run_faults c)) (app_get e u)"
  unfolding app_get_def Let_def
proof (rule yields_after_others, erule tabs_inv_meanwhile)
  fix w assume w: "tabs_inv c e w"
  then have "app_sound (w_app w)" and wh: "c \<longrightarrow> app_whole (w_app w)" and d: "c \<longrightarrow> dup e At_app_get [0]"
    by (auto simp: tables_ok_iff env_ok_def plenty_def)
  from getapp_sound [where dup = "dup e At_app_get" and a = u, OF this(1)] w wh d
  show "case (case cache_getapp (dup e At_app_get) (w_app w) u of Inl f \<Rightarrow> Fault f | Inr r \<Rightarrow> Val r w) of
      Fault f \<Rightarrow> f \<in> run_faults c | Stop _ w' \<Rightarrow> tabs_inv c e w'
    | Val x w' \<Rightarrow> tabs_inv c e w' \<and> passwd_readable (run_faults c) x"
    by (auto simp: passwd_readable_def readable_def split: sum.splits)
qed

lemma tables_ok_ip_get: "yields (tabs_inv c e) (run_faults c) (creds_readable (run_faults c)) (ip_get e ip)"
  unfolding ip_get_def Let_def
proof (rule yields_after_others, erule tabs_inv_meanwhile)
  fix w assume w: "tabs_inv c e w"
  then have "ip_sound (w_ip w)" and wh: "c \<longrightarrow> ip_whole (w_ip w)" and d: "c \<longrightarrow> (\<forall>p. dup e At_ip_get p)"
    by (auto simp: tables_ok_iff env_ok_def plenty_def)
  from getip_sound [where dup = "dup e At_ip_get" and k = ip, OF this(1)] w wh d
  show "case (case cache_getip (dup e At_ip_get) (w_ip w) ip of Inl f \<Rightarrow> Fault f | Inr r \<Rightarrow> Val r w) of
      Fault f \<Rightarrow> f \<in> run_faults c | Stop _ w' \<Rightarrow> tabs_inv c e w'
    | Val x w' \<Rightarrow> tabs_inv c e w' \<and> creds_readable (run_faults c) x"
    by (auto simp: creds_readable_def readable_def split: sum.splits)
qed

lemma tables_ok_app_put: "stays (tabs_inv c e) (run_faults c) (app_put e u pw)"
  unfolding app_put_def Let_def
proof (rule stays_after_others, erule tabs_inv_meanwhile)
  fix w assume w: "tabs_inv c e w"
  then have "app_sound (w_app w)" and wh: "c \<longrightarrow> app_whole (w_app w) \<and> (\<forall>p. dup e At_app_put p)"
    by (auto simp: tables_ok_iff env_ok_def plenty_def)
  from putapp_sound [where alloc = "alloc e" and dup = "dup e At_app_put" and a = u and p = pw, OF this(1)] w wh
  show "case (case cache_putapp (alloc e) (dup e At_app_put) (w_app w) u (Some pw) of Inl f \<Rightarrow> Fault f
        | Inr c \<Rightarrow> Val () (w\<lparr>w_app := c\<rparr>)) of
      Fault f \<Rightarrow> f \<in> run_faults c | Stop _ w' \<Rightarrow> tabs_inv c e w' | Val _ w' \<Rightarrow> tabs_inv c e w'"
    by (auto simp: tables_ok_iff split: sum.splits)
qed

lemma tables_ok_ip_put:
  assumes "creds_readable (run_faults c) (Some cr)"
  shows "stays (tabs_inv c e) (run_faults c) (ip_put e ip cr)"
  unfolding ip_put_def Let_def
proof (rule stays_after_others, erule tabs_inv_meanwhile)
  fix w assume w: "tabs_inv c e w"
  then have "ip_sound (w_ip w)" and wh: "c \<longrightarrow> ip_whole (w_ip w) \<and> (\<forall>p. dup e At_ip_put p)"
    by (auto simp: tables_ok_iff env_ok_def plenty_def)
  moreover have "c \<longrightarrow> fst cr \<noteq> None \<and> snd cr \<noteq> None"
    using assms by (cases cr) (auto simp: creds_readable_def readable_def)
  ultimately show "case (case cache_putip (alloc e) (dup e At_ip_put) (w_ip w) ip (fst cr) (snd cr) of Inl f \<Rightarrow> Fault f
        | Inr c \<Rightarrow> Val () (w\<lparr>w_ip := c\<rparr>)) of
      Fault f \<Rightarrow> f \<in> run_faults c | Stop _ w' \<Rightarrow> tabs_inv c e w' | Val _ w' \<Rightarrow> tabs_inv c e w'"
    using putip_sound [where c = "w_ip w" and alloc = "alloc e" and dup = "dup e At_ip_put" and k = ip
        and user = "fst cr" and passwd = "snd cr"] w
    by (auto simp: tables_ok_iff split: sum.splits)
qed

lemma tables_ok_dns:
  shows "stays (tabs_inv c e) E (dns_get e n)"
    and "resolve e n = Some a \<Longrightarrow> stays (tabs_inv c e) E (dns_put e n a)"
proof -
  show "stays (tabs_inv c e) E (dns_get e n)"
    unfolding dns_get_def Let_def
  proof (rule stays_after_others, erule tabs_inv_meanwhile)
    fix w assume w: "tabs_inv c e w"
    then obtain h r where "hashtbl_get (w_dns w) n (t_get e) = Inr (h, r)" "dns_ok h"
      using dnsv.get_total [of "w_dns w"] unfolding tables_ok_iff by metis
    with w show "case (case hashtbl_get (w_dns w) n (t_get e) of Inl f \<Rightarrow> Fault f
          | Inr (h, r) \<Rightarrow> Val r (w\<lparr>w_dns := h\<rparr>)) of
        Fault f \<Rightarrow> f \<in> E | Stop _ w' \<Rightarrow> tabs_inv c e w' | Val _ w' \<Rightarrow> tabs_inv c e w'"
      by (simp add: tables_ok_iff)
  qed
  assume a: "resolve e n = Some a"
  show "stays (tabs_inv c e) E (dns_put e n a)"
    unfolding dns_put_def Let_def
  proof (rule stays_after_others, erule tabs_inv_meanwhile)
    fix w assume w: "tabs_inv c e w"
    then have "t_check e \<le> t_put e" "length a = 4" using a by (auto simp: env_ok_def)
    then obtain h r where "hashtbl_put (w_dns w) n a (t_ttl e + 300) (t_check e) (t_put e) = Inr (h, r)" "dns_ok h"
      using dnsv.put_law [of "w_dns w"] w unfolding tables_ok_iff by metis
    with w show "case (case hashtbl_put (w_dns w) n a (t_ttl e + 300) (t_check e) (t_put e) of Inl f \<Rightarrow> Fault f
          | Inr (h, r) \<Rightarrow> Val () (w\<lparr>w_dns := h\<rparr>)) of
        Fault f \<Rightarrow> f \<in> E | Stop _ w' \<Rightarrow> tabs_inv c e w' | Val _ w' \<Rightarrow> tabs_inv c e w'"
      by (simp add: tables_ok_iff)
  qed
qed

text \<open>What the reads of the two caches hand out can be read, if copies succeed.\<close>

lemma yields_bnd:
  assumes "yields I E G m" and "\<And>x. G x \<Longrightarrow> yields I E H (f x)"
  shows "yields I E H (bnd m f)"
  unfolding yields_def
proof (rule triple_bnd [OF assms(1) [unfolded yields_def]])
  show "triple (\<lambda>w. I w \<and> G x) (f x) (\<lambda>x w. I w \<and> H x) I E" for x
    using assms(2) [of x] by (cases "G x") (auto simp: yields_def triple_def)
qed

lemma yields_ret: "G x \<Longrightarrow> yields I E G (ret x)"
  by (simp add: yields_def triple_def ret_def)

lemma yields_put: "stays I E m \<Longrightarrow> G x \<Longrightarrow> yields I E G (bnd m (\<lambda>_. ret x))"
  by (rule yields_bnd [of _ _ "\<lambda>_. True"]) (simp_all add: stays_yields_any yields_ret)

lemma tables_ok_passwd: "yields (tabs_inv c e) (run_faults c) (passwd_readable (run_faults c)) (app_passwd_of e u)"
  unfolding app_passwd_of_def
proof (rule yields_bnd, rule tables_ok_app_get)
  fix r assume r: "passwd_readable (run_faults c) r"
  show "yields (tabs_inv c e) (run_faults c) (passwd_readable (run_faults c)) (case r of
       Some p \<Rightarrow> ret (Some p)
     | None \<Rightarrow> (case app_query e u of None \<Rightarrow> ret None | Some p \<Rightarrow> bnd (app_put e u p) (\<lambda>_. ret (Some (Some p)))))"
    using r by (auto simp: passwd_readable_def readable_def intro!: yields_ret yields_put tables_ok_app_put
        split: option.split)
qed

lemma query_readable:
  assumes "env_ok c e"
  shows "creds_readable (run_faults c) (proxy_query e ip port)"
  using assms by (auto simp: creds_readable_def readable_def proxy_query_def env_ok_def plenty_def split: option.splits)

lemma tables_ok_creds: "yields (tabs_inv c e) (run_faults c) (creds_readable (run_faults c)) (proxy_creds_of e ip port)"
proof (cases "env_ok c e")
  case True
  show ?thesis
    unfolding proxy_creds_of_def
  proof (rule yields_bnd, rule tables_ok_ip_get)
    fix r assume r: "creds_readable (run_faults c) r"
    have q: "creds_readable (run_faults c) (proxy_query e ip port)" by (rule query_readable [OF True])
    show "yields (tabs_inv c e) (run_faults c) (creds_readable (run_faults c)) (case r of
         Some cr \<Rightarrow> ret (Some cr)
       | None \<Rightarrow> (case proxy_query e ip port of None \<Rightarrow> ret None | Some cr \<Rightarrow> bnd (ip_put e ip cr) (\<lambda>_. ret (Some cr))))"
      using r q by (cases r; cases "proxy_query e ip port")
        (auto intro!: yields_ret yields_put tables_ok_ip_put)
  qed
qed (simp add: yields_def triple_def)

interpretation tabs: session_inv "tabs_inv c e" "run_faults c" e for c e
proof unfold_locales
  show "stays (tabs_inv c e) (run_faults c) (dns_get e n)" for n by (rule tables_ok_dns)
  show "yields (tabs_inv c e) (run_faults c) (creds_readable (run_faults c)) (proxy_creds_of e ip port)" for ip port
    by (rule tables_ok_creds)
  show "stays (tabs_inv c e) (run_faults c) (dns_put e n a)" if "resolve e n = Some a" for n a
    using that by (rule tables_ok_dns)
qed (simp_all add: off_wire_def tables_ok_def)

end
