(* ===== verification/Silk_Names.thy ===== *)
theory Silk_Names
  imports Silk_Session_Safety
begin

section \<open>Name resolution (host_serv.c)\<close>

text \<open>
  \<open>host_serv\<close> asks the C library's \<open>getaddrinfo\<close>, which looks names up in files and over the
  network and is a parameter here: it gets the name and the hints and answers with an error
  number or with a list of addresses.  The last part shows that a resolver whose answers have the
  family that the hints ask for is what the sessions assume.
\<close>

definition AI_CANONNAME :: nat where
  "AI_CANONNAME = 2"

record hints =
  ai_flags :: nat
  ai_family :: sa_family
  ai_socktype :: nat

definition host_serv ::
  "(cstr option \<Rightarrow> cstr option \<Rightarrow> hints \<Rightarrow> int \<times> sockaddr list)
   \<Rightarrow> cstr option \<Rightarrow> cstr option \<Rightarrow> sa_family \<Rightarrow> nat \<Rightarrow> sockaddr list option"
where
  "host_serv getaddrinfo host serv family socktype =
     (case getaddrinfo host serv \<lparr>ai_flags = AI_CANONNAME, ai_family = family, ai_socktype = socktype\<rparr> of
        (n, res) \<Rightarrow> if n \<noteq> 0 then None else Some res)"

definition SOCK_STREAM :: nat where
  "SOCK_STREAM = 1"

text \<open>The address that \<open>socks5_readrequest\<close> takes for a name: the first one.\<close>

definition first_address ::
  "(cstr option \<Rightarrow> cstr option \<Rightarrow> hints \<Rightarrow> int \<times> sockaddr list) \<Rightarrow> cstr \<Rightarrow> byte list option"
where
  "first_address getaddrinfo name =
     map_option (\<lambda>res. sin_addr (hd res)) (host_serv getaddrinfo (Some name) None AF_INET SOCK_STREAM)"

text \<open>
  What the documentation of getaddrinfo promises of an answer without an error: there is at
  least one address, and all are of the family asked for.
\<close>

definition getaddrinfo_ok :: "(cstr option \<Rightarrow> cstr option \<Rightarrow> hints \<Rightarrow> int \<times> sockaddr list) \<Rightarrow> bool" where
  "getaddrinfo_ok gai \<longleftrightarrow>
     (\<forall>host serv h res. gai host serv h = (0, res) \<and> ai_family h = AF_INET \<longrightarrow>
        res \<noteq> [] \<and> (\<forall>a \<in> set res. sin_family a = AF_INET \<and> length (sin_addr a) = 4))"

lemma host_serv_env:
  assumes "getaddrinfo_ok gai" and "resolve e = first_address gai" and "t_check e \<le> t_put e"
    and "\<And>p t. tabs_ok enough t \<Longrightarrow> tabs_ok enough (others e p t)" and "enough \<longrightarrow> plenty e"
  shows "env_ok enough e"
proof -
  have "length a = 4" if "first_address gai n = Some a" for n a
  proof -
    from that obtain res where
      r: "gai (Some n) None \<lparr>ai_flags = AI_CANONNAME, ai_family = AF_INET, ai_socktype = SOCK_STREAM\<rparr> = (0, res)"
      and a: "a = sin_addr (hd res)"
      by (auto simp: first_address_def host_serv_def split: prod.splits if_splits)
    with assms(1) have "res \<noteq> []" "\<forall>x \<in> set res. length (sin_addr x) = 4"
      unfolding getaddrinfo_ok_def by fastforce+
    then show ?thesis using a by simp
  qed
  then show ?thesis using assms(2-5) by (simp add: env_ok_def)
qed

end
