(* ===== verification/Silk_Relay_Live.thy ===== *)
theory Silk_Relay_Live
  imports Silk_Relay_Poll
begin

section \<open>The poll relay finishes its work\<close>

text \<open>
  Liveness of the poll relay.  Here poll tells the truth: a descriptor is readable or
  writable exactly when its script has something left.  Besides, poll reports a hang-up or an
  error (POLLHUP, POLLERR) of a socket also when it was not asked for; in which states it does
  is the parameter \<open>hup\<close>.  It times out when none of the events asked for is ready and there is
  no hang-up.  Driven this way the loop returns after a number of turns bounded by \<open>work\<close>, or
  comes to a state with a hang-up and nothing it asked for, and goes round for ever; and when
  there is no hang-up, both peers keep reading and the client closes its side, all bytes are
  delivered in both directions and the close is passed on.
\<close>

definition asked :: "relay \<Rightarrow> bool" where
  "asked r \<longleftrightarrow> inp (cli r) \<noteq> [] \<and> want_cli_in r \<or> inp (prx r) \<noteq> [] \<and> want_prx_in r
     \<or> room (cli r) \<noteq> [] \<and> want_cli_out r \<or> room (prx r) \<noteq> [] \<and> want_prx_out r"

definition honest :: "(relay \<Rightarrow> bool) \<Rightarrow> relay \<Rightarrow> poll_ev" where
  "honest hup r =
     (if asked r then Poll_Ready (inp (cli r) \<noteq> []) (room (cli r) \<noteq> []) (inp (prx r) \<noteq> []) (room (prx r) \<noteq> [])
      else if hup r then Poll_Ready False False False False
      else Poll_Timeout)"

fun drive :: "(relay \<Rightarrow> bool) \<Rightarrow> nat \<Rightarrow> relay \<Rightarrow> relay \<times> nat option" where
  "drive hup 0 r = (r, None)"
| "drive hup (Suc n) r =
     (case relay_step r (honest hup r) of
        (r', None) \<Rightarrow> drive hup n r'
      | (r', Some st) \<Rightarrow> (r', Some st))"

abbreviation no_hup :: "relay \<Rightarrow> bool" where
  "no_hup \<equiv> \<lambda>_. False"

definition work :: "relay \<Rightarrow> nat" where
  "work r = 2 * ev_size (inp (cli r)) + 2 * ev_size (inp (prx r))
     + length (room (cli r)) + length (room (prx r))
     + length (v_pend (up r)) + length (v_pend (down r)) + (if clienteof r then 0 else 1)"

subsection \<open>Every part of the body makes progress\<close>

lemma sys_read_work:
  assumes "0 < n"
  shows "case sys_read n es of
      (RdBytes bs, es') \<Rightarrow> ev_size es' + length bs \<le> ev_size es
    | (RdErr e, es') \<Rightarrow> es \<noteq> [] \<longrightarrow> ev_size es' < ev_size es"
  using assms by (induction n es rule: sys_read.induct) (auto split: prod.splits rd_result.splits)

lemma sys_write_work:
  "0 < n \<Longrightarrow> sys_write n es = (WrErr e, es') \<Longrightarrow> es \<noteq> [] \<Longrightarrow> length es' < length es"
  "0 < n \<Longrightarrow> sys_write n es = (WrCount k, es') \<Longrightarrow>
     es \<noteq> [] \<and> k \<le> n \<and> length es' \<le> length es \<and> (k = 0 \<longrightarrow> length es' < length es)"
  by (cases "(n, es)" rule: sys_write.cases; auto split: if_splits)+

definition progress :: "bool \<Rightarrow> relay \<Rightarrow> relay flow \<Rightarrow> bool" where
  "progress strict r f \<longleftrightarrow> is_ret f \<or> (if strict then work (after f) < work r else work (after f) \<le> work r)"

lemma cli_read_progress:
  assumes ok: "relay_ok r" and rdy: "rdy \<Longrightarrow> want_cli_in r"
  shows "progress (rdy \<and> inp (cli r) \<noteq> []) r (cli_read poll_errno rdy r)"
proof (cases rdy)
  case False
  then show ?thesis by (simp add: progress_def cli_read_def)
next
  case True
  let ?n = "BUFSIZE - length (to_buf r)"
  have n: "0 < ?n" "\<not> clienteof r" using rdy [OF True] by (auto simp: want_cli_in_def)
  have i: "too r \<le> length (to_buf r)" using ok buf_okD(2) by (auto simp: relay_ok_def)
  obtain res es where rd: "sys_read ?n (inp (cli r)) = (res, es)" by (cases "sys_read ?n (inp (cli r))")
  note w = sys_read_work [OF n(1), of "inp (cli r)", unfolded rd prod.case]
  have e: "inp (cli r) = [] \<Longrightarrow> es = []" using rd by auto
  show ?thesis
  proof (cases res)
    case (RdErr er)
    then show ?thesis using True rd w n i e
      by (auto simp: progress_def poll_errno_def cli_read_def Let_def work_def up_def down_def)
  next
    case (RdBytes bs)
    then show ?thesis using True rd w n i e
      by (cases bs) (auto simp: progress_def poll_errno_def cli_read_def Let_def work_def up_def down_def)
  qed
qed

lemma prx_read_progress:
  assumes ok: "relay_ok r" and rdy: "rdy \<Longrightarrow> length (fr_buf r) < BUFSIZE"
  shows "progress (rdy \<and> inp (prx r) \<noteq> []) r (prx_read poll_errno rdy r)"
proof (cases rdy)
  case False
  then show ?thesis by (simp add: progress_def prx_read_def)
next
  case True
  let ?n = "BUFSIZE - length (fr_buf r)"
  have n: "0 < ?n" using rdy [OF True] by simp
  have i: "fro r \<le> length (fr_buf r)" using ok buf_okD(2) by (auto simp: relay_ok_def)
  obtain res es where rd: "sys_read ?n (inp (prx r)) = (res, es)" by (cases "sys_read ?n (inp (prx r))")
  note w = sys_read_work [OF n(1), of "inp (prx r)", unfolded rd prod.case]
  have e: "inp (prx r) = [] \<Longrightarrow> es = []" using rd by auto
  show ?thesis
  proof (cases res)
    case (RdErr er)
    then show ?thesis using True rd w n i e
      by (auto simp: progress_def poll_errno_def prx_read_def Let_def work_def up_def down_def)
  next
    case (RdBytes bs)
    then show ?thesis using True rd w n i e
      by (cases bs) (auto simp: progress_def poll_errno_def prx_read_def Let_def work_def up_def down_def)
  qed
qed

lemma cli_write_progress:
  assumes "relay_ok r"
  shows "progress (rdy \<and> want_cli_out r \<and> room (cli r) \<noteq> []) r (cli_write poll_errno rdy r)"
proof (cases "rdy \<and> fro r < length (fr_buf r)")
  case False
  moreover have "buf_ok (fr_buf r) (fro r)" using assms by (simp add: relay_ok_def)
  ultimately show ?thesis
    by (auto simp: progress_def poll_errno_def cli_write_def Let_def want_cli_out_def buf_ok_def)
next
  case True
  let ?n = "length (fr_buf r) - fro r"
  have n: "0 < ?n" using True by simp
  obtain res es where wr: "sys_write ?n (room (cli r)) = (res, es)" by (cases "sys_write ?n (room (cli r))")
  have e: "room (cli r) = [] \<Longrightarrow> es = []" using wr by auto
  show ?thesis
  proof (cases res)
    case (WrErr er)
    then show ?thesis using True wr e sys_write_work(1) [OF n wr [unfolded WrErr]]
      by (cases "room (cli r) = []")
         (auto simp: progress_def poll_errno_def cli_write_def Let_def work_def up_def down_def)
  next
    case (WrCount k)
    note w = sys_write_work(2) [OF n wr [unfolded WrCount]]
    let ?r = "after (cli_write poll_errno rdy r)"
    have "work ?r + k + length (room (cli r)) = work r + length es" "\<not> is_ret (cli_write poll_errno rdy r)"
      using True wr WrCount w
      by (auto simp: cli_write_def Let_def work_def up_def down_def)
    then show ?thesis using w by (auto simp: progress_def)
  qed
qed

lemma prx_write_progress:
  assumes "relay_ok r"
  shows "progress (rdy \<and> want_prx_out r \<and> room (prx r) \<noteq> []) r (prx_write poll_errno rdy r)"
proof (cases "rdy \<and> too r < length (to_buf r)")
  case False
  moreover have "buf_ok (to_buf r) (too r)" using assms by (simp add: relay_ok_def)
  ultimately show ?thesis
    by (auto simp: progress_def poll_errno_def prx_write_def Let_def want_prx_out_def buf_ok_def)
next
  case True
  let ?n = "length (to_buf r) - too r"
  have n: "0 < ?n" using True by simp
  obtain res es where wr: "sys_write ?n (room (prx r)) = (res, es)" by (cases "sys_write ?n (room (prx r))")
  have e: "room (prx r) = [] \<Longrightarrow> es = []" using wr by auto
  show ?thesis
  proof (cases res)
    case (WrErr er)
    then show ?thesis using True wr e sys_write_work(1) [OF n wr [unfolded WrErr]]
      by (cases "room (prx r) = []")
         (auto simp: progress_def poll_errno_def prx_write_def Let_def work_def up_def down_def)
  next
    case (WrCount k)
    note w = sys_write_work(2) [OF n wr [unfolded WrCount]]
    let ?r = "after (prx_write poll_errno rdy r)"
    have "work ?r + k + length (room (prx r)) = work r + length es" "\<not> is_ret (prx_write poll_errno rdy r)"
      using True wr WrCount w
      by (auto simp: prx_write_def Let_def work_def up_def down_def)
    then show ?thesis using w by (auto simp: progress_def)
  qed
qed

subsection \<open>The loop returns\<close>

text \<open>A part that is well behaved from any state, and whether it moves the work forward.\<close>

definition part_ok :: "bool \<Rightarrow> relay \<Rightarrow> relay flow \<Rightarrow> bool" where
  "part_ok strict r f \<longleftrightarrow> turn_ok r f \<and> progress strict r f"

lemma part_ok_andthen:
  assumes "part_ok b r f" and "\<And>r1. f = Go r1 \<Longrightarrow> relay_ok r1 \<Longrightarrow> part_ok False r1 (g r1)"
  shows "part_ok b r (andthen f g)"
proof (cases f)
  case (Go r1)
  with assms(1) have "relay_ok r1" by (simp add: part_ok_def turn_ok_def)
  from assms(2) [OF Go this] Go assms(1) show ?thesis
    using turn_ok_andthen [of r f g] assms
    by (auto simp: part_ok_def progress_def split: if_splits)
qed (use assms(1) in simp_all)

lemma part_ok_weaken: "part_ok b r f \<Longrightarrow> part_ok False r f"
  by (auto simp: part_ok_def progress_def split: if_splits)

lemma parts_ok:
  assumes "relay_ok r"
  shows "(rdy \<Longrightarrow> want_cli_in r) \<Longrightarrow> part_ok (rdy \<and> inp (cli r) \<noteq> []) r (cli_read poll_errno rdy r)"
    and "(rdy \<Longrightarrow> length (fr_buf r) < BUFSIZE) \<Longrightarrow> part_ok (rdy \<and> inp (prx r) \<noteq> []) r (prx_read poll_errno rdy r)"
    and "part_ok (rdy \<and> want_cli_out r \<and> room (cli r) \<noteq> []) r (cli_write poll_errno rdy r)"
    and "part_ok (rdy \<and> want_prx_out r \<and> room (prx r) \<noteq> []) r (prx_write poll_errno rdy r)"
  using turn_ok_parts [OF errno_ok_poll assms, of rdy] cli_read_progress [OF assms, of rdy]
    prx_read_progress [OF assms, of rdy] cli_write_progress [OF assms, of rdy]
    prx_write_progress [OF assms, of rdy]
  by (simp_all add: part_ok_def)

lemma parts_idle:
  "cli_read poll_errno False r = Go r" "prx_read poll_errno False r = Go r" "cli_write poll_errno False r = Go r"
  "prx_write poll_errno False r = Go r"
  by (simp_all add: cli_read_def prx_read_def cli_write_def prx_write_def)

lemma relay_turn_progress:
  assumes ok: "relay_ok r"
    and "asked r \<or> \<not> hup r"
  shows "part_ok True r (relay_turn r (honest hup r))"
proof -
  let ?ci = "inp (cli r) \<noteq> [] \<and> want_cli_in r" and ?pi = "inp (prx r) \<noteq> [] \<and> want_prx_in r"
  let ?co = "room (cli r) \<noteq> [] \<and> want_cli_out r" and ?po = "room (prx r) \<noteq> [] \<and> want_prx_out r"
  have len: "length (fr_buf r1) < BUFSIZE" if "cli_read poll_errno rdy r = Go r1" "want_prx_in r" for rdy r1
    using that cli_read_frame [OF errno_ok_poll, of rdy r] by (simp add: want_prx_in_def)
  note weak = parts_ok [THEN part_ok_weaken]
  consider (idle) "\<not> ?ci" "\<not> ?pi" "\<not> ?co" "\<not> ?po" | (ci) ?ci | (pi) "\<not> ?ci" ?pi
    | (co) "\<not> ?ci" "\<not> ?pi" ?co | (po) "\<not> ?ci" "\<not> ?pi" "\<not> ?co" ?po by blast
  then show ?thesis
  proof cases
    case idle
    then have "honest hup r = Poll_Timeout" using assms(2) by (auto simp: honest_def asked_def)
    then show ?thesis using ok by (simp add: part_ok_def progress_def turn_ok_def)
  next
    case ci
    then have h: "honest hup r = Poll_Ready True (room (cli r) \<noteq> []) (inp (prx r) \<noteq> []) (room (prx r) \<noteq> [])"
      by (auto simp: honest_def asked_def)
    have "part_ok True r (cli_read poll_errno True r)" using parts_ok(1) [OF ok, of True] ci by simp
    with ci show ?thesis unfolding h relay_turn.simps
      by (simp, intro part_ok_andthen weak) (auto intro: len)
  next
    case pi
    then have h: "honest hup r = Poll_Ready (inp (cli r) \<noteq> []) (room (cli r) \<noteq> []) True (room (prx r) \<noteq> [])"
      by (auto simp: honest_def asked_def)
    have "part_ok True r (prx_read poll_errno True r)"
      using parts_ok(2) [OF ok, of True] pi by (simp add: want_prx_in_def)
    moreover have no: "?ci = False" using pi by (simp only: not_False_eq_True)
    ultimately show ?thesis using pi unfolding h relay_turn.simps no parts_idle andthen.simps
      by (simp, intro part_ok_andthen weak) auto
  next
    case co
    then have h: "honest hup r = Poll_Ready (inp (cli r) \<noteq> []) True (inp (prx r) \<noteq> []) (room (prx r) \<noteq> [])"
      by (auto simp: honest_def asked_def)
    have "part_ok True r (cli_write poll_errno True r)" using parts_ok(3) [OF ok, of True] co by simp
    moreover have no: "?ci = False" "?pi = False" using co by (simp_all only: not_False_eq_True)
    ultimately show ?thesis using co unfolding h relay_turn.simps no parts_idle andthen.simps
      by (simp, intro part_ok_andthen weak) auto
  next
    case po
    then have h: "honest hup r = Poll_Ready (inp (cli r) \<noteq> []) (room (cli r) \<noteq> []) (inp (prx r) \<noteq> []) True"
      by (auto simp: honest_def asked_def)
    have "part_ok True r (prx_write poll_errno True r)" using parts_ok(4) [OF ok, of True] po by simp
    moreover have no: "?ci = False" "?pi = False" "?co = False"
      using po by (simp_all only: not_False_eq_True)
    ultimately show ?thesis using po unfolding h relay_turn.simps no parts_idle andthen.simps
      by simp
  qed
qed

text \<open>With a hang-up and nothing that was asked for, a turn changes nothing.\<close>

lemma hup_turn: "\<not> asked r \<Longrightarrow> hup r \<Longrightarrow> relay_step r (honest hup r) = (r, None)"
  by (simp add: honest_def relay_step_def parts_idle)

lemma hup_spins: "\<not> asked r \<Longrightarrow> hup r \<Longrightarrow> drive hup n r = (r, None)"
  by (induction n) (simp_all add: hup_turn)

lemma drive_more: "drive hup n r = (r', None) \<Longrightarrow> drive hup (n + m) r = drive hup m r'"
  by (induction n arbitrary: r) (auto split: prod.splits option.splits)

lemma drive_prefix: "drive hup n r = (r', None) \<Longrightarrow> m \<le> n \<Longrightarrow> \<exists>r1. drive hup m r = (r1, None)"
proof (induction n arbitrary: m r)
  case (Suc n)
  then show ?case by (cases m) (auto split: prod.splits option.splits)
qed simp

lemma drive_returns:
  "relay_ok r \<Longrightarrow> work r < n \<Longrightarrow>
     (\<exists>r' st. drive hup n r = (r', Some st)) \<or> (\<exists>r'. drive hup n r = (r', None) \<and> \<not> asked r' \<and> hup r')"
proof (induction n arbitrary: r)
  case (Suc n)
  show ?case
  proof (cases "asked r \<or> \<not> hup r")
    case False
    then show ?thesis using hup_spins [of r hup "Suc n"] by blast
  next
    case True
    let ?f = "relay_turn r (honest hup r)"
    have p: "relay_ok (after ?f)" "is_ret ?f \<or> work (after ?f) < work r"
      using relay_turn_progress [where hup = hup, OF Suc.prems(1) True] by (auto simp: part_ok_def turn_ok_def progress_def)
    show ?thesis
    proof (cases "is_ret ?f")
      case True
      then obtain st r' where "?f = Ret st r'" by (auto simp: is_ret_def)
      then show ?thesis by (simp add: relay_step_def)
    next
      case False
      then have "relay_step r (honest hup r) = (after ?f, None)"
        by (cases ?f) (auto simp: relay_step_def)
      with False p Suc.IH [of "after ?f"] Suc.prems(2) show ?thesis by simp
    qed
  qed
qed simp

subsection \<open>Everything is delivered\<close>

text \<open>
  The client will close its side, the proxy stays silent at the end, and both peers take all
  there is for them.
\<close>

definition healthy :: "relay \<Rightarrow> bool" where
  "healthy r \<longleftrightarrow>
     stream_end (inp (cli r)) = Some REof \<and> stream_end (inp (prx r)) = None
     \<and> length (v_pend (up r)) + length (v_src (up r)) \<le> capacity (room (prx r))
     \<and> length (v_pend (down r)) + length (v_src (down r)) \<le> capacity (room (cli r))"

lemma sys_write_ample:
  assumes "0 < n" and "n \<le> capacity es" and "sys_write n es = (res, es')"
  shows "case res of
      WrErr e \<Rightarrow> e = EINTR \<and> capacity es' = capacity es
    | WrCount k \<Rightarrow> k \<le> n \<and> capacity es = k + capacity es'"
  using sys_write_capacity [OF assms(1), of es] assms
  by (auto split: wr_result.splits if_splits)

lemma cli_read_healthy:
  assumes ok: "relay_ok r" and h: "healthy r" and rdy: "rdy \<Longrightarrow> want_cli_in r"
  shows "\<not> is_ret (cli_read poll_errno rdy r) \<and> healthy (after (cli_read poll_errno rdy r))"
proof (cases rdy)
  case False
  then show ?thesis using h by (simp add: cli_read_def)
next
  case True
  let ?n = "BUFSIZE - length (to_buf r)"
  have n: "0 < ?n" using rdy [OF True] by (auto simp: want_cli_in_def)
  have i: "too r \<le> length (to_buf r)" using ok buf_okD(2) by (auto simp: relay_ok_def)
  obtain res es where rd: "sys_read ?n (inp (cli r)) = (res, es)" by (cases "sys_read ?n (inp (cli r))")
  note s = sys_read_stream [OF n(1), of "inp (cli r)", unfolded rd prod.case]
  show ?thesis
  proof (cases res)
    case (RdErr er)
    with s h have "er = EINTR" by (auto simp: healthy_def split: if_splits)
    with RdErr rd True s h show ?thesis
      by (simp add: cli_read_def Let_def poll_errno_def healthy_def up_def down_def)
  next
    case (RdBytes bs)
    with rd True s h i show ?thesis
      by (cases bs) (auto simp: cli_read_def Let_def healthy_def up_def down_def)
  qed
qed

lemma prx_read_healthy:
  assumes ok: "relay_ok r" and h: "healthy r" and rdy: "rdy \<Longrightarrow> length (fr_buf r) < BUFSIZE"
  shows "\<not> is_ret (prx_read poll_errno rdy r) \<and> healthy (after (prx_read poll_errno rdy r))"
proof (cases rdy)
  case False
  then show ?thesis using h by (simp add: prx_read_def)
next
  case True
  let ?n = "BUFSIZE - length (fr_buf r)"
  have n: "0 < ?n" using rdy [OF True] by simp
  have i: "fro r \<le> length (fr_buf r)" using ok buf_okD(2) by (auto simp: relay_ok_def)
  obtain res es where rd: "sys_read ?n (inp (prx r)) = (res, es)" by (cases "sys_read ?n (inp (prx r))")
  note s = sys_read_stream [OF n(1), of "inp (prx r)", unfolded rd prod.case]
  show ?thesis
  proof (cases res)
    case (RdErr er)
    have "er \<noteq> EOTHER" using sys_read_fail rd RdErr h by (auto simp: healthy_def)
    then have er: "er = EAGAIN \<or> er = EINTR" by (cases er) auto
    with RdErr rd True h sys_read_retry [OF rd [unfolded RdErr] er] show ?thesis
      by (auto simp: prx_read_def Let_def poll_errno_def healthy_def up_def down_def)
  next
    case (RdBytes bs)
    with rd True s h i show ?thesis
      by (cases bs) (auto simp: prx_read_def Let_def healthy_def up_def down_def)
  qed
qed

lemma cli_write_healthy:
  assumes ok: "relay_ok r" and h: "healthy r"
  shows "\<not> is_ret (cli_write poll_errno rdy r) \<and> healthy (after (cli_write poll_errno rdy r))"
proof (cases "rdy \<and> fro r < length (fr_buf r)")
  case False
  then show ?thesis using h by (auto simp: cli_write_def Let_def)
next
  case True
  let ?n = "length (fr_buf r) - fro r"
  obtain res es where wr: "sys_write ?n (room (cli r)) = (res, es)" by (cases "sys_write ?n (room (cli r))")
  have "0 < ?n" "?n \<le> capacity (room (cli r))" using True h by (auto simp: healthy_def down_def)
  from sys_write_ample [OF this wr] wr True h show ?thesis
    by (cases res) (auto simp: cli_write_def Let_def poll_errno_def healthy_def up_def down_def)
qed

lemma prx_write_healthy:
  assumes ok: "relay_ok r" and h: "healthy r"
  shows "\<not> is_ret (prx_write poll_errno rdy r) \<and> healthy (after (prx_write poll_errno rdy r))"
proof (cases "rdy \<and> too r < length (to_buf r)")
  case False
  then show ?thesis using h by (auto simp: prx_write_def Let_def)
next
  case True
  let ?n = "length (to_buf r) - too r"
  obtain res es where wr: "sys_write ?n (room (prx r)) = (res, es)" by (cases "sys_write ?n (room (prx r))")
  have "0 < ?n" "?n \<le> capacity (room (prx r))" using True h by (auto simp: healthy_def up_def)
  from sys_write_ample [OF this wr] wr True h show ?thesis
    by (cases res) (auto simp: prx_write_def Let_def poll_errno_def healthy_def up_def down_def)
qed

definition sound :: "relay \<Rightarrow> relay flow \<Rightarrow> bool" where
  "sound r f \<longleftrightarrow> turn_ok r f \<and> \<not> is_ret f \<and> healthy (after f)"

lemma sound_andthen:
  assumes "sound r f" and "\<And>r1. f = Go r1 \<Longrightarrow> relay_ok r1 \<Longrightarrow> healthy r1 \<Longrightarrow> sound r1 (g r1)"
  shows "sound r (andthen f g)"
proof (cases f)
  case (Go r1)
  with assms(1) have "relay_ok r1" "healthy r1" by (simp_all add: sound_def turn_ok_def)
  with assms(2) [OF Go] Go turn_ok_andthen [of r f g] assms show ?thesis
    by (auto simp: sound_def)
qed (use assms(1) in simp_all)

lemma parts_sound:
  assumes "relay_ok r" and "healthy r"
  shows "(rdy \<Longrightarrow> want_cli_in r) \<Longrightarrow> sound r (cli_read poll_errno rdy r)"
    and "(rdy \<Longrightarrow> length (fr_buf r) < BUFSIZE) \<Longrightarrow> sound r (prx_read poll_errno rdy r)"
    and "sound r (cli_write poll_errno rdy r)"
    and "sound r (prx_write poll_errno rdy r)"
  using turn_ok_parts [OF errno_ok_poll assms(1), of rdy] cli_read_healthy [OF assms, of rdy]
    prx_read_healthy [OF assms, of rdy] cli_write_healthy [OF assms, of rdy]
    prx_write_healthy [OF assms, of rdy]
  by (simp_all add: sound_def)

lemma relay_turn_sound:
  assumes "relay_ok r" and "healthy r"
  shows "sound r (relay_turn r (Poll_Ready ci co pi po))"
proof -
  have "length (fr_buf r1) < BUFSIZE" if "cli_read poll_errno rdy r = Go r1" "want_prx_in r" for rdy r1
    using that cli_read_frame [OF errno_ok_poll, of rdy r] by (simp add: want_prx_in_def)
  then show ?thesis
    unfolding relay_turn.simps by (intro sound_andthen parts_sound assms) auto
qed

text \<open>When a healthy relay has nothing left to wait for, all bytes are through.\<close>

lemma honest_idle:
  assumes ok: "relay_ok r" and h: "healthy r" and idle: "honest no_hup r = Poll_Timeout"
  shows "fins r = 1" and "v_pend (up r) = []" and "v_src (up r) = []"
    and "v_pend (down r) = []" and "v_src (down r) = []"
proof -
  have no: "\<not> (inp (cli r) \<noteq> [] \<and> want_cli_in r)" "\<not> (inp (prx r) \<noteq> [] \<and> want_prx_in r)"
      "\<not> (room (cli r) \<noteq> [] \<and> want_cli_out r)" "\<not> (room (prx r) \<noteq> [] \<and> want_prx_out r)"
    using idle by (auto simp: honest_def asked_def split: if_splits)
  have b: "buf_ok (to_buf r) (too r)" "buf_ok (fr_buf r) (fro r)" using ok by (auto simp: relay_ok_def)
  have "room (prx r) = [] \<Longrightarrow> v_pend (up r) = []" "room (cli r) = [] \<Longrightarrow> v_pend (down r) = []"
    using h by (auto simp: healthy_def)
  then have e: "to_buf r = []" "fr_buf r = []"
    using no(3,4) b by (auto simp: want_cli_out_def want_prx_out_def up_def down_def buf_ok_def)
  then show "v_pend (up r) = []" "v_pend (down r) = []" by (simp_all add: up_def down_def)
  have "inp (prx r) = []" using no(2) e by (simp add: want_prx_in_def)
  then show "v_src (down r) = []" by (simp add: down_def)
  have "inp (cli r) \<noteq> []" using h by (auto simp: healthy_def)
  then have eof: "clienteof r" using no(1) e by (simp add: want_cli_in_def)
  then show "fins r = 1" using ok e by (simp add: relay_ok_def)
  show "v_src (up r) = []" using ok eof by (simp add: relay_ok_def up_def)
qed

lemma drive_delivers:
  assumes "relay_ok r" and "healthy r" and "work r < n"
  obtains r' where "drive no_hup n r = (r', Some 6)" and "fins r' = 1"
    and "v_out (up r') = v_out (up r) @ v_pend (up r) @ v_src (up r)"
    and "v_out (down r') = v_out (down r) @ v_pend (down r) @ v_src (down r)"
proof -
  have "\<exists>r'. drive no_hup n r = (r', Some 6) \<and> fins r' = 1
      \<and> v_out (up r') = v_out (up r) @ v_pend (up r) @ v_src (up r)
      \<and> v_out (down r') = v_out (down r) @ v_pend (down r) @ v_src (down r)"
    using assms
  proof (induction n arbitrary: r)
    case (Suc n)
    show ?case
    proof (cases "honest no_hup r = Poll_Timeout")
      case True
      then show ?thesis using honest_idle [OF Suc.prems(1,2)] by (simp add: relay_step_def)
    next
      case False
      then obtain ci co pi po where h: "honest no_hup r = Poll_Ready ci co pi po"
        by (auto simp: honest_def asked_def split: if_splits)
      let ?f = "relay_turn r (honest no_hup r)"
      have s: "sound r ?f" unfolding h by (rule relay_turn_sound [OF Suc.prems(1,2)])
      then have t: "relay_ok (after ?f)" "healthy (after ?f)" "\<not> is_ret ?f"
          "carries True (up r) (up (after ?f))" "carries True (down r) (down (after ?f))"
        unfolding sound_def turn_ok_def by (auto elim: carries_mono)
      then have "work (after ?f) < work r"
        using relay_turn_progress [OF Suc.prems(1), of no_hup] by (auto simp: part_ok_def progress_def)
      with Suc.IH [OF t(1,2)] Suc.prems(3) obtain r' where r': "drive no_hup n (after ?f) = (r', Some 6)" "fins r' = 1"
          "v_out (up r') = v_out (up (after ?f)) @ v_pend (up (after ?f)) @ v_src (up (after ?f))"
          "v_out (down r') = v_out (down (after ?f)) @ v_pend (down (after ?f)) @ v_src (down (after ?f))"
        by auto
      have "relay_step r (honest no_hup r) = (after ?f, None)"
        using t(3) by (cases ?f) (auto simp: relay_step_def)
      with r' t(4,5) show ?thesis by (auto simp: carries_def)
    qed
  qed simp
  then show thesis using that by blast
qed

subsection \<open>Properties\<close>

text \<open>C10: The relay comes to an end, or spins on a hang-up.  Driven by a truthful poll, a relay
  started on any two sockets has, after at most \<open>work + 1\<close> turns, either returned a status, or come
  to a state where nothing it asked for is ready while poll reports a hang-up or an error: there
  poll returns at once, every turn leaves the relay as it is, and it never returns.  So without
  hang-ups it always returns.\<close>

theorem negotiate_terminates:
  "(\<exists>r st. drive hup (work (relay_init c p) + 1) (relay_init c p) = (r, Some st))
   \<or> (\<exists>r. drive hup (work (relay_init c p) + 1) (relay_init c p) = (r, None)
        \<and> \<not> asked r \<and> hup r \<and> relay_step r (honest hup r) = (r, None)
        \<and> (\<forall>n. \<exists>r'. drive hup n (relay_init c p) = (r', None)))"
proof -
  let ?r = "relay_init c p" and ?n = "work (relay_init c p) + 1"
  have spin: "\<exists>r'. drive hup n ?r = (r', None)" if "drive hup ?n ?r = (r, None)" "\<not> asked r" "hup r" for r n
  proof (cases "n \<le> ?n")
    case True
    then show ?thesis using drive_prefix [OF that(1) True] by blast
  next
    case False
    then have "drive hup n ?r = drive hup (n - ?n) r" using drive_more [OF that(1), of "n - ?n"] by simp
    then show ?thesis using hup_spins [where hup = hup, OF that(2,3)] by auto
  qed
  show ?thesis using drive_returns [OF relay_ok_init, of c p ?n hup] spin hup_turn by fastforce
qed

text \<open>The client closes, the proxy stays silent, and then the client's side is reset.\<close>

lemma ex_hup:
  "\<exists>r. drive clienteof (Suc n) (relay_init (sock_of [REof] []) (sock_of [] [])) = (r, None)"
proof -
  let ?r = "relay_init (sock_of [REof] []) (sock_of [] [])"
  have a: "asked ?r" "BUFSIZE \<noteq> 0"
    by (simp_all add: asked_def want_cli_in_def relay_init_def sock_of_def BUFSIZE_def)
  then have "\<exists>r. relay_step ?r (honest clienteof ?r) = (r, None) \<and> \<not> asked r \<and> clienteof r"
    by (simp add: honest_def relay_step_def cli_read_def Let_def relay_init_def sock_of_def want_cli_in_def
        want_prx_in_def want_cli_out_def want_prx_out_def asked_def prx_read_def cli_write_def prx_write_def)
  then obtain r where "relay_step ?r (honest clienteof ?r) = (r, None)" "\<not> asked r" "clienteof r" by blast
  with hup_spins [of r clienteof n] show ?thesis by simp
qed

lemma negotiate_terminates_witness:
  "\<forall>n. \<exists>r. drive clienteof n (relay_init (sock_of [REof] []) (sock_of [] [])) = (r, None)"
  using negotiate_terminates [of clienteof "sock_of [REof] []" "sock_of [] []"]
    ex_hup [of "work (relay_init (sock_of [REof] []) (sock_of [] []))"] by auto

text \<open>C8: Complete delivery.  When the client sends its bytes and closes, the proxy sends its bytes
  and stays silent, and both take what is sent to them, then every byte is delivered in both
  directions, the close is passed on once, and the relay ends when the idle time limit expires.\<close>

theorem negotiate_delivers:
  assumes "stream_end (inp c) = Some REof" and "stream_end (inp p) = None"
    and "length (stream (inp c)) \<le> capacity (room p)" and "length (stream (inp p)) \<le> capacity (room c)"
  shows "\<exists>n r. drive no_hup n (relay_init c p) = (r, Some 6) \<and> fins r = 1
     \<and> sent (prx r) = sent p @ stream (inp c) \<and> sent (cli r) = sent c @ stream (inp p)"
proof -
  let ?r = "relay_init c p"
  have "healthy ?r" using assms by (simp add: healthy_def relay_init_def up_def down_def)
  then obtain r' where "drive no_hup (Suc (work ?r)) ?r = (r', Some 6)" "fins r' = 1"
      "v_out (up r') = v_out (up ?r) @ v_pend (up ?r) @ v_src (up ?r)"
      "v_out (down r') = v_out (down ?r) @ v_pend (down ?r) @ v_src (down ?r)"
    using drive_delivers [OF relay_ok_init, of c p "Suc (work ?r)"] by blast
  then show ?thesis by (intro exI [of _ "Suc (work ?r)"] exI [of _ r']) (simp add: up_def down_def relay_init_def)
qed

lemma negotiate_delivers_witness:
  "\<exists>n r. drive no_hup n (relay_init (sock_of [RData [1], RIntr, RData [2], REof] [WSpace 3]) (sock_of [RData [3]] [WIntr, WSpace 1, WSpace 1]))
      = (r, Some 6) \<and> fins r = 1 \<and> sent (prx r) = [] @ [1, 2] \<and> sent (cli r) = [] @ [3]"
  using negotiate_delivers [of "sock_of [RData [1], RIntr, RData [2], REof] [WSpace 3]" "sock_of [RData [3]] [WIntr, WSpace 1, WSpace 1]"]
  by (simp add: sock_of_def)

end
