(* ===== verification/Silk_Relay_Select.thy ===== *)
theory Silk_Relay_Select
  imports Silk_Relay_Poll
begin

section \<open>The select relay (negotiate.c, USE_SELECT_NEGOTIATE)\<close>

text \<open>
  The loop body of the select variant: the same buffers and the same four parts, but EAGAIN
  goes on with the next part and every other error, EINTR included, ends the relay; there is
  no time limit; and after a read the other side's bit is set in the set that is tested
  further down, so that the bytes are offered to the peer in the same turn.
\<close>

datatype sel_ev = Sel_Err | Sel_Ready bool bool bool bool

definition sel_errno :: on_errno where
  "sel_errno e r = (if e = EAGAIN then Go r else Ret 1 r)"

lemma errno_ok_sel [simp]: "errno_ok sel_errno"
  by (auto simp: errno_ok_def sel_errno_def)

text \<open>
  \<open>to_buf r1 \<noteq> to_buf r\<close> says that \<open>cli_read\<close> got some bytes, which is when it executes
  \<open>FD_SET(proxyfd, &wset)\<close>; likewise for the other direction.
\<close>

fun sel_turn :: "relay \<Rightarrow> sel_ev \<Rightarrow> relay flow" where
  "sel_turn r Sel_Err = Ret 1 r"
| "sel_turn r (Sel_Ready ci co pi po) =
     andthen (cli_read sel_errno (ci \<and> want_cli_in r) r) (\<lambda>r1.
     andthen (prx_read sel_errno (pi \<and> want_prx_in r) r1) (\<lambda>r2.
     andthen (cli_write sel_errno (co \<and> want_cli_out r \<or> fr_buf r2 \<noteq> fr_buf r1) r2) (\<lambda>r3.
     prx_write sel_errno (po \<and> want_prx_out r \<or> to_buf r1 \<noteq> to_buf r) r3)))"

definition sel_step :: "relay \<Rightarrow> sel_ev \<Rightarrow> relay \<times> nat option" where
  "sel_step r ev = turn_end (sel_turn r ev)"

definition negotiate_select :: "bool \<Rightarrow> bool \<Rightarrow> sel_ev list \<Rightarrow> sock \<Rightarrow> sock \<Rightarrow> relay \<times> nat option" where
  "negotiate_select nb_cli nb_prx evs c p =
     (if \<not> nb_cli then (relay_init c p, Some 1)
      else if \<not> nb_prx then (relay_init c p, Some 1)
      else relay_run sel_step evs (relay_init c p))"

lemma sel_turn_ok:
  assumes "relay_ok r"
  shows "turn_ok r (sel_turn r ev)"
proof (cases ev)
  case (Sel_Ready ci co pi po)
  have "length (fr_buf r1) < BUFSIZE" if "cli_read sel_errno rdy r = Go r1" "want_prx_in r" for rdy r1
    using that cli_read_frame [OF errno_ok_sel, of rdy r] by (simp add: want_prx_in_def)
  then show ?thesis
    unfolding Sel_Ready sel_turn.simps
    by (intro turn_ok_andthen turn_ok_parts assms errno_ok_sel) auto
qed (use assms in \<open>simp add: turn_ok_def\<close>)

lemma sel_step_turn:
  "fst (sel_step r ev) = after (sel_turn r ev)"
  "snd (sel_step r ev) = None \<longleftrightarrow> \<not> is_ret (sel_turn r ev)"
  by (cases "sel_turn r ev"; simp add: sel_step_def)+

interpretation selr: byte_relay sel_step relay_ok up down fins
proof unfold_locales
  fix r ev r' st
  assume a: "relay_ok r" and st: "sel_step r ev = (r', st)"
  have "after (sel_turn r ev) = r'" and i: "is_ret (sel_turn r ev) \<longleftrightarrow> st \<noteq> None"
    using sel_step_turn [of r ev] st by auto
  with sel_turn_ok [OF a, of ev]
  show "relay_ok r'" "carries (st = None \<or> fins r' \<noteq> 0) (up r) (up r')"
    "carries (st = None) (down r) (down r')"
    unfolding turn_ok_def by simp_all
qed (fact pollr.fins_once, fact pollr.fins_last)

subsection \<open>Properties\<close>

text \<open>C20: The select variant keeps the same promises: prefixes in order in both directions, and the
  proxy side is shut down at most once and only after everything was delivered to it.\<close>

theorem negotiate_select_integrity:
  "case negotiate_select a b evs c p of (r, st) \<Rightarrow>
     (\<exists>out rest out' rest'.
       sent (prx r) = sent p @ out \<and> stream (inp c) = out @ rest
       \<and> sent (cli r) = sent c @ out' \<and> stream (inp p) = out' @ rest')
     \<and> fins r \<le> 1 \<and> (fins r = 0 \<or> sent (prx r) = sent p @ stream (inp c))"
proof (cases "a \<and> b")
  case False
  then show ?thesis by (auto simp: negotiate_select_def relay_init_def)
next
  case True
  obtain r st where run: "relay_run sel_step evs (relay_init c p) = (r, st)"
    by (cases "relay_run sel_step evs (relay_init c p)")
  have "\<exists>out rest out' rest'. sent (prx r) = sent p @ out \<and> stream (inp c) = out @ rest
       \<and> sent (cli r) = sent c @ out' \<and> stream (inp p) = out' @ rest'"
    using selr.run_prefix [OF relay_ok_init run] by (auto simp: up_def down_def relay_init_def)
  moreover have "fins r \<le> 1" "fins r = 0 \<or> sent (prx r) = sent p @ stream (inp c)"
    using selr.run_fin [OF relay_ok_init run] by (auto simp: up_def relay_init_def)
  ultimately show ?thesis using True run by (simp add: negotiate_select_def)
qed

text \<open>A signal ends the select relay.  It treats EINTR as fatal where the poll variant tries
  again: the same read, interrupted, ends the one with status 1 and leaves the other running.\<close>

theorem select_intr_fatal:
  assumes "want_cli_in r" and "inp (cli r) = RIntr # es"
  shows "snd (sel_step r (Sel_Ready True co pi po)) = Some 1
    \<and> snd (relay_step r (Poll_Ready True co pi po)) = None"
  using assms by (simp add: sel_step_def relay_step_def cli_read_def sel_errno_def poll_errno_def)

lemma select_intr_fatal_witness:
  "snd (sel_step (relay_init (sock_of [RIntr, RData [1]] []) (sock_of [] [])) (Sel_Ready True False False False)) = Some 1
    \<and> snd (relay_step (relay_init (sock_of [RIntr, RData [1]] []) (sock_of [] [])) (Poll_Ready True False False False)) = None"
  by (rule select_intr_fatal) (simp_all add: want_cli_in_def relay_init_def sock_of_def BUFSIZE_def)

end
