(* ===== verification/Silk_Relay_Splice.thy ===== *)
theory Silk_Relay_Splice
  imports Silk_Relay
begin

section \<open>The splice relay (negotiate.c, USE_SPLICE_NEGOTIATE)\<close>

text \<open>
  The variant that moves bytes through two kernel pipes without copying them to user space.
  \<open>pipecli\<close> and \<open>pipesrv\<close> are the bytes in the pipes and \<open>pcap\<close> is the capacity of a pipe
  (65536 bytes by default on Linux); \<open>npipecli\<close> and \<open>npipesrv\<close> are the counters the code
  keeps.  \<open>splice\<close> into a full pipe fails with EAGAIN at once, since the pipes are
  non-blocking.
\<close>

record splice_relay =
  pipecli :: "byte list"
  pipesrv :: "byte list"
  npipecli :: int
  npipesrv :: int
  pcap :: nat
  s_eof :: bool
  s_cli :: sock
  s_prx :: sock
  s_fins :: nat

definition splice_init :: "nat \<Rightarrow> sock \<Rightarrow> sock \<Rightarrow> splice_relay" where
  "splice_init cap c p =
     \<lparr>pipecli = [], pipesrv = [], npipecli = 0, npipesrv = 0, pcap = cap, s_eof = False,
      s_cli = c, s_prx = p, s_fins = 0\<rparr>"

definition splice_in :: "nat \<Rightarrow> byte list \<Rightarrow> rd_event list \<Rightarrow> rd_result \<times> rd_event list" where
  "splice_in cap pipe es =
     (if cap \<le> length pipe then (RdErr EAGAIN, es)
      else sys_read (min BUFSIZE (cap - length pipe)) es)"

definition splice_out :: "byte list \<Rightarrow> wr_event list \<Rightarrow> wr_result \<times> wr_event list" where
  "splice_out pipe es =
     (if pipe = [] then (WrErr EAGAIN, es) else sys_write (min BUFSIZE (length pipe)) es)"

definition splice_errno :: "errno \<Rightarrow> splice_relay \<Rightarrow> splice_relay flow" where
  "splice_errno e r = (if e = EAGAIN \<or> e = EINTR then Again r else Ret 1 r)"

subsection \<open>The four parts of the loop body\<close>

definition sp_cli_read :: "bool \<Rightarrow> splice_relay \<Rightarrow> splice_relay flow" where
  "sp_cli_read rdy r =
     (if \<not> rdy then Go r
      else case splice_in (pcap r) (pipecli r) (inp (s_cli r)) of
        (res, es) \<Rightarrow>
          (let r1 = r\<lparr>s_cli := (s_cli r)\<lparr>inp := es\<rparr>\<rparr> in
           case res of
             RdErr e \<Rightarrow> splice_errno e r1
           | RdBytes bs \<Rightarrow>
               if bs = [] then
                 Go (r1\<lparr>s_eof := True,
                        s_fins := (if npipecli r = 0 then s_fins r + 1 else s_fins r)\<rparr>)
               else Go (r1\<lparr>pipecli := pipecli r @ bs, npipecli := npipecli r + int (length bs)\<rparr>)))"

definition sp_prx_read :: "bool \<Rightarrow> splice_relay \<Rightarrow> splice_relay flow" where
  "sp_prx_read rdy r =
     (if \<not> rdy then Go r
      else case splice_in (pcap r) (pipesrv r) (inp (s_prx r)) of
        (res, es) \<Rightarrow>
          (let r1 = r\<lparr>s_prx := (s_prx r)\<lparr>inp := es\<rparr>\<rparr> in
           case res of
             RdErr e \<Rightarrow> splice_errno e r1
           | RdBytes bs \<Rightarrow>
               if bs = [] then (if s_eof r then Ret 0 r1 else Ret 1 r1)
               else Go (r1\<lparr>pipesrv := pipesrv r @ bs, npipesrv := npipesrv r + int (length bs)\<rparr>)))"

definition sp_cli_write :: "bool \<Rightarrow> splice_relay \<Rightarrow> splice_relay flow" where
  "sp_cli_write rdy r =
     (if \<not> (rdy \<and> 0 < npipesrv r) then Go r
      else case splice_out (pipesrv r) (room (s_cli r)) of
        (res, es) \<Rightarrow>
          (case res of
             WrErr e \<Rightarrow> splice_errno e (r\<lparr>s_cli := (s_cli r)\<lparr>room := es\<rparr>\<rparr>)
           | WrCount k \<Rightarrow>
               Go (r\<lparr>s_cli := (s_cli r)\<lparr>room := es, sent := sent (s_cli r) @ take k (pipesrv r)\<rparr>,
                     pipesrv := drop k (pipesrv r), npipesrv := npipesrv r - int k\<rparr>)))"

definition sp_prx_write :: "bool \<Rightarrow> splice_relay \<Rightarrow> splice_relay flow" where
  "sp_prx_write rdy r =
     (if \<not> (rdy \<and> 0 < npipecli r) then Go r
      else case splice_out (pipecli r) (room (s_prx r)) of
        (res, es) \<Rightarrow>
          (case res of
             WrErr e \<Rightarrow> splice_errno e (r\<lparr>s_prx := (s_prx r)\<lparr>room := es\<rparr>\<rparr>)
           | WrCount k \<Rightarrow>
               (let r1 = r\<lparr>s_prx := (s_prx r)\<lparr>room := es, sent := sent (s_prx r) @ take k (pipecli r)\<rparr>,
                           pipecli := drop k (pipecli r), npipecli := npipecli r - int k\<rparr>
                in Go (r1\<lparr>s_fins := (if npipecli r1 = 0 \<and> s_eof r1 then s_fins r1 + 1 else s_fins r1)\<rparr>))))"

fun splice_turn :: "splice_relay \<Rightarrow> poll_ev \<Rightarrow> splice_relay flow" where
  "splice_turn r (Poll_Err e) = splice_errno e r"
| "splice_turn r Poll_Timeout = Ret 6 r"
| "splice_turn r (Poll_Ready ci co pi po) =
     andthen (sp_cli_read (ci \<and> \<not> s_eof r \<and> npipecli r < int BUFSIZE) r) (\<lambda>r1.
     andthen (sp_prx_read (pi \<and> npipesrv r < int BUFSIZE) r1) (\<lambda>r2.
     andthen (sp_cli_write (co \<and> npipesrv r \<noteq> 0) r2) (\<lambda>r3.
     sp_prx_write (po \<and> npipecli r \<noteq> 0) r3)))"

definition splice_step :: "splice_relay \<Rightarrow> poll_ev \<Rightarrow> splice_relay \<times> nat option" where
  "splice_step r ev = turn_end (splice_turn r ev)"

text \<open>The third and fourth boolean say whether the two pipes can be made.\<close>

definition negotiate_splice ::
  "bool \<Rightarrow> bool \<Rightarrow> bool \<Rightarrow> bool \<Rightarrow> nat \<Rightarrow> poll_ev list \<Rightarrow> sock \<Rightarrow> sock \<Rightarrow> splice_relay \<times> nat option"
where
  "negotiate_splice nb_cli nb_prx pipe1 pipe2 cap evs c p =
     (if \<not> nb_cli then (splice_init cap c p, Some 1)
      else if \<not> nb_prx then (splice_init cap c p, Some 1)
      else if \<not> pipe1 then (splice_init cap c p, Some 1)
      else if \<not> pipe2 then (splice_init cap c p, Some 1)
      else relay_run splice_step evs (splice_init cap c p))"

subsection \<open>The pipes are queues\<close>

definition sp_up :: "splice_relay \<Rightarrow> view" where
  "sp_up r = \<lparr>v_src = stream (inp (s_cli r)), v_pend = pipecli r, v_out = sent (s_prx r)\<rparr>"

definition sp_down :: "splice_relay \<Rightarrow> view" where
  "sp_down r = \<lparr>v_src = stream (inp (s_prx r)), v_pend = pipesrv r, v_out = sent (s_cli r)\<rparr>"

definition splice_ok :: "splice_relay \<Rightarrow> bool" where
  "splice_ok r \<longleftrightarrow>
     npipecli r = int (length (pipecli r)) \<and> npipesrv r = int (length (pipesrv r))
     \<and> length (pipecli r) \<le> pcap r \<and> length (pipesrv r) \<le> pcap r
     \<and> s_fins r = (if s_eof r \<and> pipecli r = [] then 1 else 0)
     \<and> (s_eof r \<longrightarrow> stream (inp (s_cli r)) = [])"

lemma splice_ok_init: "splice_ok (splice_init cap c p)"
  by (simp add: splice_ok_def splice_init_def)

definition sp_turn_ok :: "splice_relay \<Rightarrow> splice_relay flow \<Rightarrow> bool" where
  "sp_turn_ok r f \<longleftrightarrow> splice_ok (after f)
     \<and> carries ((\<not> is_ret f) \<or> s_fins (after f) \<noteq> 0) (sp_up r) (sp_up (after f))
     \<and> carries (\<not> is_ret f) (sp_down r) (sp_down (after f))"

lemma sp_turn_ok_andthen:
  assumes "sp_turn_ok r f" and "\<And>r1. f = Go r1 \<Longrightarrow> splice_ok r1 \<Longrightarrow> sp_turn_ok r1 (g r1)"
  shows "sp_turn_ok r (andthen f g)"
proof (cases f)
  case (Go r1)
  with assms(1) have r1: "splice_ok r1" "carries True (sp_up r) (sp_up r1)"
      "carries True (sp_down r) (sp_down r1)"
    by (simp_all add: sp_turn_ok_def)
  with assms(2) [OF Go r1(1)] Go show ?thesis
    by (auto simp: sp_turn_ok_def intro: carries_trans)
qed (use assms(1) in simp_all)

lemma splice_in_stream:
  assumes "splice_in cap pipe es = (res, es')"
  shows "case res of
      RdBytes bs \<Rightarrow> stream es = bs @ stream es' \<and> length pipe + length bs \<le> cap
        \<and> (bs = [] \<longrightarrow> stream es = [])
    | RdErr e \<Rightarrow> e \<noteq> EOTHER \<longrightarrow> stream es' = stream es"
proof (cases "cap \<le> length pipe")
  case True
  with assms show ?thesis by (auto simp: splice_in_def)
next
  case False
  let ?n = "min BUFSIZE (cap - length pipe)"
  have n: "0 < ?n" using False by simp
  have rd: "sys_read ?n es = (res, es')" using assms False by (simp add: splice_in_def)
  show ?thesis
  proof (cases res)
    case (RdErr e)
    show ?thesis using sys_read_retry [OF rd [unfolded RdErr]] RdErr by (cases e) auto
  next
    case (RdBytes bs)
    with sys_read_stream [OF n, of es] rd False show ?thesis by auto
  qed
qed

lemma splice_out_count: "splice_out pipe es = (WrCount k, es') \<Longrightarrow> k \<le> length pipe"
  using sys_write_capacity [of "min BUFSIZE (length pipe)" es]
  by (auto simp: splice_out_def split: if_splits)

lemma splice_errno_ok:
  assumes "splice_ok r'" and "carries False (sp_up r) (sp_up r')" and "carries False (sp_down r) (sp_down r')"
    and "e \<noteq> EOTHER \<Longrightarrow> carries True (sp_up r) (sp_up r') \<and> carries True (sp_down r) (sp_down r')"
    and "s_fins r' \<noteq> 0 \<Longrightarrow> carries True (sp_up r) (sp_up r')"
  shows "sp_turn_ok r (splice_errno e r')"
  using assms by (cases e; cases "s_fins r' = 0") (auto simp: sp_turn_ok_def splice_errno_def)

lemma sp_cli_read_ok:
  assumes ok: "splice_ok r" and rdy: "rdy \<Longrightarrow> \<not> s_eof r"
  shows "sp_turn_ok r (sp_cli_read rdy r)"
proof (cases rdy)
  case False
  then show ?thesis using ok by (simp add: sp_cli_read_def sp_turn_ok_def)
next
  case True
  obtain res es where rd: "splice_in (pcap r) (pipecli r) (inp (s_cli r)) = (res, es)"
    by (cases "splice_in (pcap r) (pipecli r) (inp (s_cli r))")
  note st = splice_in_stream [OF rd]
  let ?r = "r\<lparr>s_cli := (s_cli r)\<lparr>inp := es\<rparr>\<rparr>"
  have eof: "\<not> s_eof r" using rdy [OF True] .
  show ?thesis
  proof (cases res)
    case (RdErr e)
    then have "sp_cli_read rdy r = splice_errno e ?r" using rd True by (simp add: sp_cli_read_def)
    moreover have "carries False (sp_up r) (sp_up ?r)" by (auto simp: carries_def sp_up_def)
    moreover have "splice_ok ?r" "s_fins ?r = 0" "sp_down ?r = sp_down r"
      using ok eof by (auto simp: splice_ok_def sp_down_def)
    moreover have "e \<noteq> EOTHER \<Longrightarrow> sp_up ?r = sp_up r" using st RdErr by (simp add: sp_up_def)
    ultimately show ?thesis by (auto intro!: splice_errno_ok)
  next
    case (RdBytes bs)
    show ?thesis
    proof (cases bs)
      case Nil
      with RdBytes rd True st ok eof show ?thesis
        by (auto simp: sp_cli_read_def sp_turn_ok_def splice_ok_def sp_up_def sp_down_def)
    next
      case (Cons b bs')
      let ?r' = "?r\<lparr>pipecli := pipecli r @ bs, npipecli := npipecli r + int (length bs)\<rparr>"
      have "sp_cli_read rdy r = Go ?r'" using RdBytes rd True Cons by (simp add: sp_cli_read_def)
      moreover have "splice_ok ?r'" "sp_down ?r' = sp_down r"
        using ok eof st RdBytes by (auto simp: splice_ok_def sp_down_def)
      moreover have "carries True (sp_up r) (sp_up ?r')"
        using st RdBytes by (intro carriesI [of _ _ "[]"]) (simp_all add: sp_up_def)
      ultimately show ?thesis by (simp add: sp_turn_ok_def)
    qed
  qed
qed

lemma sp_prx_read_ok:
  assumes ok: "splice_ok r"
  shows "sp_turn_ok r (sp_prx_read rdy r)"
proof (cases rdy)
  case False
  then show ?thesis using ok by (simp add: sp_prx_read_def sp_turn_ok_def)
next
  case True
  obtain res es where rd: "splice_in (pcap r) (pipesrv r) (inp (s_prx r)) = (res, es)"
    by (cases "splice_in (pcap r) (pipesrv r) (inp (s_prx r))")
  note st = splice_in_stream [OF rd]
  let ?r = "r\<lparr>s_prx := (s_prx r)\<lparr>inp := es\<rparr>\<rparr>"
  have same: "splice_ok ?r" "sp_up ?r = sp_up r" "carries False (sp_down r) (sp_down ?r)"
    using ok by (auto simp: splice_ok_def sp_up_def carries_def sp_down_def)
  show ?thesis
  proof (cases res)
    case (RdErr e)
    then have "sp_prx_read rdy r = splice_errno e ?r" using rd True by (simp add: sp_prx_read_def)
    moreover have "e \<noteq> EOTHER \<Longrightarrow> sp_down ?r = sp_down r" using st RdErr by (simp add: sp_down_def)
    ultimately show ?thesis using same by (auto intro!: splice_errno_ok)
  next
    case (RdBytes bs)
    show ?thesis
    proof (cases "bs = []")
      case True
      with RdBytes rd \<open>rdy\<close> have "sp_prx_read rdy r = Ret 0 ?r \<or> sp_prx_read rdy r = Ret 1 ?r"
        by (simp add: sp_prx_read_def Let_def)
      with same show ?thesis by (auto simp: sp_turn_ok_def)
    next
      case False
      let ?r' = "?r\<lparr>pipesrv := pipesrv r @ bs, npipesrv := npipesrv r + int (length bs)\<rparr>"
      have "sp_prx_read rdy r = Go ?r'" using RdBytes rd True False by (simp add: sp_prx_read_def)
      moreover have "splice_ok ?r'" "sp_up ?r' = sp_up r"
        using ok st RdBytes by (auto simp: splice_ok_def sp_up_def)
      moreover have "carries True (sp_down r) (sp_down ?r')"
        using st RdBytes by (intro carriesI [of _ _ "[]"]) (simp_all add: sp_down_def)
      ultimately show ?thesis by (simp add: sp_turn_ok_def)
    qed
  qed
qed

lemma sp_cli_write_ok:
  assumes ok: "splice_ok r"
  shows "sp_turn_ok r (sp_cli_write rdy r)"
proof (cases "rdy \<and> 0 < npipesrv r")
  case False
  then show ?thesis using ok by (auto simp: sp_cli_write_def sp_turn_ok_def)
next
  case True
  obtain res es where wr: "splice_out (pipesrv r) (room (s_cli r)) = (res, es)"
    by (cases "splice_out (pipesrv r) (room (s_cli r))")
  show ?thesis
  proof (cases res)
    case (WrErr e)
    with wr True show ?thesis using ok
      by (auto simp: sp_cli_write_def splice_ok_def sp_up_def sp_down_def intro!: splice_errno_ok)
  next
    case (WrCount k)
    let ?r = "r\<lparr>s_cli := (s_cli r)\<lparr>room := es, sent := sent (s_cli r) @ take k (pipesrv r)\<rparr>,
                pipesrv := drop k (pipesrv r), npipesrv := npipesrv r - int k\<rparr>"
    have "k \<le> length (pipesrv r)" using splice_out_count wr WrCount by auto
    then have "splice_ok ?r" "sp_up ?r = sp_up r" using ok by (auto simp: splice_ok_def sp_up_def)
    moreover have "carries True (sp_down r) (sp_down ?r)"
      by (intro carriesI [of _ _ "take k (pipesrv r)"]) (simp_all add: sp_down_def)
    moreover have "sp_cli_write rdy r = Go ?r" using True wr WrCount by (simp add: sp_cli_write_def)
    ultimately show ?thesis by (simp add: sp_turn_ok_def)
  qed
qed

lemma sp_prx_write_ok:
  assumes ok: "splice_ok r"
  shows "sp_turn_ok r (sp_prx_write rdy r)"
proof (cases "rdy \<and> 0 < npipecli r")
  case False
  then show ?thesis using ok by (auto simp: sp_prx_write_def sp_turn_ok_def)
next
  case True
  obtain res es where wr: "splice_out (pipecli r) (room (s_prx r)) = (res, es)"
    by (cases "splice_out (pipecli r) (room (s_prx r))")
  show ?thesis
  proof (cases res)
    case (WrErr e)
    with wr True show ?thesis using ok
      by (auto simp: sp_prx_write_def splice_ok_def sp_up_def sp_down_def intro!: splice_errno_ok)
  next
    case (WrCount k)
    let ?r = "r\<lparr>s_prx := (s_prx r)\<lparr>room := es, sent := sent (s_prx r) @ take k (pipecli r)\<rparr>,
                pipecli := drop k (pipecli r), npipecli := npipecli r - int k,
                s_fins := (if npipecli r - int k = 0 \<and> s_eof r then s_fins r + 1 else s_fins r)\<rparr>"
    have "k \<le> length (pipecli r)" using splice_out_count wr WrCount by auto
    then have "splice_ok ?r" "sp_down ?r = sp_down r"
      using ok True by (auto simp: splice_ok_def sp_down_def)
    moreover have "carries True (sp_up r) (sp_up ?r)"
      by (intro carriesI [of _ _ "take k (pipecli r)"]) (simp_all add: sp_up_def)
    moreover have "sp_prx_write rdy r = Go ?r" using True wr WrCount by (simp add: sp_prx_write_def Let_def)
    ultimately show ?thesis by (simp add: sp_turn_ok_def)
  qed
qed

lemma splice_turn_ok: "splice_ok r \<Longrightarrow> sp_turn_ok r (splice_turn r ev)"
proof (cases ev)
  case (Poll_Ready ci co pi po)
  then show "splice_ok r \<Longrightarrow> ?thesis"
    by (auto intro!: sp_turn_ok_andthen sp_cli_read_ok sp_prx_read_ok sp_cli_write_ok sp_prx_write_ok)
next
  case (Poll_Err e)
  show "splice_ok r \<Longrightarrow> ?thesis" unfolding Poll_Err splice_turn.simps by (intro splice_errno_ok) auto
qed (simp add: sp_turn_ok_def)

interpretation splr: byte_relay splice_step splice_ok sp_up sp_down s_fins
proof unfold_locales
  fix r ev r' st
  assume "splice_ok r" and "splice_step r ev = (r', st)"
  then have "sp_turn_ok r (splice_turn r ev)" "after (splice_turn r ev) = r'"
      "is_ret (splice_turn r ev) \<longleftrightarrow> st \<noteq> None"
    by (cases "splice_turn r ev"; auto simp: splice_step_def dest: splice_turn_ok [of r ev])+
  then show "splice_ok r'" "carries (st = None \<or> s_fins r' \<noteq> 0) (sp_up r) (sp_up r')"
    "carries (st = None) (sp_down r) (sp_down r')"
    by (auto simp: sp_turn_ok_def)
next
  fix r assume "splice_ok r"
  then show "s_fins r \<le> 1" "s_fins r \<noteq> 0 \<Longrightarrow> v_pend (sp_up r) = [] \<and> v_src (sp_up r) = []"
    by (auto simp: splice_ok_def sp_up_def split: if_splits)
qed

subsection \<open>Properties\<close>

text \<open>C21: The splice variant keeps the same promises, for every pipe capacity: prefixes in order in
  both directions, and one shutdown after everything was delivered; its counters are the fill
  levels of the two pipes.\<close>

theorem negotiate_splice_integrity:
  "case negotiate_splice a b x y cap evs c p of (r, st) \<Rightarrow>
     (\<exists>out rest out' rest'.
       sent (s_prx r) = sent p @ out \<and> stream (inp c) = out @ rest
       \<and> sent (s_cli r) = sent c @ out' \<and> stream (inp p) = out' @ rest')
     \<and> s_fins r \<le> 1 \<and> (s_fins r = 0 \<or> sent (s_prx r) = sent p @ stream (inp c))
     \<and> npipecli r = int (length (pipecli r)) \<and> npipesrv r = int (length (pipesrv r))"
proof (cases "a \<and> b \<and> x \<and> y")
  case False
  then show ?thesis by (auto simp: negotiate_splice_def splice_init_def)
next
  case True
  obtain r st where run: "relay_run splice_step evs (splice_init cap c p) = (r, st)"
    by (cases "relay_run splice_step evs (splice_init cap c p)")
  have "\<exists>out rest out' rest'. sent (s_prx r) = sent p @ out \<and> stream (inp c) = out @ rest
       \<and> sent (s_cli r) = sent c @ out' \<and> stream (inp p) = out' @ rest'"
    using splr.run_prefix [OF splice_ok_init run] by (auto simp: sp_up_def sp_down_def splice_init_def)
  moreover have "s_fins r \<le> 1" "s_fins r = 0 \<or> sent (s_prx r) = sent p @ stream (inp c)"
    using splr.run_fin [OF splice_ok_init run] by (auto simp: sp_up_def splice_init_def)
  moreover have "npipecli r = int (length (pipecli r))" "npipesrv r = int (length (pipesrv r))"
    using splr.run_carries [OF splice_ok_init run] by (auto simp: splice_ok_def)
  ultimately show ?thesis using True run by (simp add: negotiate_splice_def)
qed

text \<open>C22: The splice variant can spin for ever.  Once the pipe from the client is full, which is
  below \<open>BUFSIZE\<close>, and the client has more to send, poll reports the client readable, splice
  fails with EAGAIN, and the loop starts over without reaching the code that would empty the
  pipe: no number of turns moves a byte, although the proxy is writable.\<close>

theorem splice_livelock:
  assumes "\<not> s_eof r" and "length (pipecli r) = pcap r" and "npipecli r = int (length (pipecli r))"
    and "pcap r < BUFSIZE"
  shows "relay_run splice_step (replicate n (Poll_Ready True co pi True)) r = (r, None)"
proof -
  have "r\<lparr>s_cli := (s_cli r)\<lparr>inp := inp (s_cli r)\<rparr>\<rparr> = r" by simp
  then have "splice_step r (Poll_Ready True co pi True) = (r, None)"
    using assms by (simp add: splice_step_def sp_cli_read_def splice_in_def splice_errno_def)
  then show ?thesis by (induction n) simp_all
qed

lemma splice_livelock_witness:
  "let s = \<lparr>inp = [RData [3]], room = [], sent = [], rcvtimeo_ok = True, sndtimeo_ok = True\<rparr>;
       p = \<lparr>inp = [], room = [WSpace 9], sent = [], rcvtimeo_ok = True, sndtimeo_ok = True\<rparr>;
       r = (splice_init 2 s p)\<lparr>pipecli := [1, 2], npipecli := 2\<rparr> in
   relay_run splice_step (replicate 1000 (Poll_Ready True True True True)) r = (r, None)"
  unfolding Let_def by (rule splice_livelock) (simp_all add: splice_init_def BUFSIZE_def)

end
