(* ===== verification/Silk_Handshake.thy ===== *)
theory Silk_Handshake
  imports Silk_Socks
begin

section \<open>What the handshake functions read and write (socks.c)\<close>

text \<open>
  Functional behaviour of the functions of socks.c on the byte streams of the two sockets.
  \<open>peer s i k out\<close> says that socket \<open>s\<close> will deliver the bytes \<open>i\<close>, in whatever segments and
  with whatever interruptions, that it takes \<open>k\<close> more bytes, and that \<open>out\<close> was sent on it.
\<close>

declare One_nat_def [simp del] numeral_2_eq_2 [symmetric, simp]

definition peer :: "sock \<Rightarrow> byte list \<Rightarrow> nat \<Rightarrow> byte list \<Rightarrow> bool" where
  "peer s i k out \<longleftrightarrow>
     rcvtimeo_ok s \<and> sndtimeo_ok s \<and> stream (inp s) = i \<and> capacity (room s) = k \<and> sent s = out"

lemma peer_read:
  assumes "peer s (xs @ i) k out" and "length xs = n"
  obtains s' where "readn_timeo n s = (int n, xs, s')" and "peer s' i k out"
proof -
  obtain r bs s' where r: "readn_timeo n s = (r, bs, s')" by (cases "readn_timeo n s")
  with readn_timeo_stream [where n = n and s = s] assms
  have b: "bs = take n (xs @ i)" and rn: "r = int n" and d: "stream (inp s') = drop n (xs @ i)"
    and s': "s' = s\<lparr>inp := inp s'\<rparr>"
    by (auto simp: peer_def)
  have "rcvtimeo_ok s' = rcvtimeo_ok s" "sndtimeo_ok s' = sndtimeo_ok s" "room s' = room s" "sent s' = sent s"
    by (subst s'; simp)+
  with r b rn d assms that show thesis by (simp add: peer_def)
qed

lemma peer_write:
  assumes "peer s i k out" and "length bs \<le> k"
  obtains s' where "writen_timeo bs s = (int (length bs), s')" and "peer s' i (k - length bs) (out @ bs)"
proof -
  obtain r s' where r: "writen_timeo bs s = (r, s')" by (cases "writen_timeo bs s")
  with writen_timeo_stream [where bs = bs and s = s] assms
  have o: "sent s' = out @ bs" and rn: "r = int (length bs)" and c: "capacity (room s') = k - length bs"
    and s': "s' = s\<lparr>room := room s', sent := sent s'\<rparr>"
    by (auto simp: peer_def)
  have "rcvtimeo_ok s' = rcvtimeo_ok s" "sndtimeo_ok s' = sndtimeo_ok s" "inp s' = inp s"
    by (subst s'; simp)+
  with r rn o c assms that show thesis by (simp add: peer_def)
qed

lemma recv_cli_peer:
  assumes "peer (w_cli w) (xs @ i) k out" and "length xs = n"
  shows "\<exists>s. recv_cli n st w = Val xs (w\<lparr>w_cli := s\<rparr>) \<and> peer s i k out"
proof -
  obtain s' where "readn_timeo n (w_cli w) = (int n, xs, s')" "peer s' i k out"
    by (rule peer_read [OF assms])
  then show ?thesis by (auto simp: recv_cli_def)
qed

lemma recv_prx_peer:
  assumes "peer (w_prx w) (xs @ i) k out" and "length xs = n"
  shows "\<exists>s. recv_prx n st w = Val xs (w\<lparr>w_prx := s\<rparr>) \<and> peer s i k out"
proof -
  obtain s' where "readn_timeo n (w_prx w) = (int n, xs, s')" "peer s' i k out"
    by (rule peer_read [OF assms])
  then show ?thesis by (auto simp: recv_prx_def)
qed

lemma send_cli_peer:
  assumes "peer (w_cli w) i k out" and "length bs \<le> k"
  shows "\<exists>s. send_cli bs st w = Val () (w\<lparr>w_cli := s\<rparr>) \<and> peer s i (k - length bs) (out @ bs)"
proof -
  obtain s' where "writen_timeo bs (w_cli w) = (int (length bs), s')" "peer s' i (k - length bs) (out @ bs)"
    by (rule peer_write [OF assms])
  then show ?thesis by (auto simp: send_cli_def)
qed

lemma send_prx_peer:
  assumes "peer (w_prx w) i k out" and "length bs \<le> k"
  shows "\<exists>s. send_prx bs st w = Val () (w\<lparr>w_prx := s\<rparr>) \<and> peer s i (k - length bs) (out @ bs)"
proof -
  obtain s' where "writen_timeo bs (w_prx w) = (int (length bs), s')" "peer s' i (k - length bs) (out @ bs)"
    by (rule peer_write [OF assms])
  then show ?thesis by (auto simp: send_prx_def)
qed

text \<open>
  \<open>leads r Q\<close>: the call \<open>r\<close> gets through, with a value and a world that satisfy \<open>Q\<close>.  The
  rules below run a function of socks.c one socket call at a time.
\<close>

definition leads :: "'a outcome \<Rightarrow> ('a \<Rightarrow> world \<Rightarrow> bool) \<Rightarrow> bool" where
  "leads r Q \<longleftrightarrow> (\<exists>x w'. r = Val x w' \<and> Q x w')"

lemma leads_Val [simp]: "leads (Val x w) Q \<longleftrightarrow> Q x w"
  by (simp add: leads_def)

lemma leads_bnd: "leads (m w) P \<Longrightarrow> (\<And>x w'. P x w' \<Longrightarrow> leads (f x w') Q) \<Longrightarrow> leads (bnd m f w) Q"
  by (auto simp: leads_def bnd_def)

lemma bnd_assoc [simp]: "bnd (bnd m g) f = bnd m (\<lambda>x. bnd (g x) f)"
  by (rule ext) (simp add: bnd_def split: outcome.split)

lemma leads_weaken: "leads r P \<Longrightarrow> (\<And>x w'. P x w' \<Longrightarrow> Q x w') \<Longrightarrow> leads r Q"
  by (auto simp: leads_def)

lemma bnd_simps [simp]:
  "bnd (ret x) f w = f x w"
  "bnd get_sess g w = g (sess w) w"
  "bnd (upd_sess h) g' w = g' () (w\<lparr>sess := h (sess w)\<rparr>)"
  "bnd (emit a) k w = k () (w\<lparr>trace := trace w @ [a]\<rparr>)"
  by (simp_all add: bnd_def ret_def get_sess_def upd_sess_def emit_def)

lemma bnd_require [simp]: "leads (bnd (require b st) g w) Q \<longleftrightarrow> b \<and> leads (g () w) Q"
  by (simp add: bnd_def require_def leads_def)

lemma leads_simps [simp]:
  "leads (ret x w) Q \<longleftrightarrow> Q x w"
  "leads (upd_sess h w) R \<longleftrightarrow> R () (w\<lparr>sess := h (sess w)\<rparr>)"
  "leads (require b st w) R \<longleftrightarrow> b \<and> R () w"
  by (auto simp: leads_def ret_def upd_sess_def require_def)

lemma leads_recv_cli:
  assumes "peer (w_cli w) (xs @ i) k out" and "length xs = n"
    and "\<And>s. peer s i k out \<Longrightarrow> leads (f xs (w\<lparr>w_cli := s\<rparr>)) Q"
  shows "leads (bnd (recv_cli n st) f w) Q"
  using recv_cli_peer [OF assms(1,2), of st] assms(3) by (auto simp: bnd_def)

lemma leads_recv_prx:
  assumes "peer (w_prx w) (xs @ i) k out" and "length xs = n"
    and "\<And>s. peer s i k out \<Longrightarrow> leads (f xs (w\<lparr>w_prx := s\<rparr>)) Q"
  shows "leads (bnd (recv_prx n st) f w) Q"
  using recv_prx_peer [OF assms(1,2), of st] assms(3) by (auto simp: bnd_def)

lemma leads_send_cli:
  assumes "peer (w_cli w) i k out" and "length bs \<le> k"
    and "\<And>s. peer s i (k - length bs) (out @ bs) \<Longrightarrow> leads (f () (w\<lparr>w_cli := s\<rparr>)) Q"
  shows "leads (bnd (send_cli bs st) f w) Q"
  using send_cli_peer [OF assms(1,2), of st] assms(3) by (auto simp: bnd_def)

lemma leads_send_prx:
  assumes "peer (w_prx w) i k out" and "length bs \<le> k"
    and "\<And>s. peer s i (k - length bs) (out @ bs) \<Longrightarrow> leads (f () (w\<lparr>w_prx := s\<rparr>)) Q"
  shows "leads (bnd (send_prx bs st) f w) Q"
  using send_prx_peer [OF assms(1,2), of st] assms(3) by (auto simp: bnd_def)

lemma leads_send_cli_last:
  assumes "peer (w_cli w) i k out" and "length bs \<le> k"
    and "\<And>s. peer s i (k - length bs) (out @ bs) \<Longrightarrow> Q () (w\<lparr>w_cli := s\<rparr>)"
  shows "leads (send_cli bs st w) Q"
  using send_cli_peer [OF assms(1,2), of st] assms(3) by auto

lemma leads_send_prx_last:
  assumes "peer (w_prx w) i k out" and "length bs \<le> k"
    and "\<And>s. peer s i (k - length bs) (out @ bs) \<Longrightarrow> Q () (w\<lparr>w_prx := s\<rparr>)"
  shows "leads (send_prx bs st w) Q"
  using send_prx_peer [OF assms(1,2), of st] assms(3) by auto

text \<open>Reading a single byte.\<close>

lemmas leads_recv_prx1 = leads_recv_prx [where xs = "[x]" and n = 1 for x, simplified]
lemmas leads_recv_cli1 = leads_recv_cli [where xs = "[x]" and n = 1 for x, simplified]

subsection \<open>The client's side\<close>

lemma world_same_cli [simp]: "w\<lparr>w_cli := w_cli w\<rparr> = w"
  by (cases w) simp

lemma read_methods_peer:
  assumes "peer (w_cli w) (ms @ i) k out"
    and "\<And>s. peer s i k out \<Longrightarrow> leads (f (if 0x02 \<in> set ms then 0x02 else m) (w\<lparr>w_cli := s\<rparr>)) Q"
  shows "leads (bnd (read_methods (length ms) m) f w) Q"
  using assms
proof (induction ms arbitrary: m w)
  case Nil
  then show ?case using Nil.prems(2) [of "w_cli w"] by simp
next
  case (Cons b ms)
  have "leads (bnd (read_methods (length ms) (if b = 0x02 then 0x02 else m)) f (w\<lparr>w_cli := s\<rparr>)) Q"
    if s: "peer s (ms @ i) k out" for s
    by (rule Cons.IH) (use s Cons.prems(2) in \<open>auto split: if_splits\<close>)
  then show ?case
    using leads_recv_cli1 [OF Cons.prems(1) [unfolded append_Cons],
        where f = "\<lambda>a. bnd (read_methods (length ms) (if hd a = 0x02 then 0x02 else m)) f"]
    by (simp add: NEEDAUTH_def)
qed

text \<open>The method chosen: user name and password when offered, else none is acceptable.\<close>

definition chosen :: "byte list \<Rightarrow> byte" where
  "chosen ms = (if 0x02 \<in> set ms then 0x02 else 0xFF)"

lemma choosemethod_peer:
  assumes "peer (w_cli w) (5 # n # ms @ i) k out" and n: "unat n = length ms" and k: "2 \<le> k"
    and Q: "\<And>s. peer s i (k - 2) (out @ [5, chosen ms]) \<Longrightarrow> leads (f (chosen ms) (w\<lparr>w_cli := s\<rparr>)) Q"
  shows "leads (bnd socks5_choosemethod f w) Q"
  unfolding socks5_choosemethod_def bnd_assoc
  by (rule leads_recv_cli1 [OF assms(1)], simp, rule leads_recv_cli1, simp, simp add: n,
      rule read_methods_peer, simp)
     (use Q k in \<open>auto simp: NEEDAUTH_def chosen_def Let_def intro!: leads_send_cli\<close>)

lemma readauth_peer:
  assumes "peer (w_cli w) (1 # ul # un @ pl # pw @ i) k out"
    and l: "unat ul = length un" "unat pl = length pw" and k: "2 \<le> k"
    and Q: "\<And>s. peer s i (k - 2) (out @ [1, 0]) \<Longrightarrow>
      leads (f () (w\<lparr>sess := (sess w)\<lparr>user := c_str un, passwd := c_str pw\<rparr>, w_cli := s\<rparr>)) Q"
  shows "leads (bnd socks5_readauth f w) Q"
  unfolding socks5_readauth_def bnd_assoc
  by (rule leads_recv_cli1 [OF assms(1)], simp, rule leads_recv_cli1, simp, simp add: l,
      rule leads_recv_cli, simp, rule refl, simp, rule leads_recv_cli1, simp, simp add: l,
      rule leads_recv_cli, simp, rule refl, simp, rule leads_send_cli, simp)
     (use k Q in simp_all)

text \<open>An address as it travels in requests and replies.\<close>

definition sa_ok :: "sockaddr \<Rightarrow> bool" where
  "sa_ok a \<longleftrightarrow>
     (sin_family a = AF_INET \<and> length (sin_addr a) = 4 \<or> sin_family a = AF_INET6 \<and> length (sin_addr a) = 16)
     \<and> length (sin_port a) = 2"

definition addr_message :: "byte \<Rightarrow> sockaddr \<Rightarrow> byte list" where
  "addr_message c a =
     [0x05, c, 0, if sin_family a = AF_INET then 1 else 4] @ sin_addr a @ sin_port a"

lemma sockaddr_all [simp]:
  "a\<lparr>sin_family := x, sin_addr := y, sin_port := z\<rparr> = \<lparr>sin_family = x, sin_addr = y, sin_port = z\<rparr>"
  by (cases a) simp

lemma sa_ok_len: "sa_ok a \<Longrightarrow> take (sockADDRLEN a) (sin_addr a) = sin_addr a"
  by (auto simp: sa_ok_def sockADDRLEN_def)

lemma sa_ok_size: "sa_ok a \<Longrightarrow> length (addr_message c a) \<le> 22"
  by (auto simp: sa_ok_def addr_message_def)

lemma readrequest_addr_peer:
  assumes "peer (w_cli w) (addr_message c a @ i) k out"
    and c: "c \<in> {1, 2, 3}" and a: "sa_ok a"
    and Q: "\<And>s. peer s i k out \<Longrightarrow>
      leads (f () (w\<lparr>w_cli := s, sess := (sess w)\<lparr>cmd := c, request := a\<rparr>\<rparr>)) Q"
  shows "leads (bnd (socks5_readrequest e) f w) Q"
proof -
  have c': "\<not> (c < 1 \<or> c > 3)" using c by (auto simp: word_less_nat_alt)
  have p: "peer (w_cli w) (5 # c # 0 # (if sin_family a = AF_INET then 1 else 4) # sin_addr a @ sin_port a @ i) k out"
    using assms(1) by (simp add: addr_message_def)
  obtain fa ad po where fad: "a = \<lparr>sin_family = fa, sin_addr = ad, sin_port = po\<rparr>" by (cases a)
  show ?thesis
  proof (cases "sin_family a = AF_INET")
    case True
    with a have l: "length ad = 4" "length po = 2" "fa = AF_INET" by (auto simp: sa_ok_def fad)
    show ?thesis
      unfolding socks5_readrequest_def bnd_assoc
      by (rule leads_recv_cli1 [OF p], simp, rule leads_recv_cli1, simp, use c' in simp,
          rule leads_recv_cli1, simp, rule leads_recv_cli1, simp, simp add: True fad l,
          rule leads_recv_cli, simp, simp add: l, simp add: set_request_def, rule leads_recv_cli, simp, simp add: l)
         (use Q in \<open>simp add: fad l set_request_def\<close>)
  next
    case False
    with a have l: "length ad = 16" "length po = 2" "fa = AF_INET6" by (auto simp: sa_ok_def fad)
    show ?thesis
      unfolding socks5_readrequest_def bnd_assoc
      by (rule leads_recv_cli1 [OF p], simp, rule leads_recv_cli1, simp, use c' in simp,
          rule leads_recv_cli1, simp, rule leads_recv_cli1, simp, simp add: False fad l,
          rule leads_recv_cli, simp, simp add: l, simp add: set_request_def, rule leads_recv_cli, simp, simp add: l)
         (use Q in \<open>simp add: fad l set_request_def\<close>)
  qed
qed

lemma bnd_dns_get:
  "quiet e \<Longrightarrow> hashtbl_get (w_dns w) name (t_get e) = Inr (h, r) \<Longrightarrow> bnd (dns_get e name) g w = g r (w\<lparr>w_dns := h\<rparr>)"
  by (simp add: bnd_def dns_get_def Let_def)

lemma bnd_dns_put:
  "quiet e \<Longrightarrow> hashtbl_put (w_dns w) name a (t_ttl e + 300) (t_check e) (t_put e) = Inr (h, r) \<Longrightarrow>
   bnd (dns_put e name a) g w = g () (w\<lparr>w_dns := h\<rparr>)"
  by (simp add: bnd_def dns_put_def Let_def)

text \<open>A request by name, with the answer of the DNS table or of the resolver.\<close>

lemma readrequest_name_peer:
  assumes q: "quiet e" and pc: "peer (w_cli w) (5 # c # rsv # 3 # l # name @ p @ i) k out"
    and c: "c \<in> {1, 2, 3}" and l: "unat l = length name" "length p = 2"
    and g: "hashtbl_get (w_dns w) (c_str name) (t_get e) = Inr (h, r)"
    and hit: "\<And>a s. r = Some a \<Longrightarrow> peer s i k out \<Longrightarrow>
      leads (f () (w\<lparr>w_dns := h, w_cli := s, sess := (sess w)\<lparr>cmd := c,
               request := \<lparr>sin_family = AF_INET, sin_addr = a, sin_port = p\<rparr>\<rparr>\<rparr>)) Q"
    and miss: "r = None \<Longrightarrow> \<exists>a h' n. resolve e (c_str name) = Some a
        \<and> hashtbl_put h (c_str name) a (t_ttl e + 300) (t_check e) (t_put e) = Inr (h', n)
        \<and> (\<forall>s. peer s i k out \<longrightarrow>
            leads (f () (w\<lparr>trace := trace w @ [A_resolve (c_str name)], w_dns := h', w_cli := s,
               sess := (sess w)\<lparr>cmd := c,
                 request := \<lparr>sin_family = AF_INET, sin_addr = a, sin_port = p\<rparr>\<rparr>\<rparr>)) Q)"
  shows "leads (bnd (socks5_readrequest e) f w) Q"
proof -
  have c': "\<not> (c < 1 \<or> c > 3)" using c by (auto simp: word_less_nat_alt)
  show ?thesis
  proof (cases r)
    case None
    with miss obtain a h' n where m: "resolve e (c_str name) = Some a"
        "hashtbl_put h (c_str name) a (t_ttl e + 300) (t_check e) (t_put e) = Inr (h', n)"
        "\<And>s. peer s i k out \<Longrightarrow>
            leads (f () (w\<lparr>trace := trace w @ [A_resolve (c_str name)], w_dns := h', w_cli := s,
               sess := (sess w)\<lparr>cmd := c,
                 request := \<lparr>sin_family = AF_INET, sin_addr = a, sin_port = p\<rparr>\<rparr>\<rparr>)) Q"
      by auto
    show ?thesis
      unfolding socks5_readrequest_def bnd_assoc
      by (rule leads_recv_cli1 [OF pc], simp, rule leads_recv_cli1, simp, use c' in simp,
          rule leads_recv_cli1, simp, rule leads_recv_cli1, simp, simp,
          rule leads_recv_cli1, simp, simp add: l(1), rule leads_recv_cli, simp, rule refl,
          simp add: lookup_name_def set_request_def bnd_dns_get [OF q] g None m(1), simp add: bnd_dns_put [OF q] m(2),
          rule leads_recv_cli, simp, simp add: l)
         (use m(3) in simp)
  next
    case (Some a)
    show ?thesis
      unfolding socks5_readrequest_def bnd_assoc
      by (rule leads_recv_cli1 [OF pc], simp, rule leads_recv_cli1, simp, use c' in simp,
          rule leads_recv_cli1, simp, rule leads_recv_cli1, simp, simp,
          rule leads_recv_cli1, simp, simp add: l(1), rule leads_recv_cli, simp, rule refl,
          simp add: lookup_name_def set_request_def bnd_dns_get [OF q] g Some,
          rule leads_recv_cli, simp, simp add: l)
         (use hit [OF Some] in simp)
  qed
qed

subsection \<open>The upstream side\<close>

lemma writerequest_peer:
  assumes "peer (w_prx w) i k out" and a: "sa_ok (request (sess w))" and k: "22 \<le> k"
    and Q: "\<And>s k'. peer s i k' (out @ addr_message 1 (request (sess w))) \<Longrightarrow> leads (f () (w\<lparr>w_prx := s\<rparr>)) Q"
  shows "leads (bnd socks5_writerequest f w) Q"
  unfolding socks5_writerequest_def bnd_assoc bnd_simps Let_def
  using sa_ok_size [OF a, of 1] sa_ok_len [OF a] Q k
  by (intro leads_send_prx [OF assms(1)]) (simp_all add: addr_message_def)

definition good_reply :: "byte list \<Rightarrow> bool" where
  "good_reply r \<longleftrightarrow> (\<exists>rsv t b. r = [5, 0, rsv, t] @ b \<and>
     (t = 1 \<and> length b = 6 \<or> t = 4 \<and> length b = 18
      \<or> t = 3 \<and> (\<exists>l d. b = l # d \<and> length d = unat l + 2 \<and> unat l \<le> 254)))"

lemma leads_recv_domain:
  assumes "peer (w_prx w) (xs @ i) k out" and "length xs = n" and "n \<le> 256"
    and Q: "\<And>s. peer s i k out \<Longrightarrow> leads (f () (w\<lparr>w_prx := s\<rparr>)) Q"
  shows "leads (bnd (recv_domain n) f w) Q"
proof -
  obtain s' where "readn_timeo n (w_prx w) = (int n, xs, s')" "peer s' i k out"
    by (rule peer_read [OF assms(1,2)])
  then show ?thesis using assms(2,3) Q by (auto simp: recv_domain_def bnd_def)
qed

lemma readreply_peer:
  assumes p: "peer (w_prx w) (r @ i) k out" and g: "good_reply r"
    and Q: "\<And>s. peer s i k out \<Longrightarrow> leads (f () (w\<lparr>w_prx := s\<rparr>)) Q"
  shows "leads (bnd socks5_readreply f w) Q"
proof -
  obtain rsv t b where r: "r = [5, 0, rsv, t] @ b"
    and b: "t = 1 \<and> length b = 6 \<or> t = 4 \<and> length b = 18
      \<or> t = 3 \<and> (\<exists>l d. b = l # d \<and> length d = unat l + 2 \<and> unat l \<le> 254)"
    using g by (auto simp: good_reply_def)
  have head: "peer (w_prx w) ([5, 0, rsv, t] @ b @ i) k out" using p r by simp
  have four: "length [5, 0, rsv, t] = 4" by simp
  consider (v4) "t = 1" "length b = 6" | (v6) "t = 4" "length b = 18"
    | (name) l d where "t = 3" "b = l # d" "length d = unat l + 2" "unat l \<le> 254"
    using b by auto
  then show ?thesis
  proof cases
    case v4
    then show ?thesis unfolding socks5_readreply_def bnd_assoc
      by (intro leads_recv_prx [OF head four], simp, intro leads_recv_prx, simp, simp) (use Q in simp)
  next
    case v6
    then show ?thesis unfolding socks5_readreply_def bnd_assoc
      by (intro leads_recv_prx [OF head four], simp, intro leads_recv_prx, simp, simp) (use Q in simp)
  next
    case name
    from head have "peer (w_prx w) ([5, 0, rsv, 3] @ (l # d) @ i) k out" unfolding name(1,2) .
    then show ?thesis unfolding socks5_readreply_def bnd_assoc
      by (rule leads_recv_prx, simp, simp, intro leads_recv_prx1, simp, simp,
          intro leads_recv_domain, simp, simp add: name(3), simp add: name(4))
         (use Q in simp)
  qed
qed

text \<open>The length byte as a signed \<open>char\<close>.\<close>

lemma sint_length: "sint (of_nat n :: byte) = signed_take_bit 7 (int n)"
  by (simp add: signed_of_nat)

lemma copied_short: "length s \<le> 127 \<Longrightarrow> copied (Some s) = Inr (of_nat (length s) # s)"
  unfolding copied_def Let_def sint_length by (simp add: signed_take_bit_int_eq_self)

lemma copied_long:
  assumes "128 \<le> length s" and "length s \<le> 255"
  shows "copied (Some s) = Inl Bad_Memcpy"
proof -
  have "signed_take_bit 7 (int (length s)) = signed_take_bit 7 (int (length s) - 256)"
    by (rule signed_take_bit_eq_iff_take_bit_eq [THEN iffD2]) (simp add: take_bit_eq_mod mod_diff_eq [symmetric])
  also have "\<dots> = int (length s) - 256"
    using assms by (intro signed_take_bit_int_eq_self) auto
  finally show ?thesis unfolding copied_def Let_def sint_length using assms by simp
qed

definition auth_bytes :: "cstr \<Rightarrow> cstr \<Rightarrow> byte list" where
  "auth_bytes u p = 1 # of_nat (length u) # u @ of_nat (length p) # p"

lemma auth_message_short:
  "length u \<le> 127 \<Longrightarrow> length p \<le> 127 \<Longrightarrow> auth_message (Some u) (Some p) = Inr (auth_bytes u p)"
  by (simp add: auth_message_def auth_bytes_def copied_short)

lemma auth_message_long:
  "128 \<le> length u \<and> length u \<le> 255 \<or> length u \<le> 127 \<and> 128 \<le> length p \<and> length p \<le> 255 \<Longrightarrow>
   auth_message (Some u) (Some p) = Inl Bad_Memcpy"
  by (auto simp: auth_message_def copied_short copied_long)

text \<open>
  The whole dialogue with the proxy: greeting, user name and password, request.
\<close>

definition proxy_dialogue :: "cstr \<Rightarrow> cstr \<Rightarrow> sockaddr \<Rightarrow> byte list" where
  "proxy_dialogue u p a = [5, 1, 2] @ auth_bytes u p @ addr_message 1 a"

lemma bnd_creds:
  "proxy_creds_of e ip port w = Val r w' \<Longrightarrow> bnd (proxy_creds_of e ip port) g w = g r w'"
  by (simp add: bnd_def)

lemma bnd_open [simp]:
  "bnd (open_proxy e) g w =
     g () (w\<lparr>trace := trace w @ [A_socket], sess := (sess w)\<lparr>proxyfd := socket_fd e\<rparr>\<rparr>)"
  by (simp add: bnd_def open_proxy_def)

lemma bnd_lift [simp]: "bnd (lift_fault (Inr x)) g w = g x w"
  by (simp add: bnd_def lift_fault_def)

definition dials :: "env \<Rightarrow> bool" where
  "dials e \<longleftrightarrow> socket_fd e \<noteq> -1 \<and> fst (connect_nonb (conn_scr e) \<lparr>nonblock = False, is_open = True\<rparr>) = 0"

lemma connectproxy_peer:
  fixes e w
  defines "c \<equiv> (sess w)\<lparr>proxyfd := socket_fd e\<rparr>"
    and "ip \<equiv> ntohl (sin_addr (srvpeer (sess w)))" and "port \<equiv> ntohs (sin_port (srvpeer (sess w)))"
  assumes q: "quiet e" "plenty e" and d: "dials e" and p: "peer (w_prx w) ([5, 2] @ [1, 0] @ r @ i) k out"
    and g: "good_reply r" and a: "sa_ok (request (sess w))" and k: "300 \<le> k"
    and rt: "read_ip e port (w_ip w) ip = Inr (Some (Some u, Some pw), ipc')"
    and len: "length u \<le> 127" "length pw \<le> 127"
    and Q: "\<And>s k'. peer s i k' (out @ proxy_dialogue u pw (request (sess w))) \<Longrightarrow>
      leads (f () (w\<lparr>sess := c, trace := trace w @ [A_socket, A_connect (srvpeer (sess w))],
                     w_ip := ipc', w_prx := s\<rparr>)) Q"
  shows "leads (bnd (socks5_connectproxy e) f w) Q"
proof -
  have cn: "socket_fd e \<noteq> -1" "fst (connect_nonb (conn_scr e) \<lparr>nonblock = False, is_open = True\<rparr>) \<noteq> -1"
    using d by (auto simp: dials_def)
  have am: "auth_message (Some u) (Some pw) = Inr (auth_bytes u pw)" by (rule auth_message_short [OF len])
  have al: "length (auth_bytes u pw) \<le> 257" using len by (simp add: auth_bytes_def)
  have creds: "proxy_creds_of e ip port w' = Val (Some (Some u, Some pw)) (w'\<lparr>w_ip := ipc'\<rparr>)"
    if "w_ip w' = w_ip w" for w'
    using rt that by (simp add: proxy_creds_of_quiet [OF q])
  note c_def [simp] ip_def [symmetric, simp] port_def [symmetric, simp]
  show ?thesis
    unfolding socks5_connectproxy_def bnd_assoc Let_def
    apply (simp add: cn)
    apply (rule leads_send_prx, simp, rule p)
     apply (use k in simp)
    apply (rule leads_recv_prx [where xs = "[5, 2]" and i = "1 # 0 # r @ i"], simp, simp, simp)
    apply (subst bnd_creds, rule creds, simp)
    apply (simp add: am)
    apply (rule leads_send_prx, simp)
     apply (use al k in simp)
    apply simp
    apply (rule leads_recv_prx [where xs = "[1, 0]" and i = "r @ i"], simp, simp, simp)
    apply (rule writerequest_peer, simp, use a in simp, use al k in simp)
    apply (rule readreply_peer, simp, rule g)
    apply (use Q in \<open>simp add: proxy_dialogue_def\<close>)
    done
qed

lemma writereply_peer:
  assumes "peer (w_cli w) i k out" and "proxyfd (sess w) \<noteq> -1" and "sockname e = Some ss" and "sa_ok ss"
    and "22 \<le> k" and Q: "\<And>s k'. peer s i k' (out @ addr_message st ss) \<Longrightarrow> leads (f () (w\<lparr>w_cli := s\<rparr>)) Q"
  shows "leads (bnd (socks5_writereply e st) f w) Q"
proof -
  have "leads (bnd (send_cli (addr_message st ss) 1) f w) Q"
    using assms(5) sa_ok_size [OF assms(4), of st] Q
    by (intro leads_send_cli [OF assms(1)]) auto
  then show ?thesis
    unfolding socks5_writereply_def bnd_assoc
    using assms(2,3) by (simp add: sa_ok_len [OF assms(4)] addr_message_def Let_def)
qed

subsection \<open>A whole successful session\<close>

lemma leads_all: "leads (bnd m ret w) Q \<longleftrightarrow> leads (m w) Q"
  by (simp add: leads_def bnd_def ret_def split: outcome.split)

lemma run_auth_peer:
  assumes q: "quiet e" "plenty e" and p: "peer (w_cli w) (1 # ul # un @ pl # pw @ i) k out"
    and l: "unat ul = length un" "unat pl = length pw" and k: "2 \<le> k"
    and un: "un = login_name u ad port" "u \<noteq> []" "dash \<notin> set u" "length ad = 4" "port < 100000" "0 \<notin> set un"
    and rt: "read_app e (w_app w) u = Inr (Some (Some (c_str pw)), ac)"
    and Q: "\<And>s. peer s i (k - 2) (out @ [1, 0]) \<Longrightarrow>
      leads (f () (w\<lparr>w_cli := s, sess := (sess w)\<lparr>passwd := c_str pw, user := u,
          srvpeer := \<lparr>sin_family = AF_INET, sin_addr = ad, sin_port = htons (of_nat port)\<rparr>\<rparr>,
          w_app := ac\<rparr>)) Q"
  shows "leads (bnd (run_auth e 2) f w) Q"
proof -
  let ?c = "(sess w)\<lparr>user := un, passwd := c_str pw\<rparr>"
  let ?c' = "(sess w)\<lparr>passwd := c_str pw, user := u,
      srvpeer := \<lparr>sin_family = AF_INET, sin_addr = ad, sin_port = htons (of_nat port)\<rparr>\<rparr>"
  have st: "strip_redirectaddr ?c = (0, ?c')"
    using strip_login_name [OF un(2-5), of ?c] un(1) by simp
  have b: "bnd run_strip g (w\<lparr>sess := ?c, w_cli := s\<rparr>) = g () (w\<lparr>w_cli := s, sess := ?c'\<rparr>)" for g s
    using st by (simp add: bnd_def run_strip_def)
  have d: "bnd (socks5_doauth e) f (w\<lparr>w_cli := s, sess := ?c'\<rparr>) =
      f () (w\<lparr>w_cli := s, sess := ?c', w_app := ac\<rparr>)" for s
    using rt by (simp add: socks5_doauth_def bnd_def get_sess_def app_passwd_of_quiet [OF q] require_def lift_fault_def)
  show ?thesis
    unfolding run_auth_def
    using readauth_peer [OF p l k, where f = "\<lambda>_. bnd run_strip (\<lambda>_. bnd (socks5_doauth e) f)"] Q
    by (simp add: c_str_id [OF un(6)] b d)
qed

end
