(* ===== verification/Silk_Session_Example.thy ===== *)
theory Silk_Session_Example
  imports Silk_Session_Safety
begin

section \<open>A concrete session\<close>

text \<open>
  An environment and a state in which the properties of sessions are applied: empty tables of
  two slots, one user \<open>a\<close> with password \<open>p\<close>, one upstream proxy with credentials \<open>x\<close> and \<open>y\<close>,
  and descriptors that behave as told.
\<close>

definition ex_ip :: cache_ip where
  "ex_ip = \<lparr>ip_elements = 0, ip_size = 2, ip_map = replicate 2 ip2creds_zero\<rparr>"

definition ex_app :: cache_ap where
  "ex_app = \<lparr>ap_elements = 0, ap_size = 2, ap_map = replicate 2 app2passwd_zero\<rparr>"

definition ex_conn :: "bool \<Rightarrow> conn_script" where
  "ex_conn b = \<lparr>getfl_ok = True, setfl_ok = b, conn_result = None, waits = [Wait_Ready],
     sockopt_ok = True, so_error = None, restore_ok = True\<rparr>"

definition ex_addr :: sockaddr where
  "ex_addr = \<lparr>sin_family = AF_INET, sin_addr = [10, 0, 0, 9], sin_port = [0, 80]\<rparr>"

definition ex_env :: "bool \<Rightarrow> env" where
  "ex_env b = \<lparr>peername_ok = True, socket_fd = 7, conn_scr = ex_conn b, sockname = Some ex_addr,
     alloc = (\<lambda>_. True), dup = (\<lambda>_ _. True), sql_dup = (\<lambda>_. True), sql_app = (\<lambda>u. if u = [97] then Some [112] else None),
     sql_proxy = (\<lambda>_ _. Some ([120], [121])), resolve = (\<lambda>_. None),
     t_get = 1, t_ttl = 1, t_check = 1, t_put = 1, nb_cli = True, nb_prx = True,
     polls = [Poll_Ready True False False False, Poll_Ready False False False True],
     others = (\<lambda>_. id)\<rparr>"

definition ex_world :: "byte list \<Rightarrow> byte list \<Rightarrow> world" where
  "ex_world c p = \<lparr>sess = socks5_cli_zero, w_cli = sock_of [RData c] [WSpace 400],
     w_prx = sock_of [RData p] [WSpace 400], w_ip = ex_ip, w_app = ex_app, w_dns = dns_example, trace = []\<rparr>"

lemma ex_ip_init: "cache_initip (\<lambda>_. True) 2 = Some ex_ip"
  by (simp add: cache_initip_def ex_ip_def)

lemma ex_app_init: "cache_initapp (\<lambda>_. True) 2 = Some ex_app"
  by (simp add: cache_initapp_def ex_app_def)

lemmas ex_ip = ip_inv_init [OF ex_ip_init] initip_inv(6) [OF ex_ip_init]
lemmas ex_app = app_inv_init [OF ex_app_init] initapp_inv(6) [OF ex_app_init]

lemma ex_plenty: "plenty (ex_env b)"
  by (simp add: plenty_def ex_env_def)

lemma ex_tables_ok: "tables_ok enough (ex_world c p)"
  using ex_ip(1) ex_app(1) dns_example_ok by (simp add: tables_ok_iff ip_inv_def app_inv_def ex_world_def)

lemma ex_env_ok: "env_ok enough (ex_env b)"
  using ex_plenty [of b] by (simp add: env_ok_def ex_env_def)

text \<open>The bytes of a client that logs in and asks for \<open>ex_addr\<close>, then sends two bytes.\<close>

lemma ex_login: "login_name [97] [10, 0, 0, 1] 1080 = [97, 45, 49, 48, 46, 48, 46, 48, 46, 49, 45, 49, 48, 56, 48]"
  by (simp add: login_name_def dash_def dot_def dec.simps)

definition ex_client :: "byte list" where
  "ex_client = [5, 1, 2] @ [1, 15] @ [97, 45, 49, 48, 46, 48, 46, 48, 46, 49, 45, 49, 48, 56, 48]
     @ [1, 112] @ [5, 1, 0, 1, 10, 0, 0, 9, 0, 80] @ [1, 2]"

definition ex_proxy :: "byte list" where
  "ex_proxy = [5, 2] @ [1, 0] @ [5, 0, 0, 1, 0, 0, 0, 0, 0, 0] @ [3]"

lemma ex_quiet: "quiet (ex_env b)"
  by (simp add: quiet_def ex_env_def)

end
