(* ===== verification/Silk_Auth.thy ===== *)
theory Silk_Auth
  imports Silk_Session_Example
begin

section \<open>Totality and authentication of a session (socks.c)\<close>

text \<open>
  Two invariants of the steps of a session, both interpretations of \<open>session_inv\<close>: the shared
  tables keep their shape, no call hangs, and one dereferences NULL only for want of memory; and no connection to an
  IPv4 address is opened for a client that has not shown the password that the data base
  holds for a user with the same hash.
\<close>

subsection \<open>Totality\<close>

lemma tabs_before: "stays (\<lambda>w. env_ok c e \<and> tables_ok c w) (run_faults c) (run_auth e m)"
proof -
  let ?I = "\<lambda>w. env_ok c e \<and> tables_ok c w"
  have sess: "stays ?I E (upd_sess h)" for h E
    by (rule stays_upd) (simp add: tables_ok_def)
  have strip: "stays ?I E run_strip" for E
    by (auto simp: stays_def triple_def run_strip_def tables_ok_def split: prod.split)
  show ?thesis
    unfolding run_auth_def
    by (intro stays_intros stays_readauth sess strip stays_doauth tables_ok_passwd tabs.wire)
qed

lemma tabs_run_body: "stays (\<lambda>w. env_ok c e \<and> tables_ok c w) (run_faults c) (run_body e)"
  unfolding run_body_def
  by (rule stays_bnd, rule stays_choosemethod, rule tabs.wire, rule stays_bnd, rule tabs_before,
      rule tabs.stays_after_auth)

lemma session_tables:
  assumes "env_ok c e" and "tables_ok c w"
  shows "case socks5_run e fd w of Inl f \<Rightarrow> f \<in> run_faults c | Inr (r, w') \<Rightarrow> tables_ok c w'"
proof -
  let ?w = "w\<lparr>sess := socks5_cli_zero\<lparr>clientfd := fd\<rparr>\<rparr>"
  have cl: "tables_ok c (close_both w') = tables_ok c w'" for w'
    by (simp add: close_both_def tables_ok_def)
  have w: "tables_ok c ?w" using assms(2) by (simp add: tables_ok_def)
  with tabs_run_body [of c e, unfolded stays_def triple_def] assms(1)
  have "case run_body e ?w of Fault f \<Rightarrow> f \<in> run_faults c
      | Stop _ w' \<Rightarrow> env_ok c e \<and> tables_ok c w' | Val _ w' \<Rightarrow> env_ok c e \<and> tables_ok c w'" by blast
  then show ?thesis
    using w by (cases "run_body e ?w") (auto simp: socks5_run_def Let_def cl)
qed

text \<open>C5: A session never hangs in a table, and dereferences a null pointer only for want of
  memory.  Whatever the two peers send, whatever the kernel, the data base, the resolver and the
  allocator answer, and whatever other threads make of the tables between its calls as long as
  they keep their shape, it returns, or is still relaying, with the three shared tables in their
  shape, or ends in one of three faults: the overflow of the reply buffer, the memcpy of a
  negative length, or a NULL string.  The last takes a \<open>strdup\<close> that failed: if \<open>enough\<close>, that is,
  all copies of strings succeed and have succeeded so far, there is none, and the tables hold no
  NULL afterwards either.\<close>

theorem session_keeps_tables:
  assumes "env_ok enough e" and "tables_ok enough w"
  shows "(\<exists>r w'. socks5_run e fd w = Inr (r, w') \<and> tables_ok enough w')
    \<or> socks5_run e fd w \<in> {Inl Bad_Memcpy, Inl Buffer_Overflow}
    \<or> \<not> enough \<and> socks5_run e fd w = Inl Null_Deref"
  using session_tables [OF assms, of fd]
  by (auto simp: run_faults_def split: sum.splits prod.splits if_splits)

lemma session_keeps_tables_witness:
  "(\<exists>r w'. socks5_run (ex_env True) 4 (ex_world ex_client ex_proxy) = Inr (r, w') \<and> tables_ok True w')
    \<or> socks5_run (ex_env True) 4 (ex_world ex_client ex_proxy) \<in> {Inl Bad_Memcpy, Inl Buffer_Overflow}
    \<or> \<not> True \<and> socks5_run (ex_env True) 4 (ex_world ex_client ex_proxy) = Inl Null_Deref"
  by (rule session_keeps_tables [OF ex_env_ok ex_tables_ok])

subsection \<open>Authentication\<close>

text \<open>The password in the session is one that the data base has for a user with that hash.\<close>

definition authd :: "env \<Rightarrow> world \<Rightarrow> bool" where
  "authd e w \<longleftrightarrow> (\<exists>b. hashStr b = hashStr (user (sess w)) \<and> sql_app e b = Some (passwd (sess w)))"

definition dialled :: "world \<Rightarrow> bool" where
  "dialled w \<longleftrightarrow> (\<exists>sa. A_connect sa \<in> set (trace w) \<and> sin_family sa = AF_INET)"

definition safe_dials :: "env \<Rightarrow> world \<Rightarrow> bool" where
  "safe_dials e w \<longleftrightarrow> (dialled w \<longrightarrow> authd e w)"

definition ready_dials :: "env \<Rightarrow> world \<Rightarrow> bool" where
  "ready_dials e w \<longleftrightarrow> safe_dials e w \<and> (sin_family (srvpeer (sess w)) = AF_INET \<longrightarrow> authd e w)"

text \<open>The passwords in the cache come from the data base.\<close>

definition app_coherent :: "env \<Rightarrow> cache_ap \<Rightarrow> bool" where
  "app_coherent e c \<longleftrightarrow>
     app_sound c \<and> (\<forall>k v. app_lookup c k = Some v \<longrightarrow> (\<exists>a. hashStr a = k \<and> sql_app e a = Some v))"

text \<open>The other threads, too, put nothing into the password cache that is not in the data base.\<close>

definition honest :: "env \<Rightarrow> bool" where
  "honest e \<longleftrightarrow>
     (\<forall>p i a d. app_coherent e a \<longrightarrow> app_coherent e (fst (snd (others e p (i, a, d)))))"

lemma quiet_honest: "quiet e \<Longrightarrow> honest e"
  by (simp add: quiet_def honest_def)

lemmas ex_honest = quiet_honest [OF ex_quiet]

definition before_auth :: "env \<Rightarrow> world \<Rightarrow> bool" where
  "before_auth e w \<longleftrightarrow> honest e \<and> app_coherent e (w_app w) \<and> \<not> dialled w"

lemmas dial_defs = safe_dials_def ready_dials_def dialled_def authd_def

lemma authd_upd [simp]:
  "authd e (w\<lparr>trace := t\<rparr>) = authd e w"
  "authd e (w\<lparr>sess := (sess w)\<lparr>request := r\<rparr>\<rparr>) = authd e w"
  "authd e (w\<lparr>sess := (sess w)\<lparr>cmd := b\<rparr>\<rparr>) = authd e w"
  "authd e (w\<lparr>trace := t, sess := (sess w)\<lparr>proxyfd := fd\<rparr>\<rparr>) = authd e w"
  by (simp_all add: authd_def)

lemma dialled_upd [simp]:
  "dialled (w\<lparr>sess := c\<rparr>) = dialled w"
  "dialled (w\<lparr>trace := t, sess := c\<rparr>) = dialled (w\<lparr>trace := t\<rparr>)"
  "dialled (w\<lparr>trace := trace w @ [a]\<rparr>) \<longleftrightarrow> dialled w \<or> (\<exists>sa. a = A_connect sa \<and> sin_family sa = AF_INET)"
  by (auto simp: dialled_def)

lemma dials_eq:
  "ready_dials e (w\<lparr>w_cli := s\<rparr>) = ready_dials e w" "ready_dials e (w\<lparr>w_prx := s\<rparr>) = ready_dials e w"
  "ready_dials e (w\<lparr>w_dns := h\<rparr>) = ready_dials e w" "ready_dials e (w\<lparr>w_ip := c\<rparr>) = ready_dials e w"
  by (simp_all add: dial_defs)

lemma ready_dials_upd:
  "ready_dials e w \<Longrightarrow> ready_dials e (w\<lparr>sess := (sess w)\<lparr>request := r\<rparr>\<rparr>)"
  "ready_dials e w \<Longrightarrow> ready_dials e (w\<lparr>sess := (sess w)\<lparr>cmd := b\<rparr>\<rparr>)"
  "ready_dials e w \<Longrightarrow> ready_dials e (w\<lparr>trace := trace w @ [A_socket], sess := (sess w)\<lparr>proxyfd := fd\<rparr>\<rparr>)"
  "ready_dials e w \<Longrightarrow> ready_dials e (w\<lparr>trace := trace w @ [A_connect (srvpeer (sess w))]\<rparr>)"
  "(\<And>sa. a \<noteq> A_connect sa) \<Longrightarrow> ready_dials e w \<Longrightarrow> ready_dials e (w\<lparr>trace := trace w @ [a]\<rparr>)"
  by (simp_all add: ready_dials_def safe_dials_def)

lemma ready_dials_off_tables: "off_tables (ready_dials e)"
  by (simp add: off_tables_def dial_defs)

interpretation aut: session_inv "ready_dials e" UNIV e for e
proof (unfold_locales, goal_cases)
  case 1
  show ?case by (auto simp: off_wire_def dials_eq)
next
  case (10 n)
  show ?case by (rule stays_off_tables [OF ready_dials_off_tables])
next
  case (11 n a)
  show ?case by (rule stays_off_tables [OF ready_dials_off_tables])
next
  case (12 ip port)
  show ?case by (rule stays_yields_any) (simp_all add: stays_off_tables [OF ready_dials_off_tables])
qed (simp_all only: UNIV_I, (rule ready_dials_upd; simp)+)

lemma coherent_meanwhile:
  "honest e \<Longrightarrow> app_coherent e (w_app w) \<Longrightarrow> app_coherent e (w_app (meanwhile e p w))"
  unfolding honest_def meanwhile_def by (auto split: prod.split) (metis fst_conv snd_conv)

lemma coherent_put:
  assumes "app_coherent e c" and "sql_app e u = Some p"
  shows "case cache_putapp mem d c u (Some p) of Inl f \<Rightarrow> f = Null_Deref | Inr c' \<Rightarrow> app_coherent e c'"
proof -
  have "app_sound c" using assms(1) by (simp add: app_coherent_def)
  note put = putapp_sound [where alloc = mem and dup = d and a = u and p = p, OF this]
  show ?thesis
  proof (cases "cache_putapp mem d c u (Some p)")
    case (Inr c')
    with put have c': "app_sound c'" "\<And>k v. app_lookup c' k = Some v \<Longrightarrow> k = hashStr u \<and> v = p \<or> app_lookup c k = Some v"
      by auto
    with assms Inr show ?thesis unfolding app_coherent_def by (auto dest!: c'(2))
  qed (use put in simp)
qed

lemma app_passwd_of_authentic:
  assumes h: "honest e" and c: "app_coherent e (w_app w)"
  shows "case app_passwd_of e u w of
      Fault f \<Rightarrow> f = Null_Deref
    | Stop _ w' \<Rightarrow> False
    | Val r w' \<Rightarrow> app_coherent e (w_app w') \<and> sess w' = sess w \<and> trace w' = trace w
        \<and> (\<forall>p. r = Some (Some p) \<longrightarrow> (\<exists>b. hashStr b = hashStr u \<and> sql_app e b = Some p))"
proof -
  let ?w = "meanwhile e At_app_get w"
  have c1: "app_coherent e (w_app ?w)" by (rule coherent_meanwhile [OF h c])
  then have "app_sound (w_app ?w)" by (simp add: app_coherent_def)
  note g = getapp_sound [where dup = "dup e At_app_get" and a = u, OF this]
  show ?thesis
  proof (cases "cache_getapp (dup e At_app_get) (w_app ?w) u")
    case (Inl f)
    with g show ?thesis by (simp add: app_passwd_of_def app_get_def bnd_def Let_def)
  next
    case (Inr r)
    show ?thesis
    proof (cases "r = None")
      case False
      with Inr g c1 show ?thesis
        by (auto simp: app_passwd_of_def app_get_def bnd_def ret_def Let_def app_coherent_def)
    next
      case True
      show ?thesis
      proof (cases "app_query e u")
        case None
        with True Inr c1 show ?thesis
          by (simp add: app_passwd_of_def app_get_def bnd_def ret_def Let_def)
      next
        case (Some p)
        let ?v = "meanwhile e At_app_put ?w"
        have q: "sql_app e u = Some p" using Some by (auto simp: app_query_def split: option.splits if_splits)
        have "app_coherent e (w_app ?v)" by (rule coherent_meanwhile [OF h c1])
        from coherent_put [OF this q, of "alloc e" "dup e At_app_put"] True Inr Some q show ?thesis
          by (auto simp: app_passwd_of_def app_get_def app_put_def bnd_def ret_def Let_def split: sum.splits)
      qed
    qed
  qed
qed

lemma doauth_authentic:
  "triple (before_auth e) (socks5_doauth e) (\<lambda>_ w. \<not> dialled w \<and> authd e w) (\<lambda>w. \<not> dialled w) UNIV"
  unfolding triple_def
proof (intro allI impI)
  fix w assume b: "before_auth e w"
  then have "honest e" "app_coherent e (w_app w)" by (simp_all add: before_auth_def)
  note a = app_passwd_of_authentic [OF this, of "user (sess w)"]
  show "case socks5_doauth e w of Fault f \<Rightarrow> f \<in> UNIV | Stop _ w' \<Rightarrow> \<not> dialled w'
      | Val _ w' \<Rightarrow> \<not> dialled w' \<and> authd e w'"
  proof (cases "app_passwd_of e (user (sess w)) w")
    case (Val r w')
    with a have r: "sess w' = sess w" "trace w' = trace w"
        "\<forall>p. r = Some (Some p) \<longrightarrow> (\<exists>a. hashStr a = hashStr (user (sess w)) \<and> sql_app e a = Some p)" by simp_all
    have "\<not> dialled w'" using b r(2) by (simp add: before_auth_def dialled_def)
    with r Val show ?thesis
      by (auto simp: socks5_doauth_def bnd_def get_sess_def stop_def require_def authd_def lift_fault_def
          c_string_def split: option.split)
  qed (use a in \<open>auto simp: socks5_doauth_def bnd_def get_sess_def\<close>)
qed

lemma before_auth_off_wire: "off_wire (before_auth e)"
  by (simp add: off_wire_def before_auth_def dialled_def)

lemma before_auth_login: "stays (before_auth e) UNIV (bnd socks5_readauth (\<lambda>_. run_strip))"
  by (intro stays_intros stays_readauth before_auth_off_wire stays_upd)
    (auto simp: before_auth_def dialled_def stays_def triple_def run_strip_def split: prod.split)

definition not_redirected :: "world \<Rightarrow> bool" where
  "not_redirected w \<longleftrightarrow> sin_family (srvpeer (sess w)) \<noteq> AF_INET"

lemma run_auth_authentic:
  "triple (\<lambda>w. before_auth e w \<and> not_redirected w) (run_auth e m) (\<lambda>_. ready_dials e) (safe_dials e) UNIV"
proof (cases "m = 0x02")
  case True
  have assoc: "bnd socks5_readauth (\<lambda>_. bnd run_strip (\<lambda>_. socks5_doauth e)) =
      bnd (bnd socks5_readauth (\<lambda>_. run_strip)) (\<lambda>_. socks5_doauth e)"
    by (rule ext) (simp add: bnd_def split: outcome.split)
  have "triple (before_auth e) (bnd (bnd socks5_readauth (\<lambda>_. run_strip)) (\<lambda>_. socks5_doauth e))
      (\<lambda>_ w. \<not> dialled w \<and> authd e w) (\<lambda>w. \<not> dialled w) UNIV"
    by (rule triple_bnd [OF stays_triple [OF before_auth_login] doauth_authentic]) (simp add: before_auth_def)
  then show ?thesis
    unfolding run_auth_def if_P [OF True] assoc
    by (rule triple_weaken) (auto simp: ready_dials_def safe_dials_def)
next
  case False
  then show ?thesis
    by (auto simp: run_auth_def triple_def stop_def ret_def before_auth_def not_redirected_def
        ready_dials_def safe_dials_def)
qed

lemma run_body_authentic:
  "triple (\<lambda>w. before_auth e w \<and> not_redirected w) (run_body e) (\<lambda>_. safe_dials e) (safe_dials e) UNIV"
proof -
  let ?P = "\<lambda>w. before_auth e w \<and> not_redirected w"
  have "off_wire ?P"
    using before_auth_off_wire [of e] by (simp add: off_wire_def not_redirected_def)
  then have "triple ?P socks5_choosemethod (\<lambda>_. ?P) (safe_dials e) UNIV"
    by (intro stays_triple stays_choosemethod) (auto simp: before_auth_def safe_dials_def)
  moreover have "triple (ready_dials e) (bnd (socks5_readrequest e) (\<lambda>_. bnd get_sess (\<lambda>client.
      if cmd client = 0x01 then run_connect e else stop 7))) (\<lambda>_. safe_dials e) (safe_dials e) UNIV"
    by (rule triple_weaken [OF aut.stays_after_auth [unfolded stays_def]])
      (auto simp: ready_dials_def)
  ultimately show ?thesis
    unfolding run_body_def by (intro triple_bnd [OF _ triple_bnd [OF run_auth_authentic]])
qed

text \<open>The password cache stays coherent with the data base, whatever the session does.\<close>

abbreviation (input) coh_inv :: "env \<Rightarrow> world \<Rightarrow> bool" where
  "coh_inv e \<equiv> \<lambda>w. honest e \<and> app_coherent e (w_app w)"

lemma coh_calls:
  "stays (coh_inv e) UNIV (dns_get e n)" "stays (coh_inv e) UNIV (dns_put e n a)"
  "stays (coh_inv e) UNIV (proxy_creds_of e ip port)" "stays (coh_inv e) UNIV (app_passwd_of e u)"
proof -
  have m: "coh_inv e (meanwhile e p w)" if "coh_inv e w" for p w
    using that coherent_meanwhile by blast
  show "stays (coh_inv e) UNIV (dns_get e n)" "stays (coh_inv e) UNIV (dns_put e n a)"
    unfolding dns_get_def dns_put_def Let_def
    by (rule stays_after_others, erule m, auto split: sum.split)+
  show "stays (coh_inv e) UNIV (proxy_creds_of e ip port)"
  proof (rule stays_proxy_creds)
    show "stays (coh_inv e) UNIV (ip_get e ip)" "stays (coh_inv e) UNIV (ip_put e ip cr)" for cr
      unfolding ip_get_def ip_put_def Let_def
      by (rule stays_after_others, erule m, auto split: sum.split)+
  qed
  show "stays (coh_inv e) UNIV (app_passwd_of e u)"
    unfolding stays_def triple_def
  proof (intro allI impI, elim conjE)
    fix w :: world assume h: "honest e" and c: "app_coherent e (w_app w)"
    from app_passwd_of_authentic [OF h c, of u] h
    show "case app_passwd_of e u w of Fault f \<Rightarrow> f \<in> UNIV | Stop _ w' \<Rightarrow> coh_inv e w' | Val _ w' \<Rightarrow> coh_inv e w'"
      by (auto split: outcome.splits)
  qed
qed

interpretation coh: session_inv "coh_inv e" UNIV e for e
  by unfold_locales (simp_all add: off_wire_def coh_calls stays_yields_any)

lemma coh_run_body: "stays (coh_inv e) UNIV (run_body e)"
proof -
  have strip: "stays (coh_inv e) UNIV run_strip"
    by (auto simp: stays_def triple_def run_strip_def split: prod.split)
  have upd: "stays (coh_inv e) UNIV (upd_sess h)" for h
    by (rule stays_upd) simp
  have "stays (coh_inv e) UNIV (socks5_doauth e)"
    by (intro stays_doauth stays_yields_any coh_calls) simp
  then have "stays (coh_inv e) UNIV (run_auth e m)" for m
    unfolding run_auth_def by (intro stays_intros stays_readauth upd strip coh.wire)
  then show ?thesis
    unfolding run_body_def by (intro stays_bnd [OF stays_choosemethod] stays_bnd coh.wire coh.stays_after_auth)
qed

lemma session_coherent:
  assumes "honest e" and "app_coherent e (w_app w)" and "socks5_run e fd w = Inr (r, w')"
  shows "app_coherent e (w_app w')"
proof -
  let ?w = "w\<lparr>sess := socks5_cli_zero\<lparr>clientfd := fd\<rparr>\<rparr>"
  have c: "w_app (close_both v) = w_app v" for v by (simp add: close_both_def)
  have "coh_inv e ?w" using assms(1,2) by simp
  with coh_run_body [of e, unfolded stays_def triple_def]
  have "case run_body e ?w of Fault f \<Rightarrow> f \<in> UNIV
      | Stop _ w' \<Rightarrow> coh_inv e w' | Val _ w' \<Rightarrow> coh_inv e w'" by blast
  with assms show ?thesis
    by (auto simp: socks5_run_def Let_def c split: if_splits outcome.splits)
qed

subsection \<open>Descriptors\<close>

definition closed :: "world \<Rightarrow> bool" where
  "closed w \<longleftrightarrow> (\<exists>x. A_close x \<in> set (trace w))"

definition descriptors :: "env \<Rightarrow> int \<Rightarrow> world \<Rightarrow> bool" where
  "descriptors e fd w \<longleftrightarrow> clientfd (sess w) = fd \<and> \<not> closed w
     \<and> proxyfd (sess w) = (if A_socket \<in> set (trace w) then socket_fd e else 0)"

lemma descriptors_sess:
  "clientfd c = clientfd (sess w) \<Longrightarrow> proxyfd c = proxyfd (sess w) \<Longrightarrow>
   descriptors e fd (w\<lparr>sess := c\<rparr>) = descriptors e fd w"
  by (simp add: descriptors_def closed_def)

lemma descriptors_upd [simp]:
  "descriptors e fd (w\<lparr>w_dns := h\<rparr>) = descriptors e fd w"
  "descriptors e fd (w\<lparr>w_ip := c\<rparr>) = descriptors e fd w"
  "descriptors e fd (w\<lparr>w_app := c'\<rparr>) = descriptors e fd w"
  by (simp_all add: descriptors_def closed_def)

lemma descriptors_off_tables: "off_tables (descriptors e fd)"
  by (simp add: off_tables_def descriptors_def closed_def)

interpretation des: session_inv "descriptors e fd" UNIV e for e fd
  by unfold_locales
    (auto simp: off_wire_def descriptors_def closed_def
      intro: stays_off_tables [OF descriptors_off_tables] stays_yields_any)

lemma strip_descriptors:
  "strip_redirectaddr c = (st, c') \<Longrightarrow> clientfd c' = clientfd c \<and> proxyfd c' = proxyfd c"
  by (auto simp: strip_redirectaddr_def Let_def split: if_splits option.splits prod.splits)

lemma descriptors_run_body: "stays (descriptors e fd) UNIV (run_body e)"
proof -
  have "stays (descriptors e fd) UNIV run_strip"
    by (auto simp: stays_def triple_def run_strip_def descriptors_sess dest: strip_descriptors split: prod.split)
  moreover have "stays (descriptors e fd) UNIV (socks5_doauth e)"
    by (intro stays_doauth stays_yields_any stays_off_tables [OF descriptors_off_tables]) simp
  moreover have "stays (descriptors e fd) UNIV socks5_readauth"
    by (intro stays_readauth stays_upd des.wire) (simp_all add: descriptors_sess)
  ultimately have "stays (descriptors e fd) UNIV (run_auth e m)" for m
    unfolding run_auth_def by (intro stays_intros)
  then show ?thesis
    unfolding run_body_def by (intro stays_bnd [OF stays_choosemethod] stays_bnd des.wire des.stays_after_auth)
qed

text \<open>C6: Descriptors: a session that returns has closed the client's descriptor and then the
  upstream one, each once and as its last calls; a session that is still relaying has closed
  none.  When the session ends before a socket was opened, the second descriptor it closes is
  number 0, which it does not own.\<close>

theorem session_closes:
  assumes "trace w = []" and "socks5_run e fd w = Inr (r, w')"
  shows "case r of
      Relaying \<Rightarrow> \<not> closed w'
    | Returned st \<Rightarrow> \<exists>tr. trace w' = tr @ [A_close fd, A_close (if A_socket \<in> set tr then socket_fd e else 0)]
        \<and> (\<forall>x. A_close x \<notin> set tr)"
proof -
  let ?w = "w\<lparr>sess := socks5_cli_zero\<lparr>clientfd := fd\<rparr>\<rparr>"
  have w: "descriptors e fd ?w" using assms(1) by (simp add: descriptors_def closed_def socks5_cli_zero_def)
  have c: "\<exists>tr. trace (close_both v) = tr @ [A_close fd, A_close (if A_socket \<in> set tr then socket_fd e else 0)]
        \<and> (\<forall>x. A_close x \<notin> set tr)" if "descriptors e fd v" for v
    using that by (auto simp: close_both_def descriptors_def closed_def)
  from w descriptors_run_body [of e fd, unfolded stays_def triple_def]
  have b: "case run_body e ?w of Fault f \<Rightarrow> f \<in> UNIV | Stop _ w' \<Rightarrow> descriptors e fd w' | Val _ w' \<Rightarrow> descriptors e fd w'"
    by blast
  show ?thesis
  proof (cases "peername_ok e")
    case False
    with assms(2) c [OF w] show ?thesis by (auto simp: socks5_run_def Let_def)
  next
    case True
    show ?thesis
    proof (cases "run_body e ?w")
      case (Fault f)
      with True assms(2) show ?thesis by (simp add: socks5_run_def Let_def)
    next
      case (Stop st v)
      with b c [of v] True assms(2) show ?thesis by (auto simp: socks5_run_def Let_def)
    next
      case (Val fin v)
      with b c [of v] True assms(2) show ?thesis
        by (cases fin) (auto simp: socks5_run_def Let_def descriptors_def)
    qed
  qed
qed

lemma session_closes_witness:
  "\<exists>w'. socks5_run (ex_env True) 4 (ex_world [] []) = Inr (Returned (Some 1), w')
    \<and> (\<exists>tr. trace w' = tr @ [A_close 4, A_close (if A_socket \<in> set tr then socket_fd (ex_env True) else 0)]
        \<and> (\<forall>x. A_close x \<notin> set tr))"
proof -
  have t: "trace (ex_world [] []) = []" by (simp add: ex_world_def)
  have "\<exists>w'. socks5_run (ex_env True) 4 (ex_world [] []) = Inr (Returned (Some 1), w')"
    by (simp add: socks5_run_def Let_def ex_env_def run_body_def socks5_choosemethod_def bnd_def recv_cli_def
        ex_world_def sock_of_def readn_timeo_def readn_loop.simps)
  then obtain w' where r: "socks5_run (ex_env True) 4 (ex_world [] []) = Inr (Returned (Some 1), w')" by blast
  from session_closes [OF t r] r show ?thesis by auto
qed

end
