(* ===== verification/Silk_Session_Run.thy ===== *)
theory Silk_Session_Run
  imports Silk_Handshake Silk_Auth
begin

section \<open>A whole session, byte for byte (socks.c)\<close>

text \<open>
  The handshake rules composed: what a session with a well-behaved client and upstream proxy
  sends to each side, up to the relay, and what the relay adds.
\<close>

definition login_msg :: "cstr \<Rightarrow> cstr \<Rightarrow> byte list" where
  "login_msg un pw = 1 # of_nat (length un) # un @ of_nat (length pw) # pw"

definition greeting :: "byte list \<Rightarrow> byte list" where
  "greeting ms = 5 # of_nat (length ms) # ms"

lemma unat_len: "n \<le> 255 \<Longrightarrow> unat (of_nat n :: byte) = n"
  by (simp add: unat_of_nat take_bit_nat_eq_self)

text \<open>The calls of a session up to the reply to the client.\<close>

lemma run_body_relay:
  assumes "leads (bnd socks5_choosemethod (\<lambda>m. bnd (run_auth e m) (\<lambda>_. bnd (socks5_readrequest e) (\<lambda>_.
      bnd get_sess (\<lambda>c. bnd (require (cmd c = 1) 7) (\<lambda>_.
      bnd (socks5_connectproxy e) (\<lambda>_. bnd (socks5_writereply e 0) ret)))))) w) Q"
  shows "\<exists>w'. run_body e w = run_negotiate e w' \<and> Q () w'"
proof -
  from assms obtain m w1 w2 w3 w4 w5 where steps:
      "socks5_choosemethod w = Val m w1" "run_auth e m w1 = Val () w2" "socks5_readrequest e w2 = Val () w3"
      "cmd (sess w3) = 1" "socks5_connectproxy e w3 = Val () w4" "socks5_writereply e 0 w4 = Val () w5"
      and Q: "Q () w5"
    unfolding leads_def bnd_eq_Val
    by (auto simp: get_sess_def require_def ret_def split: if_splits)
  then have "run_body e w = run_negotiate e w5"
    by (simp add: run_body_def bnd_Val get_sess_def run_connect_def)
  with Q show ?thesis by blast
qed

text \<open>The session a client asks for: who, through which proxy, to which address.\<close>

definition session_input :: "byte list \<Rightarrow> cstr \<Rightarrow> byte list \<Rightarrow> nat \<Rightarrow> cstr \<Rightarrow> sockaddr \<Rightarrow> byte list" where
  "session_input ms u ad port pw a =
     greeting ms @ login_msg (login_name u ad port) pw @ addr_message 1 a"

text \<open>What the environment must answer for the session to succeed.\<close>

definition session_env ::
  "env \<Rightarrow> world \<Rightarrow> cstr \<Rightarrow> byte list \<Rightarrow> nat \<Rightarrow> cstr \<Rightarrow> cstr \<Rightarrow> cstr \<Rightarrow> sockaddr \<Rightarrow> bool"
where
  "session_env e w u ad port pw pu pp ss \<longleftrightarrow>
     peername_ok e \<and> quiet e \<and> dials e \<and> sockname e = Some ss \<and> sa_ok ss
     \<and> plenty e
     \<and> (\<exists>ac. read_app e (w_app w) u = Inr (Some (Some pw), ac))
     \<and> (\<exists>ic. read_ip e (ntohs (htons (of_nat port))) (w_ip w) (ntohl ad) = Inr (Some (Some pu, Some pp), ic))"

definition login_ok :: "byte list \<Rightarrow> cstr \<Rightarrow> byte list \<Rightarrow> nat \<Rightarrow> cstr \<Rightarrow> bool" where
  "login_ok ms u ad port pw \<longleftrightarrow> length ms \<le> 255 \<and> 2 \<in> set ms \<and> u \<noteq> [] \<and> dash \<notin> set u \<and> length ad = 4
     \<and> port < 100000 \<and> 0 \<notin> set (login_name u ad port) \<and> length (login_name u ad port) \<le> 255
     \<and> 0 \<notin> set pw \<and> length pw \<le> 255"

definition upstream :: "byte list \<Rightarrow> nat \<Rightarrow> sockaddr" where
  "upstream ad port = \<lparr>sin_family = AF_INET, sin_addr = ad, sin_port = htons (of_nat port)\<rparr>"

lemma session_handshake:
  assumes env: "session_env e w u ad port pw pu pp ss" and login: "login_ok ms u ad port pw"
    and a: "sa_ok a" and len: "length pu \<le> 127" "length pp \<le> 127" and g: "good_reply r"
    and cli: "peer (w_cli w) (session_input ms u ad port pw a @ rest) k out" "26 \<le> k"
    and prx: "peer (w_prx w) ([5, 2] @ [1, 0] @ r @ back) k' out'" "300 \<le> k'"
  shows "\<exists>w' k1 k2. run_body e w = run_negotiate e w'
    \<and> peer (w_cli w') rest k1 (out @ [5, 2] @ [1, 0] @ addr_message 0 ss)
    \<and> peer (w_prx w') back k2 (out' @ proxy_dialogue pu pp a)
    \<and> trace w' = trace w @ [A_socket, A_connect (upstream ad port)]"
proof -
  obtain ac ic where rt: "read_app e (w_app w) u = Inr (Some (Some pw), ac)"
      "read_ip e (ntohs (htons (of_nat port))) (w_ip w) (ntohl ad) = Inr (Some (Some pu, Some pp), ic)"
    and e: "dials e" "sockname e = Some ss" "sa_ok ss" and q: "quiet e" "plenty e"
    using env by (auto simp: session_env_def)
  have l: "unat (of_nat (length ms) :: byte) = length ms"
      "unat (of_nat (length (login_name u ad port)) :: byte) = length (login_name u ad port)"
      "unat (of_nat (length pw) :: byte) = length pw"
    and cp: "c_str pw = pw" and ch: "chosen ms = 2"
    using login by (auto simp: login_ok_def unat_len c_str_id chosen_def)
  have fd: "socket_fd e \<noteq> -1" using e(1) by (simp add: dials_def)
  note c1 = cli(1) [unfolded session_input_def greeting_def login_msg_def append_assoc append_Cons]
  let ?Q = "\<lambda>_ w'. (\<exists>k1. peer (w_cli w') rest k1 (out @ [5, 2] @ [1, 0] @ addr_message 0 ss))
      \<and> (\<exists>k2. peer (w_prx w') back k2 (out' @ proxy_dialogue pu pp a))
      \<and> trace w' = trace w @ [A_socket, A_connect (upstream ad port)]"
  have "leads (bnd socks5_choosemethod (\<lambda>m. bnd (run_auth e m) (\<lambda>_. bnd (socks5_readrequest e) (\<lambda>_.
      bnd get_sess (\<lambda>c. bnd (require (cmd c = 1) 7) (\<lambda>_.
      bnd (socks5_connectproxy e) (\<lambda>_. bnd (socks5_writereply e 0) ret)))))) w) ?Q"
    apply (rule choosemethod_peer, rule c1, rule l, use cli(2) in simp)
    apply (simp only: ch)
    apply (rule run_auth_peer [where ac = ac and u = u and ad = ad and port = port], rule q, rule q, simp, rule l, rule l,
        use cli(2) in simp, rule refl)
          apply (use login in \<open>simp_all add: login_ok_def rt cp\<close>)[6]
    apply (rule readrequest_addr_peer, simp, simp, rule a)
    apply simp
    apply (rule connectproxy_peer [where ipc' = ic and u = pu and pw = pp], rule q, rule q, rule e, simp, use prx in simp, rule g,
        use a in simp, rule prx(2), simp add: rt(2), rule len, rule len)
    apply simp
    apply (rule writereply_peer, simp, simp add: fd, rule e, rule e, use cli(2) in simp)
    apply (auto simp: upstream_def simp del: One_nat_def)
    done
  then show ?thesis using run_body_relay by blast
qed

subsection \<open>Properties\<close>

lemma run_negotiate_relays:
  assumes "peer (w_cli w) rest k out" and "peer (w_prx w) back k' out'"
  shows "\<exists>res w' x y rest' back'. run_done (run_negotiate e w) = Inr (res, w')
    \<and> sent (w_prx w') = out' @ x \<and> rest = x @ rest' \<and> sent (w_cli w') = out @ y \<and> back = y @ back'
    \<and> set (trace w) \<subseteq> set (trace w')"
proof -
  obtain r st where n: "negotiate (nb_cli e) (nb_prx e) (polls e) (w_cli w) (w_prx w) = (r, st)"
    by (cases "negotiate (nb_cli e) (nb_prx e) (polls e) (w_cli w) (w_prx w)")
  obtain x rest' y back' where d: "sent (prx r) = out' @ x" "rest = x @ rest'"
      "sent (cli r) = out @ y" "back = y @ back'"
    using assms unfolding peer_def by (metis negotiate_prefixes [OF n])
  have "\<exists>res w'. run_done (run_negotiate e w) = Inr (res, w') \<and> w_cli w' = cli r \<and> w_prx w' = prx r
      \<and> set (trace w) \<subseteq> set (trace w')"
    using n by (auto simp: run_negotiate_def Let_def close_both_def split: option.split)
  with d show ?thesis by metis
qed

lemma session_run:
  assumes env: "session_env e w u ad port pw pu pp ss" and login: "login_ok ms u ad port pw"
    and a: "sa_ok a" and len: "length pu \<le> 127" "length pp \<le> 127" and g: "good_reply r"
    and cli: "peer (w_cli w) (session_input ms u ad port pw a @ rest) k out" "26 \<le> k"
    and prx: "peer (w_prx w) ([5, 2] @ [1, 0] @ r @ back) k' out'" "300 \<le> k'"
  shows "\<exists>res w' x y rest' back'. socks5_run e fd w = Inr (res, w')
    \<and> sent (w_prx w') = out' @ proxy_dialogue pu pp a @ x \<and> rest = x @ rest'
    \<and> sent (w_cli w') = out @ [5, 2] @ [1, 0] @ addr_message 0 ss @ y \<and> back = y @ back'
    \<and> A_connect (upstream ad port) \<in> set (trace w')"
proof -
  let ?w = "w\<lparr>sess := socks5_cli_zero\<lparr>clientfd := fd\<rparr>\<rparr>"
  have e: "session_env e ?w u ad port pw pu pp ss" "peername_ok e"
    using env by (simp_all add: session_env_def)
  obtain w1 k1 k2 where run: "run_body e ?w = run_negotiate e w1"
    and p: "peer (w_cli w1) rest k1 (out @ [5, 2] @ [1, 0] @ addr_message 0 ss)"
      "peer (w_prx w1) back k2 (out' @ proxy_dialogue pu pp a)"
    and t: "A_connect (upstream ad port) \<in> set (trace w1)"
    using session_handshake [OF e(1) login a len g, of rest k out "back" k' out'] cli prx by auto
  note relays = run_negotiate_relays [OF p]
  obtain res w' x y rest' back' where d: "run_done (run_negotiate e w1) = Inr (res, w')"
      "sent (w_prx w') = (out' @ proxy_dialogue pu pp a) @ x" "rest = x @ rest'"
      "sent (w_cli w') = (out @ [5, 2] @ [1, 0] @ addr_message 0 ss) @ y" "back = y @ back'"
      "set (trace w1) \<subseteq> set (trace w')"
    using relays [of e] by blast
  have "socks5_run e fd w = Inr (res, w')"
    using d(1) run e(2) by (simp add: socks5_run_def Let_def)
  with d t show ?thesis by auto
qed

text \<open>C3: A whole session, byte for byte.  The client offers the user name and password method,
  logs in as \<open>u-address-port\<close> with the password of the data base, and requests a connection to
  \<open>a\<close>; the upstream proxy accepts, and no other session uses the tables meanwhile.  Then, however the bytes are cut into segments, the proxy is
  sent the greeting, the credentials the data base has for it, the client's request, and then
  a prefix of what the client sends after its request; the client is sent the method, the two
  success replies, and then a prefix of what the proxy sends after its reply.\<close>

theorem session_end_to_end:
  assumes env: "session_env e w u ad port pw pu pp ss" and login: "login_ok ms u ad port pw"
    and a: "sa_ok a" and len: "length pu \<le> 127" "length pp \<le> 127" and g: "good_reply r"
    and cli: "peer (w_cli w) (session_input ms u ad port pw a @ rest) k out" "26 \<le> k"
    and prx: "peer (w_prx w) ([5, 2] @ [1, 0] @ r @ back) k' out'" "300 \<le> k'"
  shows "\<exists>res w' x y rest' back'. socks5_run e fd w = Inr (res, w')
    \<and> sent (w_prx w') = out' @ proxy_dialogue pu pp a @ x \<and> rest = x @ rest'
    \<and> sent (w_cli w') = out @ [5, 2] @ [1, 0] @ addr_message 0 ss @ y \<and> back = y @ back'"
  using session_run [OF assms, of fd] by (elim exE conjE) (intro exI conjI)

lemma ex_session_env:
  "session_env (ex_env True) (ex_world c p) [97] [10, 0, 0, 1] 1080 [112] [120] [121] ex_addr"
proof -
  have "\<exists>ac. read_app (ex_env True) ex_app [97] = Inr (Some (Some [112]), ac)"
    by (rule apc.read_through_miss [OF ex_app]) (simp add: ex_env_def)
  moreover have "\<exists>ic. read_ip (ex_env True) q ex_ip k = Inr (Some (Some [120], Some [121]), ic)" for q k
    using ipc.read_through_miss [OF ex_ip, of "\<lambda>k. sql_proxy (ex_env True) k q" k "([120], [121])" "alloc (ex_env True)"]
    by (simp add: ex_env_def)
  ultimately show ?thesis using ex_plenty [of True]
    by (simp add: quiet_def session_env_def ex_env_def ex_world_def ex_addr_def sa_ok_def dials_def ex_conn_def
        connect_nonb_def)
qed

lemma ex_login_ok: "login_ok [2] [97] [10, 0, 0, 1] 1080 [112]"
  by (simp add: login_ok_def ex_login dash_def)

lemma ex_cli_peer:
  "peer (w_cli (ex_world ex_client p)) (session_input [2] [97] [10, 0, 0, 1] 1080 [112] ex_addr @ [1, 2]) 400 []"
  by (simp add: peer_def ex_world_def sock_of_def ex_client_def session_input_def greeting_def login_msg_def
      ex_login addr_message_def ex_addr_def)

lemma ex_prx_peer:
  "peer (w_prx (ex_world c ex_proxy)) ([5, 2] @ [1, 0] @ [5, 0, 0, 1, 0, 0, 0, 0, 0, 0] @ [3]) 400 []"
  by (simp add: peer_def ex_world_def sock_of_def ex_proxy_def)

lemma ex_addr_ok: "sa_ok ex_addr" "good_reply [5, 0, 0, 1, 0, 0, 0, 0, 0, 0]"
  by (simp_all add: sa_ok_def ex_addr_def good_reply_def)

lemma session_end_to_end_witness:
  "\<exists>res w' x y rest' back'. socks5_run (ex_env True) 4 (ex_world ex_client ex_proxy) = Inr (res, w')
    \<and> sent (w_prx w') = [] @ proxy_dialogue [120] [121] ex_addr @ x \<and> [1, 2] = x @ rest'
    \<and> sent (w_cli w') = [] @ [5, 2] @ [1, 0] @ addr_message 0 ex_addr @ y \<and> [3] = y @ back'"
  by (rule session_end_to_end [OF ex_session_env ex_login_ok ex_addr_ok(1) _ _ ex_addr_ok(2) ex_cli_peer _ ex_prx_peer])
    simp_all

lemma session_dials:
  assumes "honest e" and "app_coherent e (w_app w)" and "trace w = []"
    and "socks5_run e fd w = Inr (r, w')"
    and "A_connect sa \<in> set (trace w')" and "sin_family sa = AF_INET"
  shows "\<exists>b. hashStr b = hashStr (user (sess w')) \<and> sql_app e b = Some (passwd (sess w'))"
proof -
  let ?w = "w\<lparr>sess := socks5_cli_zero\<lparr>clientfd := fd\<rparr>\<rparr>"
  have c: "dialled (close_both v) = dialled v" "authd e (close_both v) = authd e v" for v
    by (auto simp: close_both_def dialled_def authd_def)
  have s: "safe_dials e (close_both v) = safe_dials e v" for v
    by (simp add: safe_dials_def c)
  have "\<not> dialled ?w" using assms(3) by (simp add: dialled_def)
  then have "before_auth e ?w \<and> not_redirected ?w" "safe_dials e ?w"
    using assms(1,2) by (auto simp: before_auth_def not_redirected_def safe_dials_def socks5_cli_zero_def
        sockaddr_zero_def)
  with run_body_authentic [of e, unfolded triple_def]
  have "case run_body e ?w of Fault f \<Rightarrow> f \<in> UNIV | Stop _ w' \<Rightarrow> safe_dials e w' | Val _ w' \<Rightarrow> safe_dials e w'"
    by blast
  then have "safe_dials e w'"
    using assms(4) \<open>safe_dials e ?w\<close>
    by (auto simp: socks5_run_def Let_def s split: if_splits outcome.splits)
  with assms(5,6) show ?thesis by (auto simp: dial_defs)
qed

text \<open>C4: No connection without a password: if the cached passwords come from the data base,
  and other threads keep it so, then a session that asks the kernel for a connection to any IPv4 upstream server has a
  password that the data base holds for some user whose name has the same hash as the
  client's.  (The hash is all that the cache compares, so this is what the code can promise;
  \<open>app_cache_collision\<close> shows that the names can differ.)\<close>

theorem session_dials_only_authenticated:
  assumes "honest e" and "app_coherent e (w_app w)" and "trace w = []"
    and "socks5_run e fd w = Inr (r, w')"
    and "A_connect sa \<in> set (trace w')" and "sin_family sa = AF_INET"
  shows "\<exists>b. hashStr b = hashStr (user (sess w')) \<and> sql_app e b = Some (passwd (sess w'))"
  using assms by (rule session_dials)

lemma session_dials_only_authenticated_witness:
  "\<exists>res w'. socks5_run (ex_env True) 4 (ex_world ex_client ex_proxy) = Inr (res, w')
    \<and> (\<exists>b. hashStr b = hashStr (user (sess w')) \<and> sql_app (ex_env True) b = Some (passwd (sess w')))"
proof -
  have run: "\<exists>res w' x y rest' back'. socks5_run (ex_env True) 4 (ex_world ex_client ex_proxy) = Inr (res, w')
    \<and> sent (w_prx w') = [] @ proxy_dialogue [120] [121] ex_addr @ x \<and> [1, 2] = x @ rest'
    \<and> sent (w_cli w') = [] @ [5, 2] @ [1, 0] @ addr_message 0 ex_addr @ y \<and> [3] = y @ back'
    \<and> A_connect (upstream [10, 0, 0, 1] 1080) \<in> set (trace w')"
    by (rule session_run [OF ex_session_env ex_login_ok ex_addr_ok(1) _ _ ex_addr_ok(2) ex_cli_peer _ ex_prx_peer])
      simp_all
  then obtain res w' where r: "socks5_run (ex_env True) 4 (ex_world ex_client ex_proxy) = Inr (res, w')"
      "A_connect (upstream [10, 0, 0, 1] 1080) \<in> set (trace w')" by blast
  have c: "app_coherent (ex_env True) (w_app (ex_world ex_client ex_proxy))"
    using ex_app by (simp add: app_coherent_def app_inv_def ex_world_def)
  have "\<exists>b. hashStr b = hashStr (user (sess w')) \<and> sql_app (ex_env True) b = Some (passwd (sess w'))"
    by (rule session_dials_only_authenticated [OF ex_honest c _ r]) (simp_all add: ex_world_def upstream_def)
  with r(1) show ?thesis by blast
qed

end
