(* ===== verification/Silk_Session_Errors.thy ===== *)
theory Silk_Session_Errors
  imports Silk_Session_Run
begin

section \<open>Sessions that go wrong (socks.c)\<close>

text \<open>
  What a session does for a client that cannot log in, and with credentials and replies at
  the edges of their formats.
\<close>

subsection \<open>A client that offers no acceptable method\<close>

text \<open>A call once made stays in the trace.\<close>

lemma log_off_tables: "off_tables (\<lambda>w. a \<in> set (trace w))"
  by (simp add: off_tables_def)

interpretation log: session_inv "\<lambda>w. a \<in> set (trace w)" UNIV e for a e
  by unfold_locales (auto simp: off_wire_def intro: stays_off_tables [OF log_off_tables] stays_yields_any)

lemma log_rest:
  "stays (\<lambda>w. a \<in> set (trace w)) UNIV
     (bnd get_sess (\<lambda>client. if cmd client = 0x01 then run_connect e else stop 7))"
  by (intro stays_intros log.stays_run_connect)

text \<open>A request that names its target.\<close>

definition name_request :: "byte \<Rightarrow> cstr \<Rightarrow> byte list \<Rightarrow> byte list" where
  "name_request c name p = [5, c, 0, 3, of_nat (length name)] @ name @ p"

lemma refused_client_goes_on:
  assumes q: "quiet e" and "2 \<notin> set ms" and "length ms \<le> 255" and "2 \<le> k"
    and "peer (w_cli w) (greeting ms @ name_request c name p @ i) k out"
    and "c \<in> {1, 2, 3}" and "length name \<le> 255" and "length p = 2"
    and "hashtbl_get (w_dns w) (c_str name) (t_get e) = Inr (h, None)"
    and "resolve e (c_str name) = Some a"
    and "hashtbl_put h (c_str name) a (t_ttl e + 300) (t_check e) (t_put e) = Inr (h', n)"
  shows "\<exists>v. run_body e w = bnd get_sess (\<lambda>client. if cmd client = 0x01 then run_connect e else stop 7) v
    \<and> A_resolve (c_str name) \<in> set (trace v) \<and> cmd (sess v) = c"
proof -
  let ?a = "A_resolve (c_str name)"
  have ch: "chosen ms = 0xFF" using assms(2) by (simp add: chosen_def)
  have l: "unat (of_nat (length ms) :: byte) = length ms" "unat (of_nat (length name) :: byte) = length name"
    using assms(3,7) by (simp_all add: unat_len)
  have p: "peer (w_cli w) (5 # of_nat (length ms) # ms @ (name_request c name p @ i)) k out"
    using assms(5) by (simp add: greeting_def)
  have "leads (bnd socks5_choosemethod (\<lambda>m. bnd (run_auth e m) (\<lambda>_. bnd (socks5_readrequest e) ret)) w)
      (\<lambda>_ v. ?a \<in> set (trace v) \<and> cmd (sess v) = c)"
    apply (rule choosemethod_peer [OF p l(1) assms(4)])
    apply (simp add: ch run_auth_def)
    apply (rule readrequest_name_peer [where name = name and p = p and h = h and r = None], rule q)
          apply (simp add: name_request_def, rule assms(6), simp add: l, rule assms(8), simp add: assms(9), simp)
    apply (use assms(10,11) in auto)
    done
  then obtain m w1 w2 v where "socks5_choosemethod w = Val m w1" "run_auth e m w1 = Val () w2"
      "socks5_readrequest e w2 = Val () v" and v: "?a \<in> set (trace v)" "cmd (sess v) = c"
    unfolding leads_def bnd_eq_Val by (auto simp: ret_def)
  then have "run_body e w = bnd get_sess (\<lambda>client. if cmd client = 0x01 then run_connect e else stop 7) v"
    by (simp add: run_body_def bnd_Val)
  with v show ?thesis by blast
qed

text \<open>C23: The refusal of all methods is not enforced.  A client that offers no user name and
  password method is answered 0xFF, which means that the connection is over; but the session
  goes on, and when the client sends a request with a domain name that is not in the DNS table
  the server asks the resolver for it, though nobody has logged in.\<close>

theorem refused_client_resolves:
  assumes "peername_ok e" and "quiet e" and "2 \<notin> set ms" and "length ms \<le> 255" and "2 \<le> k"
    and "peer (w_cli w) (greeting ms @ name_request c name p @ i) k out"
    and "c \<in> {1, 2, 3}" and "length name \<le> 255" and "length p = 2"
    and "hashtbl_get (w_dns w) (c_str name) (t_get e) = Inr (h, None)"
    and "resolve e (c_str name) = Some a"
    and "hashtbl_put h (c_str name) a (t_ttl e + 300) (t_check e) (t_put e) = Inr (h', n)"
    and "socks5_run e fd w = Inr (res, w')"
  shows "A_resolve (c_str name) \<in> set (trace w')"
proof -
  let ?w = "w\<lparr>sess := socks5_cli_zero\<lparr>clientfd := fd\<rparr>\<rparr>"
  let ?a = "A_resolve (c_str name)"
  let ?rest = "bnd get_sess (\<lambda>client. if cmd client = 0x01 then run_connect e else stop 7)"
  have peer: "peer (w_cli ?w) (greeting ms @ name_request c name p @ i) k out"
    and get: "hashtbl_get (w_dns ?w) (c_str name) (t_get e) = Inr (h, None)"
    using assms(6,10) by simp_all
  obtain v where b: "run_body e ?w = ?rest v" and v: "?a \<in> set (trace v)"
    using refused_client_goes_on [OF assms(2-5) peer assms(7-9) get assms(11,12)] by blast
  have "case ?rest v of Fault f \<Rightarrow> f \<in> UNIV | Stop _ w' \<Rightarrow> ?a \<in> set (trace w') | Val _ w' \<Rightarrow> ?a \<in> set (trace w')"
    using log_rest [of ?a e, unfolded stays_def triple_def] v by blast
  then have "case run_body e ?w of Fault f \<Rightarrow> f \<in> UNIV | Stop _ w' \<Rightarrow> ?a \<in> set (trace w') | Val _ w' \<Rightarrow> ?a \<in> set (trace w')"
    unfolding b .
  then show ?thesis
    using assms(1,13) by (cases "run_body e ?w") (auto simp: socks5_run_def Let_def close_both_def split: if_splits)
qed

lemma refused_client_resolves_witness:
  "\<exists>res w'. socks5_run ((ex_env True)\<lparr>resolve := (\<lambda>_. Some [10, 0, 0, 7])\<rparr>) 4
      (ex_world (greeting [0] @ name_request 2 [104] [0, 80] @ []) []) = Inr (res, w')
    \<and> A_resolve (c_str [104]) \<in> set (trace w')"
proof -
  let ?e = "(ex_env True)\<lparr>resolve := (\<lambda>_. Some [10, 0, 0, 7])\<rparr>"
  let ?w = "ex_world (greeting [0] @ name_request 2 [104] [0, 80] @ []) []"
  let ?v = "?w\<lparr>sess := socks5_cli_zero\<lparr>clientfd := 4\<rparr>\<rparr>"
  have peer: "peer (w_cli ?w) (greeting [0] @ name_request 2 [104] [0, 80] @ []) 400 []"
    by (simp add: peer_def ex_world_def sock_of_def)
  obtain h where get: "hashtbl_get dns_example (c_str [104]) 1 = Inr (h, None)" "ht_wf h"
    using dns_example_empty by metis
  obtain h' n where put: "hashtbl_put h (c_str [104]) [10, 0, 0, 7] (1 + 300) 1 1 = Inr (h', n)"
    using dns.put_law [OF get(2), of 1 1 "[10, 0, 0, 7]" "c_str [104]" "1 + 300"] by auto
  have e: "t_get ?e = 1" "t_ttl ?e = 1" "t_check ?e = 1" "t_put ?e = 1" "resolve ?e (c_str [104]) = Some [10, 0, 0, 7]"
      "w_dns (ex_world c p) = dns_example" "peername_ok ?e" "quiet ?e" for c p
    by (simp_all add: ex_env_def ex_world_def quiet_def)
  have "\<exists>v. run_body ?e ?v = bnd get_sess (\<lambda>client. if cmd client = 0x01 then run_connect ?e else stop 7) v
      \<and> A_resolve (c_str [104]) \<in> set (trace v) \<and> cmd (sess v) = 2"
    using peer get put by (intro refused_client_goes_on [of _ "[0]" 400 _ _ _ "[0, 80]" "[]"]) (simp_all add: e)
  then obtain w' where "socks5_run ?e 4 ?w = Inr (Returned (Some 7), w')"
    using e(7) by (auto simp: socks5_run_def Let_def stop_def)
  moreover from this have "A_resolve (c_str [104]) \<in> set (trace w')"
    using peer get put by (intro refused_client_resolves [of ?e "[0]" 400 ?w 2 "[104]" "[0, 80]" "[]"]) (simp_all add: e)
  ultimately show ?thesis by blast
qed

subsection \<open>A wrong password\<close>

text \<open>C24: The client is told that it is logged in before anybody has looked at the password.  For
  a well-formed login with any user and password, the two bytes 1 and 0 are sent; when the
  data base then has no such user or another password, the session ends with status 5 and the
  client is told nothing more.\<close>

theorem wrong_password_is_greeted:
  assumes "quiet e" and "plenty e" and "peer (w_cli w) (login_msg (login_name u ad port) pw @ i) k out" and "2 \<le> k"
    and "login_ok ms u ad port pw"
    and "read_app e (w_app w) u = Inr (map_option Some r, ac)" and "r \<noteq> Some pw"
  shows "\<exists>w'. run_auth e 2 w = Stop 5 w' \<and> peer (w_cli w') i (k - 2) (out @ [1, 0])"
proof -
  let ?un = "login_name u ad port"
  have l: "unat (of_nat (length ?un) :: byte) = length ?un" "unat (of_nat (length pw) :: byte) = length pw"
    and cs: "c_str ?un = ?un" "c_str pw = pw"
    and un: "u \<noteq> []" "dash \<notin> set u" "length ad = 4" "port < 100000"
    using assms(5) by (auto simp: login_ok_def unat_len c_str_id)
  have p: "peer (w_cli w) (1 # of_nat (length ?un) # ?un @ of_nat (length pw) # pw @ i) k out"
    using assms(3) by (simp add: login_msg_def)
  have "leads (bnd socks5_readauth ret w) (\<lambda>_ v. peer (w_cli v) i (k - 2) (out @ [1, 0])
      \<and> sess v = (sess w)\<lparr>user := ?un, passwd := pw\<rparr> \<and> w_app v = w_app w)"
    by (rule readauth_peer [OF p l assms(4)]) (simp add: cs)
  then obtain v where v: "socks5_readauth w = Val () v" "peer (w_cli v) i (k - 2) (out @ [1, 0])"
      "sess v = (sess w)\<lparr>user := ?un, passwd := pw\<rparr>" "w_app v = w_app w"
    unfolding leads_def bnd_eq_Val by (auto simp: ret_def)
  have "strip_redirectaddr (sess v) = (0, (sess v)\<lparr>user := u,
      srvpeer := (srvpeer (sess v))\<lparr>sin_family := AF_INET, sin_addr := ad, sin_port := htons (of_nat port)\<rparr>\<rparr>)"
    by (rule strip_login_name [OF un]) (simp add: v(3))
  then show ?thesis
    using v assms(6,7)
    by (auto simp: run_auth_def bnd_def run_strip_def socks5_doauth_def get_sess_def app_passwd_of_quiet [OF assms(1,2)] lift_fault_def
        stop_def require_def split: option.splits)
qed

lemma wrong_password_is_greeted_witness:
  "\<exists>w'. run_auth (ex_env True) 2 (ex_world (login_msg (login_name [97] [10, 0, 0, 1] 1080) [113] @ []) []) = Stop 5 w'
    \<and> peer (w_cli w') [] (400 - 2) ([] @ [1, 0])"
proof -
  have "\<exists>ac. read_app (ex_env True) ex_app [97] = Inr (Some (Some [112]), ac)"
    by (rule apc.read_through_miss [OF ex_app]) (simp add: ex_env_def)
  then show ?thesis using ex_plenty [of True]
    by (elim exE, intro wrong_password_is_greeted [where ms = "[2]" and r = "Some [112]" and pw = "[113]" and ad = "[10, 0, 0, 1]" and port = 1080])
      (simp_all add: quiet_def ex_env_def ex_world_def peer_def sock_of_def login_ok_def ex_login dash_def)
qed

subsection \<open>Credentials and replies at the edges of their formats\<close>

text \<open>C25: The length bytes of the upstream credentials.  For a user name and a password of up to
  255 bytes, which the protocol allows, the message is the one of the protocol exactly when
  both have at most 127 bytes; else the length, kept in a signed char, is negative and memcpy
  is called with a huge count.\<close>

theorem credentials_length:
  assumes "length u \<le> 255" and "length p \<le> 255"
  shows "auth_message (Some u) (Some p) =
    (if length u \<le> 127 \<and> length p \<le> 127 then Inr (auth_bytes u p) else Inl Bad_Memcpy)"
  using assms by (auto simp: auth_message_short intro!: auth_message_long)

lemma credentials_length_witness:
  "auth_message (Some (replicate 128 97)) (Some [98]) =
    (if length (replicate 128 (97 :: byte)) \<le> 127 \<and> length [98 :: byte] \<le> 127
     then Inr (auth_bytes (replicate 128 97) [98]) else Inl Bad_Memcpy)"
  by (rule credentials_length) simp_all

text \<open>The reply of the upstream proxy.  A code other than 0 ends the session with that code;
  but with the code 0 a wrong version byte is not an error: the session goes on and the rest of
  the reply is left in the stream, where the relay takes it for payload.\<close>

theorem readreply_status:
  assumes "peer (w_prx w) ([v, rep, rsv, t] @ i) k out" and "v \<noteq> 5 \<or> rep \<noteq> 0"
  shows "\<exists>w'. socks5_readreply w = (if rep = 0 then Val () w' else Stop (unat rep) w') \<and> peer (w_prx w') i k out"
proof -
  obtain s where s: "recv_prx 4 4 w = Val [v, rep, rsv, t] (w\<lparr>w_prx := s\<rparr>)" "peer s i k out"
    using recv_prx_peer [OF assms(1), of 4 4] by auto
  then show ?thesis
    using assms(2) by (auto simp: socks5_readreply_def bnd_Val ret_def stop_def)
qed

lemma readreply_status_witness:
  "\<exists>w'. socks5_readreply (ex_world [] ([4, 0, 0, 1] @ [9])) = (if (0 :: byte) = 0 then Val () w' else Stop (unat (0 :: byte)) w')
    \<and> peer (w_prx w') [9] 400 []"
  by (rule readreply_status [where v = 4 and rsv = 0 and t = 1]) (simp_all add: peer_def ex_world_def sock_of_def)

text \<open>C26: A reply with a domain name of 255 bytes, which the protocol allows, overflows the
  buffer of 256 bytes: the name and the port take 257.\<close>

theorem readreply_overflow:
  assumes "peer (w_prx w) ([5, 0, rsv, 3] @ [255] @ d @ i) k out" and "length d = 257"
  shows "socks5_readreply w = Fault Buffer_Overflow"
proof -
  obtain s where s: "recv_prx 4 4 w = Val [5, 0, rsv, 3] (w\<lparr>w_prx := s\<rparr>)" "peer s ([255] @ d @ i) k out"
    using recv_prx_peer [OF assms(1), of 4 4] by auto
  obtain s' where s': "recv_prx 1 2 (w\<lparr>w_prx := s\<rparr>) = Val [255] (w\<lparr>w_prx := s'\<rparr>)" "peer s' (d @ i) k out"
    using recv_prx_peer [of "w\<lparr>w_prx := s\<rparr>" "[255]" "d @ i" k out 1 2] s(2) by auto
  obtain s'' where "readn_timeo 257 s' = (int 257, d, s'')"
    by (rule peer_read [OF s'(2) assms(2)])
  with s s' assms(2) show ?thesis
    by (simp add: socks5_readreply_def bnd_def recv_domain_def)
qed

lemma readreply_overflow_witness:
  "socks5_readreply (ex_world [] ([5, 0, 0, 3] @ [255] @ replicate 257 97 @ [])) = Fault Buffer_Overflow"
  by (rule readreply_overflow [where rsv = 0 and d = "replicate 257 97" and i = "[]" and k = 400 and out = "[]"]) (simp_all add: peer_def ex_world_def sock_of_def)

end
