(* ===== verification/Silk_Request.thy ===== *)
theory Silk_Request
  imports Silk_Session_Example
begin

section \<open>The request of a session is well formed (socks.c)\<close>

text \<open>
  After \<open>socks5_readrequest\<close> has returned 0 the session record holds a socket address of a known
  family with an address of that family's length and a port of two bytes, so that the request
  and the connection that are made from it have the form the protocol asks for.  A name gives
  this because the DNS table holds addresses of four bytes only.
\<close>

definition address_ok :: "sockaddr \<Rightarrow> bool" where
  "address_ok a \<longleftrightarrow> sin_family a = AF_INET \<and> length (sin_addr a) = 4
     \<or> sin_family a = AF_INET6 \<and> length (sin_addr a) = 16"

definition typed :: "bool \<Rightarrow> env \<Rightarrow> (sockaddr \<Rightarrow> bool) \<Rightarrow> world \<Rightarrow> bool" where
  "typed enough e A w \<longleftrightarrow> env_ok enough e \<and> tables_ok enough w \<and> cmd (sess w) \<in> {1, 2, 3} \<and> A (request (sess w))"

lemma typed_off_wire [simp]: "off_wire (typed enough e A)"
  by (simp add: off_wire_def typed_def tables_ok_def tabs_ok_def)

lemma triple_recv:
  assumes "off_wire P"
  shows "triple P (recv_cli n st) (\<lambda>bs w. P w \<and> length bs = n) (\<lambda>_. True) E"
  unfolding triple_def
proof (intro allI impI)
  fix w assume "P w"
  obtain r bs s where r: "readn_timeo n (w_cli w) = (r, bs, s)" by (cases "readn_timeo n (w_cli w)")
  have "length bs = n" if "r = int n"
    using readn_timeo_stream [of "w_cli w" n] r that by (auto split: if_splits)
  with r \<open>P w\<close> assms show "case recv_cli n st w of Fault f \<Rightarrow> f \<in> E | Stop _ w' \<Rightarrow> True
      | Val bs w' \<Rightarrow> P w' \<and> length bs = n"
    by (auto simp: recv_cli_def off_wire_def)
qed

lemma triple_pure: "(b \<Longrightarrow> triple P m Q R E) \<Longrightarrow> triple (\<lambda>w. P w \<and> b) m Q R E"
  by (cases b) (simp_all add: triple_def)

text \<open>Reading, with the length of what was read in hand for the rest.\<close>

lemma triple_read:
  "off_wire P \<Longrightarrow> (\<And>bs. length bs = n \<Longrightarrow> triple P (f bs) Q (\<lambda>_. True) E) \<Longrightarrow>
   triple P (bnd (recv_cli n st) f) Q (\<lambda>_. True) E"
  by (rule triple_bnd [OF triple_recv]) (simp_all add: triple_pure)

lemma triple_require:
  "(b \<Longrightarrow> triple P m Q (\<lambda>_. True) E) \<Longrightarrow> triple P (bnd (require b st) (\<lambda>_. m)) Q (\<lambda>_. True) E"
  by (cases b) (auto simp: triple_def bnd_def require_def)

lemma triple_stop: "triple P (stop st) Q (\<lambda>_. True) E"
  by (simp add: triple_def stop_def)

lemma triple_set_request:
  "(\<And>r. A r \<Longrightarrow> B (f r)) \<Longrightarrow> triple (typed enough e A) (set_request f) (\<lambda>_. typed enough e B) (\<lambda>_. True) E"
  by (simp add: triple_def set_request_def upd_sess_def typed_def tables_ok_def tabs_ok_def)

lemma typed_meanwhile: "typed enough e A w \<Longrightarrow> typed enough e A (meanwhile e p w)"
  by (simp add: typed_def tables_ok_meanwhile)

lemma triple_dns_get:
  "triple (typed enough e A) (dns_get e n) (\<lambda>v w. typed enough e A w \<and> (\<forall>a. v = Some a \<longrightarrow> length a = 4)) (\<lambda>_. True) E"
  unfolding triple_def
proof (intro allI impI)
  fix w0 assume "typed enough e A w0"
  then have t: "typed enough e A (meanwhile e At_dns_get w0)" (is "typed enough e A ?w") by (rule typed_meanwhile)
  then have d: "dns_ok (w_dns ?w)" by (simp add: typed_def tables_ok_def tabs_ok_def)
  then obtain h r where g: "hashtbl_get (w_dns ?w) n (t_get e) = Inr (h, r)" "dns_ok h"
    using dnsv.get_total [OF d] by blast
  have "length a = 4" if "r = Some a" for a
    using dnsv.get_fits [OF d, of n "t_get e" h a] g(1) that by simp
  with t g show "case dns_get e n w0 of Fault f \<Rightarrow> f \<in> E | Stop _ w' \<Rightarrow> True
      | Val v w' \<Rightarrow> typed enough e A w' \<and> (\<forall>a. v = Some a \<longrightarrow> length a = 4)"
    by (simp add: dns_get_def typed_def tables_ok_def tabs_ok_def Let_def)
qed

lemma triple_dns_put:
  assumes "length a = 4"
  shows "triple (typed enough e A) (dns_put e n a) (\<lambda>_. typed enough e A) (\<lambda>_. True) E"
  unfolding triple_def
proof (intro allI impI)
  fix w0 assume "typed enough e A w0"
  then have t: "typed enough e A (meanwhile e At_dns_put w0)" (is "typed enough e A ?w") by (rule typed_meanwhile)
  then have "dns_ok (w_dns ?w)" "t_check e \<le> t_put e" by (simp_all add: typed_def tables_ok_def tabs_ok_def env_ok_def)
  then obtain h r where "hashtbl_put (w_dns ?w) n a (t_ttl e + 300) (t_check e) (t_put e) = Inr (h, r)" "dns_ok h"
    using dnsv.put_law [of "w_dns ?w" "t_check e" "t_put e" a] assms by blast
  with t show "case dns_put e n a w0 of Fault f \<Rightarrow> f \<in> E | Stop _ w' \<Rightarrow> True | Val _ w' \<Rightarrow> typed enough e A w'"
    by (simp add: dns_put_def typed_def tables_ok_def tabs_ok_def Let_def)
qed

lemma typed_env: "(env_ok enough e \<Longrightarrow> triple (typed enough e A) m Q R E) \<Longrightarrow> triple (typed enough e A) m Q R E"
  by (cases "env_ok enough e") (simp_all add: triple_def typed_def)

lemma triple_lookup:
  "triple (typed enough e A) (lookup_name e n) (\<lambda>_. typed enough e address_ok) (\<lambda>_. True) E"
proof -
  let ?F = "\<lambda>r. sin_family r = AF_INET"
  have res: "triple (typed enough e ?F) (case resolve e n of None \<Rightarrow> stop 4
      | Some a \<Rightarrow> bnd (dns_put e n a) (\<lambda>_.
          set_request (\<lambda>r. \<lparr>sin_family = AF_INET, sin_addr = a, sin_port = replicate 2 0\<rparr>)))
      (\<lambda>_. typed enough e address_ok) (\<lambda>_. True) E"
  proof (rule typed_env, cases "resolve e n")
    case (Some a)
    assume "env_ok enough e"
    with Some have "length a = 4" by (auto simp: env_ok_def)
    then show ?thesis
      unfolding Some option.case by (intro triple_bnd [OF triple_dns_put] triple_set_request) (simp_all add: address_ok_def)
  qed (simp add: triple_stop)
  have em: "triple (typed enough e ?F) (emit a) (\<lambda>_. typed enough e ?F) (\<lambda>_. True) E" for a
    by (simp add: triple_def emit_def typed_def tables_ok_def tabs_ok_def)
  show ?thesis
    unfolding lookup_name_def
  proof (rule triple_bnd [OF triple_set_request [where B = ?F]], simp, rule triple_bnd [OF triple_dns_get])
    fix v :: "byte list option"
    show "triple (\<lambda>w. typed enough e ?F w \<and> (\<forall>a. v = Some a \<longrightarrow> length a = 4))
        (case v of Some a \<Rightarrow> set_request (\<lambda>r. r\<lparr>sin_addr := a\<rparr>)
         | None \<Rightarrow> bnd (emit (A_resolve n)) (\<lambda>_. case resolve e n of None \<Rightarrow> stop 4
             | Some a \<Rightarrow> bnd (dns_put e n a) (\<lambda>_.
                 set_request (\<lambda>r. \<lparr>sin_family = AF_INET, sin_addr = a, sin_port = replicate 2 0\<rparr>))))
        (\<lambda>_. typed enough e address_ok) (\<lambda>_. True) E"
    proof (rule triple_pure)
      assume v: "\<forall>a. v = Some a \<longrightarrow> length a = 4"
      show "triple (typed enough e ?F)
          (case v of Some a \<Rightarrow> set_request (\<lambda>r. r\<lparr>sin_addr := a\<rparr>)
           | None \<Rightarrow> bnd (emit (A_resolve n)) (\<lambda>_. case resolve e n of None \<Rightarrow> stop 4
               | Some a \<Rightarrow> bnd (dns_put e n a) (\<lambda>_.
                   set_request (\<lambda>r. \<lparr>sin_family = AF_INET, sin_addr = a, sin_port = replicate 2 0\<rparr>))))
          (\<lambda>_. typed enough e address_ok) (\<lambda>_. True) E"
        using v by (cases v) (auto simp: address_ok_def intro!: triple_bnd [OF em] res triple_set_request)
    qed
  qed
qed

lemma triple_port:
  "triple (typed enough e address_ok) (bnd (recv_cli 2 st) (\<lambda>p. set_request (\<lambda>r. r\<lparr>sin_port := p\<rparr>)))
     (\<lambda>_. typed enough e (\<lambda>r. address_ok r \<and> length (sin_port r) = 2)) (\<lambda>_. True) E"
  by (intro triple_read typed_off_wire triple_set_request) (simp add: address_ok_def)

lemma readrequest_typed:
  "triple (\<lambda>w. env_ok enough e \<and> tables_ok enough w) (socks5_readrequest e)
     (\<lambda>_. typed enough e (\<lambda>r. address_ok r \<and> length (sin_port r) = 2)) (\<lambda>_. True) E"
proof -
  let ?I = "\<lambda>w. env_ok enough e \<and> tables_ok enough w" and ?T = "typed enough e (\<lambda>_. True)"
  have I: "off_wire ?I" by (simp add: off_wire_def tables_ok_def tabs_ok_def)
  have c: "c = 1 \<or> c = 2 \<or> c = 3" if "\<not> (c < 0x01 \<or> c > 0x03)" for c :: byte
    using that by (auto simp: word_less_nat_alt word_unat_eq_iff)
  have cmd: "triple ?I (upd_sess (\<lambda>s. s\<lparr>cmd := b\<rparr>)) (\<lambda>_. ?T) (\<lambda>_. True) E"
    if "\<not> (b < 0x01 \<or> b > 0x03)" for b
    using c [OF that] by (auto simp: triple_def upd_sess_def typed_def tables_ok_def tabs_ok_def)
  have if3: "triple P (if x then m else n) Q R E"
    if "triple P m Q R E" "triple P n Q R E" for P m n Q R E and x :: bool
    using that by simp
  have addr: "triple ?T (set_request (\<lambda>r. r\<lparr>sin_family := f, sin_addr := a\<rparr>)) (\<lambda>_. typed enough e address_ok) (\<lambda>_. True) E"
    if "f = AF_INET \<and> length a = 4 \<or> f = AF_INET6 \<and> length a = 16" for f a
    by (rule triple_set_request) (use that in \<open>auto simp: address_ok_def\<close>)
  show ?thesis
    unfolding socks5_readrequest_def
    by (rule triple_read [OF I], rule triple_require, rule triple_read [OF I], rule triple_require,
        rule triple_bnd, erule cmd, rule triple_read, simp, rule triple_read, simp)
      (intro if3 triple_stop triple_read typed_off_wire triple_bnd [OF addr] triple_bnd [OF triple_lookup] triple_port;
        simp)
qed

text \<open>C39: The type of a request: when \<open>socks5_readrequest\<close> returns 0, the record holds one of the
  three commands, an address with as many bytes as its family has, which is what
  \<open>sockADDRLEN\<close> makes the sender of the request copy, and a port of two bytes; this holds for
  numeric addresses and for names, from the table or from the resolver.\<close>

theorem request_typed:
  assumes "env_ok enough e" and "tables_ok enough w" and "socks5_readrequest e w = Val () w'"
  shows "cmd (sess w') \<in> {1, 2, 3} \<and> address_ok (request (sess w'))
    \<and> sockADDRLEN (request (sess w')) = length (sin_addr (request (sess w')))
    \<and> length (sin_port (request (sess w'))) = 2 \<and> tables_ok enough w'"
proof -
  have "typed enough e (\<lambda>r. address_ok r \<and> length (sin_port r) = 2) w'"
    using readrequest_typed [of enough e UNIV] assms unfolding triple_def by fastforce
  then show ?thesis by (auto simp: typed_def address_ok_def sockADDRLEN_def)
qed

lemma request_typed_witness:
  "\<exists>w'. socks5_readrequest (ex_env True) (ex_world [5, 1, 0, 1, 10, 0, 0, 9, 0, 80] []) = Val () w'
    \<and> cmd (sess w') \<in> {1, 2, 3} \<and> address_ok (request (sess w'))
    \<and> sockADDRLEN (request (sess w')) = length (sin_addr (request (sess w')))
    \<and> length (sin_port (request (sess w'))) = 2 \<and> tables_ok True w'"
proof -
  have "\<exists>w'. socks5_readrequest (ex_env True) (ex_world [5, 1, 0, 1, 10, 0, 0, 9, 0, 80] []) = Val () w'"
    by (simp add: socks5_readrequest_def bnd_def recv_cli_def require_def upd_sess_def set_request_def
        ex_world_def sock_of_def readn_timeo_def readn_loop.simps)
  then obtain w' where w': "socks5_readrequest (ex_env True) (ex_world [5, 1, 0, 1, 10, 0, 0, 9, 0, 80] []) = Val () w'" ..
  with request_typed [OF ex_env_ok ex_tables_ok w'] show ?thesis by blast
qed

end
