(* ===== verification/Silk_Heap.thy ===== *)
theory Silk_Heap
  imports Silk_Chain
begin

section \<open>Nodes from malloc and the lists made of them\<close>

text \<open>
  A heap of nodes of one type: malloc gives the next free address and never an old one, free
  leaves a hole, and reading through NULL or at a hole is a fault.  \<open>linked\<close> describes a singly
  linked list of live nodes.  The job queue of thpool.c and the queue of urlqueue.c are such
  lists, with a pointer to the first and one to the last node.
\<close>

type_synonym 'n heap = "'n option list"

definition h_read :: "'n heap \<Rightarrow> nat option \<Rightarrow> c_fault + 'n" where
  "h_read h p =
     (case p of
        None \<Rightarrow> Inl Null_Deref
      | Some a \<Rightarrow>
          if a < length h then (case h ! a of None \<Rightarrow> Inl Use_After_Free | Some n \<Rightarrow> Inr n)
          else Inl Use_After_Free)"

definition h_new :: "'n heap \<Rightarrow> 'n \<Rightarrow> 'n heap \<times> nat" where
  "h_new h n = (h @ [Some n], length h)"

definition h_write :: "'n heap \<Rightarrow> nat \<Rightarrow> 'n \<Rightarrow> 'n heap" where
  "h_write h a n = h[a := Some n]"

definition h_free :: "'n heap \<Rightarrow> nat \<Rightarrow> 'n heap" where
  "h_free h a = h[a := None]"

definition live :: "'n heap \<Rightarrow> nat \<Rightarrow> bool" where
  "live h a \<longleftrightarrow> a < length h \<and> h ! a \<noteq> None"

lemma h_read_live: "live h a \<Longrightarrow> h_read h (Some a) = Inr (the (h ! a))"
  by (auto simp: h_read_def live_def)

lemma live_new [simp]: "live h a \<Longrightarrow> live (h @ [x]) a"
  by (auto simp: live_def nth_append)

lemma live_write [simp]: "live h a \<Longrightarrow> live (h[b := Some n]) a"
  by (cases "b = a") (auto simp: live_def)

lemma live_less: "live h a \<Longrightarrow> a < length h"
  by (simp add: live_def)

subsection \<open>Linked lists\<close>

definition linked :: "('n \<Rightarrow> nat option) \<Rightarrow> 'n heap \<Rightarrow> nat option \<Rightarrow> nat list \<Rightarrow> bool" where
  "linked nxt h p as \<longleftrightarrow>
     chain (\<lambda>a. nxt (the (h ! a))) p as \<and> distinct as \<and> (\<forall>a \<in> set as. live h a)"

definition contents :: "('n \<Rightarrow> 'd) \<Rightarrow> 'n heap \<Rightarrow> nat list \<Rightarrow> 'd list" where
  "contents dat h as = map (\<lambda>a. dat (the (h ! a))) as"

lemma contents_simps [simp]:
  "contents dat h [] = []"
  "contents dat h (a # as) = dat (the (h ! a)) # contents dat h as"
  "contents dat h (as @ bs) = contents dat h as @ contents dat h bs"
  by (simp_all add: contents_def)

lemma length_contents [simp]: "length (contents dat h as) = length as"
  by (simp add: contents_def)

lemma contents_Nil_iff [simp]: "contents dat h as = [] \<longleftrightarrow> as = []"
  by (simp add: contents_def)

lemma linked_Nil [simp]: "linked nxt h p [] \<longleftrightarrow> p = None"
  by (simp add: linked_def)

lemma linked_None [simp]: "linked nxt h None as \<longleftrightarrow> as = []"
  by (cases as) (auto simp: linked_def)

lemma linked_unique: "linked nxt h p as \<Longrightarrow> linked nxt h p bs \<Longrightarrow> as = bs"
  by (auto simp: linked_def intro: chain_unique)

text \<open>Taking the first node off and freeing it.\<close>

lemma linked_pop:
  assumes "linked nxt h p (a # as)"
  shows "p = Some a" and "live h a" and "linked nxt (h_free h a) (nxt (the (h ! a))) as"
    and "contents dat (h_free h a) as = contents dat h as"
proof -
  have ne: "\<And>b. b \<in> set as \<Longrightarrow> b \<noteq> a" and d: "distinct as" "\<forall>b \<in> set as. live h b"
    and c: "chain (\<lambda>a. nxt (the (h ! a))) (nxt (the (h ! a))) as"
    and "p = Some a" "live h a"
    using assms by (auto simp: linked_def)
  then show "p = Some a" "live h a" by simp_all
  have at: "h_free h a ! b = h ! b" if "b \<in> set as" for b
    using ne [OF that] by (simp add: h_free_def)
  have "chain (\<lambda>b. nxt (the (h_free h a ! b))) (nxt (the (h ! a))) as"
    by (subst chain_cong [where nx' = "\<lambda>b. nxt (the (h ! b))"]) (simp_all add: at c)
  with d ne show "linked nxt (h_free h a) (nxt (the (h ! a))) as"
    using at by (auto simp: linked_def live_def) (simp add: h_free_def)
  show "contents dat (h_free h a) as = contents dat h as"
    using at by (simp add: contents_def)
qed

text \<open>Appending a fresh node to a list that is not empty, through the last node.\<close>

lemma linked_snoc:
  assumes l: "linked nxt h p (as @ [t])" and n: "nxt n = None"
    and m: "nxt m = Some (length h)" "dat m = dat (the (h ! t))"
  shows "linked nxt (h_write (h @ [Some n]) t m) p ((as @ [t]) @ [length h])"
    and "contents dat (h_write (h @ [Some n]) t m) ((as @ [t]) @ [length h]) = contents dat h (as @ [t]) @ [dat n]"
proof -
  let ?h = "h_write (h @ [Some n]) t m"
  have lv: "\<forall>a \<in> set (as @ [t]). live h a" and d: "distinct (as @ [t])"
    and c: "chain (\<lambda>a. nxt (the (h ! a))) p (as @ [t])"
    using l by (auto simp: linked_def)
  have lt: "\<forall>a \<in> set (as @ [t]). a < length h" using lv by (auto simp: live_def)
  have at: "?h ! a = (if a = t then Some m else if a = length h then Some n else h ! a)" if "a \<le> length h" for a
    using that lt by (auto simp: h_write_def nth_append nth_list_update)
  have old: "?h ! a = h ! a" if "a \<in> set as" for a
    using that at lt d by (metis (no_types) Un_iff append_is_Nil_conv distinct.simps(2) distinct_append
        insert_iff less_imp_le_nat less_irrefl list.set(2) not_distinct_conv_prefix set_append)
  have "path (\<lambda>a. nxt (the (h ! a))) p as (Some t)"
    using c by (auto simp: chain_def path_snoc)
  then have "path (\<lambda>a. nxt (the (?h ! a))) p as (Some t)"
    using old by (induction as arbitrary: p) auto
  then have "chain (\<lambda>a. nxt (the (?h ! a))) p ((as @ [t]) @ [length h])"
    using at [of t] at [of "length h"] lt m(1) n by (auto simp: chain_append chain_def path_append)
  moreover have "live ?h a" if "a \<in> set ((as @ [t]) @ [length h])" for a
    using that lv lt by (auto simp: h_write_def live_def nth_append nth_list_update)
  ultimately show "linked nxt ?h p ((as @ [t]) @ [length h])"
    using d lt by (auto simp: linked_def)
  show "contents dat ?h ((as @ [t]) @ [length h]) = contents dat h (as @ [t]) @ [dat n]"
    using old at [of t] at [of "length h"] lt m(2) by (auto simp: contents_def)
qed

lemma linked_follow:
  assumes "linked nxt h p as"
  shows "follow (\<lambda>a. nxt (the (h ! a))) (length h) p = as"
proof -
  have "set as \<subseteq> {..<length h}" and "distinct as" using assms by (auto simp: linked_def live_def)
  then have "length as \<le> length h"
    by (metis card_lessThan card_mono distinct_card finite_lessThan)
  then show ?thesis using assms by (intro follow_chain) (auto simp: linked_def)
qed

text \<open>Freeing a node that is not in the list.\<close>

lemma h_free_other: "b \<noteq> a \<Longrightarrow> h_free h a ! b = h ! b"
  by (simp add: h_free_def)

lemma live_free: "live h b \<Longrightarrow> b \<noteq> a \<Longrightarrow> live (h_free h a) b"
  by (simp add: live_def h_free_def)

lemma contents_free: "a \<notin> set as \<Longrightarrow> contents dat (h_free h a) as = contents dat h as"
  unfolding contents_def by (intro map_cong refl) (metis h_free_other)

lemma linked_free_other:
  assumes "linked nxt h p as" and "a \<notin> set as"
  shows "linked nxt (h_free h a) p as"
proof -
  have at: "h_free h a ! b = h ! b" if "b \<in> set as" for b
    using that assms(2) by (metis h_free_other)
  have "chain (\<lambda>b. nxt (the (h_free h a ! b))) p as"
    using assms(1) by (subst chain_cong [where nx' = "\<lambda>b. nxt (the (h ! b))"]) (auto simp: at linked_def)
  then show ?thesis
    using assms by (auto simp: linked_def intro: live_free)
qed

text \<open>The first node of a list.\<close>

lemma linked_single:
  "nxt n = None \<Longrightarrow> linked nxt (h @ [Some n]) (Some (length h)) [length h]"
  by (simp add: linked_def live_def)

subsection \<open>The contract of a queue\<close>

text \<open>
  What the clients of a queue rely on: \<open>put\<close> appends the value of its argument, \<open>take\<close> removes the first element and
  says None when there is none, and neither faults.
\<close>

datatype 'a queue_op = Put 'a | Take

text \<open>A sequence of operations, with the elements taken and the values put.\<close>

fun queue_ops ::
  "('q \<Rightarrow> 'a \<Rightarrow> c_fault + 'q) \<Rightarrow> ('q \<Rightarrow> c_fault + ('b option \<times> 'q)) \<Rightarrow> 'a queue_op list \<Rightarrow> 'q \<Rightarrow> c_fault + ('b list \<times> 'q)"
where
  "queue_ops put take_one [] q = Inr ([], q)"
| "queue_ops put take_one (Put x # os) q =
     (case put q x of Inl f \<Rightarrow> Inl f | Inr q' \<Rightarrow> queue_ops put take_one os q')"
| "queue_ops put take_one (Take # os) q =
     (case take_one q of
        Inl f \<Rightarrow> Inl f
      | Inr (r, q') \<Rightarrow>
          (case queue_ops put take_one os q' of
             Inl f \<Rightarrow> Inl f
           | Inr (out, q'') \<Rightarrow> Inr ((case r of None \<Rightarrow> [] | Some x \<Rightarrow> [x]) @ out, q'')))"

fun queue_puts :: "('a \<Rightarrow> 'b) \<Rightarrow> 'a queue_op list \<Rightarrow> 'b list" where
  "queue_puts val [] = []"
| "queue_puts val (Put x # os) = val x # queue_puts val os"
| "queue_puts val (Take # os) = queue_puts val os"

locale fifo =
  fixes put :: "'q \<Rightarrow> 'a \<Rightarrow> c_fault + 'q"
    and val :: "'a \<Rightarrow> 'b"
    and take_one :: "'q \<Rightarrow> c_fault + ('b option \<times> 'q)"
    and items :: "'q \<Rightarrow> 'b list"
    and inv :: "'q \<Rightarrow> bool"
  assumes put_law: "inv q \<Longrightarrow> \<exists>q'. put q x = Inr q' \<and> inv q' \<and> items q' = items q @ [val x]"
    and take_law: "inv q \<Longrightarrow> \<exists>q'. inv q' \<and>
      (case items q of
         [] \<Rightarrow> take_one q = Inr (None, q') \<and> items q' = []
       | x # xs \<Rightarrow> take_one q = Inr (Some x, q') \<and> items q' = xs)"
begin

text \<open>Everything put in comes out once and in order, or is still there.\<close>

lemma ops_fifo:
  assumes "inv q"
  shows "\<exists>out q'. queue_ops put take_one os q = Inr (out, q') \<and> inv q' \<and> out @ items q' = items q @ queue_puts val os"
  using assms
proof (induction os arbitrary: q)
  case (Cons o' os)
  show ?case
  proof (cases o')
    case (Put x)
    obtain q1 where "put q x = Inr q1" "inv q1" "items q1 = items q @ [val x]"
      using put_law [OF Cons.prems] by blast
    with Cons.IH [of q1] Put show ?thesis by auto
  next
    case Take
    obtain q1 where q1: "inv q1" "case items q of
         [] \<Rightarrow> take_one q = Inr (None, q1) \<and> items q1 = []
       | x # xs \<Rightarrow> take_one q = Inr (Some x, q1) \<and> items q1 = xs"
      using take_law [OF Cons.prems] by blast
    with Cons.IH [of q1] Take show ?thesis
      by (cases "items q") auto
  qed
qed simp

end

end
