(* ===== verification/Silk_Urlqueue.thy ===== *)
theory Silk_Urlqueue
  imports Silk_Heap
begin

section \<open>The queue of URLs of the load generator (socksload/urlqueue.c)\<close>

text \<open>
  A list of heap nodes with a pointer to the first and one to the last.  \<open>m\<close> says
  whether malloc and whether strndup succeed; the code does not look: it writes through the NULL
  pointer of a failed malloc, and leaves a NULL for the URL when only the copy failed.  \<open>uq_size\<close> is an int, and the queue is
  far from its range.
\<close>

record URLnode =
  nd_url :: cptr
  nd_next :: "nat option"

record URLqueue =
  uq_heap :: "URLnode heap"
  uq_head :: "nat option"
  uq_tail :: "nat option"
  uq_size :: int

type_synonym alloc = "bool \<times> bool"

definition strndup :: "bool \<Rightarrow> byte list \<Rightarrow> nat \<Rightarrow> cptr" where
  "strndup m s n = (if m then Some (c_str (take n s)) else None)"

definition URLQ_NEW :: "alloc \<Rightarrow> URLnode heap \<Rightarrow> byte list \<Rightarrow> nat \<Rightarrow> nat option \<Rightarrow> c_fault + (URLnode heap \<times> nat)" where
  "URLQ_NEW m h url url_len next_p =
     (if \<not> fst m then Inl Null_Deref
      else Inr (h_new h \<lparr>nd_url = strndup (snd m) url url_len, nd_next = next_p\<rparr>))"

definition URLQinit :: "bool \<Rightarrow> c_fault + URLqueue" where
  "URLQinit m =
     (if \<not> m then Inl Null_Deref
      else Inr \<lparr>uq_heap = [], uq_head = None, uq_tail = None, uq_size = 0\<rparr>)"

definition URLQempty :: "URLqueue \<Rightarrow> bool" where
  "URLQempty q \<longleftrightarrow> uq_head q = None"

definition URLQget :: "URLqueue \<Rightarrow> c_fault + (cptr \<times> URLqueue)" where
  "URLQget q =
     (case h_read (uq_heap q) (uq_head q) of
        Inl f \<Rightarrow> Inl f
      | Inr n \<Rightarrow> Inr (nd_url n, q\<lparr>uq_heap := h_free (uq_heap q) (the (uq_head q)),
                                uq_head := nd_next n, uq_size := uq_size q - 1\<rparr>))"

definition URLQput :: "alloc \<Rightarrow> URLqueue \<Rightarrow> byte list \<Rightarrow> nat \<Rightarrow> c_fault + URLqueue" where
  "URLQput m q url url_len =
     (let q1 = q\<lparr>uq_size := uq_size q + 1\<rparr>
      in if uq_head q1 = None then
           (case URLQ_NEW m (uq_heap q1) url url_len (uq_head q1) of
              Inl f \<Rightarrow> Inl f
            | Inr (h, x) \<Rightarrow> Inr (q1\<lparr>uq_heap := h, uq_head := Some x, uq_tail := Some x\<rparr>))
         else
           (case h_read (uq_heap q1) (uq_tail q1) of
              Inl f \<Rightarrow> Inl f
            | Inr t \<Rightarrow>
                (case URLQ_NEW m (uq_heap q1) url url_len (nd_next t) of
                   Inl f \<Rightarrow> Inl f
                 | Inr (h, x) \<Rightarrow>
                     Inr (q1\<lparr>uq_heap := h_write h (the (uq_tail q1)) (t\<lparr>nd_next := Some x\<rparr>),
                             uq_tail := Some x\<rparr>))))"

definition URLQsize :: "URLqueue \<Rightarrow> int" where
  "URLQsize q = uq_size q"

subsection \<open>The queue as a list\<close>

definition uq_rep :: "URLqueue \<Rightarrow> nat list \<Rightarrow> bool" where
  "uq_rep q as \<longleftrightarrow> linked nd_next (uq_heap q) (uq_head q) as \<and> uq_size q = int (length as)
     \<and> (as \<noteq> [] \<longrightarrow> uq_tail q = Some (last as))"

definition uq_wf :: "URLqueue \<Rightarrow> bool" where
  "uq_wf q \<longleftrightarrow> (\<exists>as. uq_rep q as)"

text \<open>The URLs in the queue, first to last, read off the heap.\<close>

definition uq_urls :: "URLqueue \<Rightarrow> cptr list" where
  "uq_urls q = contents nd_url (uq_heap q)
     (follow (\<lambda>a. nd_next (the (uq_heap q ! a))) (length (uq_heap q)) (uq_head q))"

lemma uq_urls_rep: "uq_rep q as \<Longrightarrow> uq_urls q = contents nd_url (uq_heap q) as"
  unfolding uq_urls_def uq_rep_def by (elim conjE) (simp only: linked_follow)

lemma put_uq:
  assumes "uq_wf q" and "fst m"
  shows "\<exists>q'. URLQput m q url n = Inr q' \<and> uq_wf q' \<and> uq_urls q' = uq_urls q @ [strndup (snd m) url n]
    \<and> length (uq_heap q') = Suc (length (uq_heap q))"
proof -
  from assms obtain as where r: "uq_rep q as" by (auto simp: uq_wf_def)
  let ?n = "\<lparr>nd_url = strndup (snd m) url n, nd_next = None\<rparr>" and ?h = "uq_heap q"
  show ?thesis
  proof (cases as rule: rev_cases)
    case Nil
    let ?q = "q\<lparr>uq_size := uq_size q + 1, uq_heap := ?h @ [Some ?n], uq_head := Some (length ?h),
        uq_tail := Some (length ?h)\<rparr>"
    have "uq_rep ?q [length ?h]" using r Nil by (simp add: uq_rep_def linked_single)
    moreover have "URLQput m q url n = Inr ?q"
      using r Nil assms(2) by (simp add: uq_rep_def URLQput_def URLQ_NEW_def h_new_def)
    ultimately show ?thesis
      using uq_urls_rep [OF r] uq_urls_rep [of ?q] Nil unfolding uq_wf_def by (auto simp: nth_append)
  next
    case (snoc bs t)
    let ?t = "the (?h ! t)"
    let ?q = "q\<lparr>uq_size := uq_size q + 1, uq_heap := h_write (?h @ [Some ?n]) t (?t\<lparr>nd_next := Some (length ?h)\<rparr>),
        uq_tail := Some (length ?h)\<rparr>"
    have l: "linked nd_next ?h (uq_head q) (bs @ [t])" and t: "uq_tail q = Some t"
      using r snoc by (auto simp: uq_rep_def)
    have "uq_head q \<noteq> None" using l by (metis linked_None snoc_eq_iff_butlast)
    then obtain b where hd: "uq_head q = Some b" by blast
    have "chain (\<lambda>a. nd_next (the (?h ! a))) (uq_head q) (bs @ [t])" "live ?h t" using l by (auto simp: linked_def)
    then have nx: "nd_next ?t = None" and rd: "h_read ?h (Some t) = Inr ?t"
      by (auto simp: chain_append h_read_live)
    have put: "URLQput m q url n = Inr ?q"
      using t hd nx rd assms(2) by (simp add: URLQput_def URLQ_NEW_def h_new_def Let_def)
    have l': "linked nd_next (uq_heap ?q) (uq_head ?q) ((bs @ [t]) @ [length ?h])"
      "contents nd_url (uq_heap ?q) ((bs @ [t]) @ [length ?h]) = contents nd_url ?h (bs @ [t]) @ [strndup (snd m) url n]"
      using linked_snoc [OF l, of ?n "?t\<lparr>nd_next := Some (length ?h)\<rparr>" nd_url] by simp_all
    then have r': "uq_rep ?q ((bs @ [t]) @ [length ?h])"
      using r snoc by (simp add: uq_rep_def)
    show ?thesis
      using put r' uq_urls_rep [OF r'] uq_urls_rep [OF r] l'(2) snoc unfolding uq_wf_def
      by (auto simp: h_write_def)
  qed
qed

lemma put_uq_null:
  assumes "uq_wf q" and "\<not> fst m"
  shows "URLQput m q url n = Inl Null_Deref"
proof -
  from assms obtain as where r: "uq_rep q as" by (auto simp: uq_wf_def)
  show ?thesis
  proof (cases as rule: rev_cases)
    case Nil
    with r assms(2) show ?thesis by (simp add: uq_rep_def URLQput_def URLQ_NEW_def)
  next
    case (snoc bs t)
    then have "live (uq_heap q) t" "uq_tail q = Some t" using r by (auto simp: uq_rep_def linked_def)
    with assms(2) show ?thesis by (simp add: URLQput_def URLQ_NEW_def h_read_live Let_def)
  qed
qed

lemma get_uq:
  assumes "uq_wf q"
  shows "case uq_urls q of
      [] \<Rightarrow> URLQempty q \<and> URLQget q = Inl Null_Deref
    | u # us \<Rightarrow> \<not> URLQempty q \<and> (\<exists>q'. URLQget q = Inr (u, q') \<and> uq_wf q' \<and> uq_urls q' = us
        \<and> length (uq_heap q') = length (uq_heap q))"
proof -
  from assms obtain as where r: "uq_rep q as" by (auto simp: uq_wf_def)
  show ?thesis
  proof (cases as)
    case Nil
    with r uq_urls_rep [OF r] show ?thesis by (simp add: uq_rep_def URLQempty_def URLQget_def h_read_def)
  next
    case (Cons a bs)
    let ?h = "uq_heap q"
    note pop = linked_pop [of nd_next ?h "uq_head q" a bs]
    have l: "linked nd_next ?h (uq_head q) (a # bs)" using r Cons by (simp add: uq_rep_def)
    let ?q = "q\<lparr>uq_heap := h_free ?h a, uq_head := nd_next (the (?h ! a)), uq_size := uq_size q - 1\<rparr>"
    have "URLQget q = Inr (nd_url (the (?h ! a)), ?q)"
      using pop(1,2) [OF l] by (simp add: URLQget_def h_read_live)
    moreover have r': "uq_rep ?q bs"
      using r Cons pop(3) [OF l] by (auto simp: uq_rep_def)
    moreover have "uq_urls ?q = contents nd_url ?h bs"
      using uq_urls_rep [OF r'] pop(4) [OF l] by simp
    moreover have "\<not> URLQempty q" using pop(1) [OF l] by (simp add: URLQempty_def)
    ultimately show ?thesis
      using uq_urls_rep [OF r] Cons unfolding uq_wf_def by (auto simp: h_free_def)
  qed
qed

text \<open>The callers test \<open>URLQempty\<close> before \<open>URLQget\<close>.\<close>

definition URLQtake :: "URLqueue \<Rightarrow> c_fault + (cptr option \<times> URLqueue)" where
  "URLQtake q =
     (if URLQempty q then Inr (None, q)
      else case URLQget q of Inl f \<Rightarrow> Inl f | Inr (u, q') \<Rightarrow> Inr (Some u, q'))"

interpretation uq: fifo "\<lambda>q (u, n, m). URLQput (True, m) q u n" "\<lambda>(u, n, m). strndup m u n" URLQtake uq_urls uq_wf
proof (unfold_locales, goal_cases)
  case (1 q x)
  then show ?case using put_uq [OF 1, of "(True, snd (snd x))" "fst x" "fst (snd x)"] by (cases x) auto
next
  case (2 q)
  then show ?case using get_uq [OF 2]
    by (auto simp: URLQtake_def split: list.splits)
qed

lemma uq_size_urls: "uq_wf q \<Longrightarrow> URLQsize q = int (length (uq_urls q))"
  by (auto simp: uq_wf_def uq_urls_rep URLQsize_def) (simp add: uq_rep_def)

lemma uq_init: "\<exists>q. URLQinit True = Inr q \<and> uq_wf q \<and> uq_urls q = [] \<and> uq_heap q = []"
proof -
  let ?q = "\<lparr>uq_heap = [], uq_head = None, uq_tail = None, uq_size = 0\<rparr>"
  have "uq_rep ?q []" by (simp add: uq_rep_def)
  then show ?thesis using uq_urls_rep [of ?q "[]"] by (auto simp: URLQinit_def uq_wf_def)
qed

text \<open>C34: The URL queue is first in, first out: after any sequence of puts and guarded gets on a
  new queue, the URLs taken, followed by those still queued, are the URLs put in, in order and
  cut at the given lengths, with a NULL for each whose copy failed; the size counts those queued; no call goes through a stale or null
  pointer, though a queue that runs empty keeps a dangling tail.\<close>

theorem url_queue_fifo:
  "\<exists>q0 out q. URLQinit True = Inr q0
     \<and> queue_ops (\<lambda>q (u, n, m). URLQput (True, m) q u n) URLQtake os q0 = Inr (out, q)
     \<and> out @ uq_urls q = queue_puts (\<lambda>(u, n, m). strndup m u n) os
     \<and> URLQsize q = int (length (uq_urls q))"
proof -
  obtain q0 where q0: "URLQinit True = Inr q0" "uq_wf q0" "uq_urls q0 = []" using uq_init by blast
  with uq.ops_fifo [OF q0(2), of os] show ?thesis using uq_size_urls by auto
qed

end
