(* ===== verification/Silk_Loader.thy ===== *)
theory Silk_Loader
  imports Silk_Urlqueue
begin

section \<open>The pages and requests of the load generator (socksload/href.c, socksload/main.c)\<close>

text \<open>
  The search for links in a page and the set-up of a request.  The regular expression library
  PCRE2 and libcurl are not part of the program: what \<open>pcre2_match\<close> answers for a start offset
  and for the two options that are set together is a parameter, and so is what
  \<open>pcre2_pattern_info\<close> says of the compiled pattern: the table of named groups with the number
  and the size of its entries, the newline convention and the UTF-8 option.  \<open>mal\<close> says for the
  k-th node of the queue whether its malloc and the \<open>strndup\<close> of its text succeed.
\<close>

datatype pcre_result =
    P_NoMatch
  | P_Error
  | P_Match "(nat \<times> nat) list"

datatype newline = NL_CR | NL_LF | NL_CRLF | NL_Any | NL_AnyCRLF | NL_Nul

record pcre =
  compile_ok :: bool
  pmatch :: "nat \<Rightarrow> bool \<Rightarrow> pcre_result"
  namecount :: nat
  name_entry_size :: nat
  name_table :: "byte list"
  utf8 :: bool
  newline :: newline

definition crlf_is_newline :: "pcre \<Rightarrow> bool" where
  "crlf_is_newline re \<longleftrightarrow> newline re = NL_Any \<or> newline re = NL_CRLF \<or> newline re = NL_AnyCRLF"

text \<open>The walk over the name table: each entry starts with the number of its group, in two bytes.\<close>

fun table_groups :: "nat \<Rightarrow> nat \<Rightarrow> byte list \<Rightarrow> nat list" where
  "table_groups 0 entry_size tabptr = []"
| "table_groups (Suc n) entry_size tabptr =
     (256 * unat (tabptr ! 0) + unat (tabptr ! 1)) # table_groups n entry_size (drop entry_size tabptr)"

definition groups :: "pcre \<Rightarrow> nat list" where
  "groups re = table_groups (namecount re) (name_entry_size re) (name_table re)"

subsection \<open>Putting the named groups of a match into the queue\<close>

text \<open>
  Each link takes a node of the queue and a copy of its text.  \<open>mal\<close> says for the k-th node that the
  queue allocates whether malloc and strndup succeed.
\<close>

type_synonym allocs = "nat \<Rightarrow> alloc"

definition href_put :: "allocs \<Rightarrow> byte list \<Rightarrow> (nat \<times> nat) list \<Rightarrow> nat \<Rightarrow> URLqueue \<Rightarrow> c_fault + URLqueue" where
  "href_put mal subject ov n q =
     (case ov ! n of (a, b) \<Rightarrow> URLQput (mal (length (uq_heap q))) q (drop a subject) (b - a))"

fun href_puts :: "allocs \<Rightarrow> byte list \<Rightarrow> (nat \<times> nat) list \<Rightarrow> nat list \<Rightarrow> URLqueue \<Rightarrow> c_fault + URLqueue" where
  "href_puts mal subject ov [] q = Inr q"
| "href_puts mal subject ov (n # ns) q =
     (case href_put mal subject ov n q of Inl f \<Rightarrow> Inl f | Inr q' \<Rightarrow> href_puts mal subject ov ns q')"

subsection \<open>The loop over all matches\<close>

text \<open>After an empty match that cannot be made longer, the position moves on by one character.\<close>

fun skip_utf8 :: "byte list \<Rightarrow> nat" where
  "skip_utf8 [] = 0"
| "skip_utf8 (c # cs) = (if c AND 0xC0 \<noteq> 0x80 then 0 else Suc (skip_utf8 cs))"

definition advance :: "pcre \<Rightarrow> byte list \<Rightarrow> nat \<Rightarrow> nat" where
  "advance re subject start_offset =
     (if crlf_is_newline re \<and> start_offset < length subject - 1
         \<and> subject ! start_offset = 13 \<and> subject ! (start_offset + 1) = 10 then start_offset + 2
      else if utf8 re then start_offset + 1 + skip_utf8 (drop (start_offset + 1) subject)
      else start_offset + 1)"

text \<open>
  The loop, with \<open>ovector[0]\<close> and \<open>ovector[1]\<close> as \<open>o0\<close> and \<open>o1\<close>.  The result is the return
  value and the queue; None says that the fuel is used up.
\<close>

fun href_loop :: "allocs \<Rightarrow> nat \<Rightarrow> pcre \<Rightarrow> byte list \<Rightarrow> nat \<Rightarrow> nat \<Rightarrow> URLqueue \<Rightarrow> (c_fault + (nat \<times> URLqueue)) option" where
  "href_loop mal 0 re subject o0 o1 q = None"
| "href_loop mal (Suc fuel) re subject o0 o1 q =
     (let options = (o0 = o1)
      in if options \<and> o0 = length subject then Some (Inr (0, q))
         else case pmatch re o1 options of
                P_NoMatch \<Rightarrow>
                  if \<not> options then Some (Inr (0, q))
                  else href_loop mal fuel re subject o0 (advance re subject o1) q
              | P_Error \<Rightarrow> Some (Inr (1, q))
              | P_Match ov \<Rightarrow>
                  (case href_puts mal subject ov (groups re) q of
                     Inl f \<Rightarrow> Some (Inl f)
                   | Inr q' \<Rightarrow> href_loop mal fuel re subject (fst (hd ov)) (snd (hd ov)) q'))"

definition myPCRE_href :: "allocs \<Rightarrow> nat \<Rightarrow> pcre \<Rightarrow> byte list \<Rightarrow> URLqueue \<Rightarrow> (c_fault + (nat \<times> URLqueue)) option" where
  "myPCRE_href mal fuel re html q =
     (if \<not> compile_ok re then Some (Inr (1, q))
      else case pmatch re 0 False of
             P_NoMatch \<Rightarrow> Some (Inr (1, q))
           | P_Error \<Rightarrow> Some (Inr (1, q))
           | P_Match ov \<Rightarrow>
               (case href_puts mal html ov (groups re) q of
                  Inl f \<Rightarrow> Some (Inl f)
                | Inr q' \<Rightarrow> href_loop mal fuel re html (fst (hd ov)) (snd (hd ov)) q'))"

subsection \<open>The pages and the requests\<close>

definition QBACKLOG :: int where
  "QBACKLOG = 1024"

text \<open>The callback for a piece of a page; the links are looked for while the queue is short.\<close>

definition cb :: "allocs \<Rightarrow> nat \<Rightarrow> pcre \<Rightarrow> byte list \<Rightarrow> URLqueue \<Rightarrow> (c_fault + (nat \<times> URLqueue)) option" where
  "cb mal fuel re d q =
     (if URLQsize q < QBACKLOG then
        (case myPCRE_href mal fuel re d q of
           None \<Rightarrow> None
         | Some (Inl f) \<Rightarrow> Some (Inl f)
         | Some (Inr (_, q')) \<Rightarrow> Some (Inr (length d, q')))
      else Some (Inr (length d, q)))"

text \<open>
  The loop of \<open>main\<close> over the lines of the proxy file: \<open>proxylist\<close> has 1024 rows of 16 bytes.
  For a line that starts with a NUL byte the code looks at the byte before the row: that is the
  end of the previous row, which is 0, or memory before the array.
\<close>

function load_proxies :: "byte list \<Rightarrow> cstr list \<Rightarrow> c_fault + cstr list" where
  "load_proxies [] rows = Inr rows"
| "load_proxies (c # cs) rows =
     (if 1024 \<le> length rows then Inl Buffer_Overflow
      else case fgets 16 (c # cs) of
             (l, rest) \<Rightarrow>
               if c_str l = [] \<and> rows = [] then Inl Buffer_Overflow
               else load_proxies rest (rows @ [chop_newline l]))"
  by pat_completeness auto
termination
  by (relation "measure (\<lambda>(cs, _). length cs)") (auto dest: fgets_shorter [OF sym])

text \<open>
  The set-up of a request: the URL, and the login that asks the server for the next upstream
  proxy.  \<open>usr\<close> is \<open>PROXYMGRUSR\<close>, of a header that is not in the repository.  The counter is
  an unsigned int.
\<close>

definition init_request ::
  "cstr \<Rightarrow> cstr list \<Rightarrow> u32 \<Rightarrow> URLqueue \<Rightarrow> c_fault + ((cptr \<times> cstr) option \<times> u32 \<times> URLqueue)"
where
  "init_request usr proxylist i q =
     (if URLQempty q then Inr (None, i, q)
      else case URLQget q of
             Inl f \<Rightarrow> Inl f
           | Inr (url, q') \<Rightarrow>
               if proxylist = [] then Inl Div_By_Zero
               else
                 (let prxuser = usr @ proxylist ! (unat i mod length proxylist) @ [45, 49, 48, 56, 48]
                  in if length usr + 32 \<le> length prxuser then Inl Buffer_Overflow
                     else Inr (Some (url, prxuser), i + 1, q')))"

subsection \<open>The search for links ends\<close>

text \<open>
  What the documentation of PCRE2 promises of a match: it lies between the start offset and
  the end of the subject, and is not empty at the start when that was asked for.
\<close>

definition pcre_ok :: "pcre \<Rightarrow> nat \<Rightarrow> bool" where
  "pcre_ok re n \<longleftrightarrow>
     (\<forall>s opts ov. pmatch re s opts = P_Match ov \<longrightarrow>
        ov \<noteq> [] \<and> s \<le> fst (hd ov) \<and> fst (hd ov) \<le> snd (hd ov) \<and> snd (hd ov) \<le> n
        \<and> (opts \<longrightarrow> fst (hd ov) < snd (hd ov)))"

text \<open>The URLs that a page can yield: named groups of matches in it.\<close>

definition href_of :: "pcre \<Rightarrow> byte list \<Rightarrow> cstr \<Rightarrow> bool" where
  "href_of re html u \<longleftrightarrow>
     (\<exists>s opts ov n a b. pmatch re s opts = P_Match ov \<and> n \<in> set (groups re) \<and> ov ! n = (a, b)
        \<and> u = c_str (take (b - a) (drop a html)))"

text \<open>
  The links of a page, without the queue: the matches from left to right, as many as there are
  before the first error, and of each the text of every named group.
\<close>

fun next_matches :: "nat \<Rightarrow> pcre \<Rightarrow> byte list \<Rightarrow> nat \<Rightarrow> nat \<Rightarrow> (nat \<times> nat) list list" where
  "next_matches 0 re html o0 o1 = []"
| "next_matches (Suc fuel) re html o0 o1 =
     (if o0 = o1 \<and> o0 = length html then []
      else case pmatch re o1 (o0 = o1) of
             P_Match ov \<Rightarrow> ov # next_matches fuel re html (fst (hd ov)) (snd (hd ov))
           | P_NoMatch \<Rightarrow> if o0 = o1 then next_matches fuel re html o0 (advance re html o1) else []
           | P_Error \<Rightarrow> [])"

definition page_matches :: "nat \<Rightarrow> pcre \<Rightarrow> byte list \<Rightarrow> (nat \<times> nat) list list" where
  "page_matches fuel re html =
     (case pmatch re 0 False of
        P_Match ov \<Rightarrow>
          if compile_ok re then ov # next_matches fuel re html (fst (hd ov)) (snd (hd ov)) else []
      | _ \<Rightarrow> [])"

definition group_texts :: "pcre \<Rightarrow> byte list \<Rightarrow> (nat \<times> nat) list \<Rightarrow> cstr list" where
  "group_texts re html ov =
     map (\<lambda>n. c_str (take (snd (ov ! n) - fst (ov ! n)) (drop (fst (ov ! n)) html))) (groups re)"

definition href_links :: "nat \<Rightarrow> pcre \<Rightarrow> byte list \<Rightarrow> cstr list" where
  "href_links fuel re html = concat (map (group_texts re html) (page_matches fuel re html))"

text \<open>What the queue holds of a list of links: a NULL for each whose copy failed.\<close>

fun copies :: "allocs \<Rightarrow> nat \<Rightarrow> cstr list \<Rightarrow> cptr list" where
  "copies mal k [] = []"
| "copies mal k (u # us) = (if snd (mal k) then Some u else None) # copies mal (Suc k) us"

lemma copies_append: "copies mal k (us @ vs) = copies mal k us @ copies mal (k + length us) vs"
  by (induction us arbitrary: k) simp_all

lemma copies_all: "\<forall>k. snd (mal k) \<Longrightarrow> copies mal k us = map Some us"
  by (induction us arbitrary: k) simp_all

text \<open>The queue has got the given links more, or a node could not be allocated.\<close>

definition queued_more :: "allocs \<Rightarrow> URLqueue \<Rightarrow> cstr list \<Rightarrow> URLqueue \<Rightarrow> bool" where
  "queued_more mal q us q' \<longleftrightarrow> uq_wf q'
     \<and> uq_urls q' = uq_urls q @ copies mal (length (uq_heap q)) us
     \<and> length (uq_heap q') = length (uq_heap q) + length us"

definition no_node :: "allocs \<Rightarrow> c_fault \<Rightarrow> bool" where
  "no_node mal f \<longleftrightarrow> f = Null_Deref \<and> (\<exists>k. \<not> fst (mal k))"

lemma queued_none: "uq_wf q \<Longrightarrow> queued_more mal q [] q"
  by (simp add: queued_more_def)

lemma queued_trans: "queued_more mal q us q1 \<Longrightarrow> queued_more mal q1 vs q2 \<Longrightarrow> queued_more mal q (us @ vs) q2"
  by (auto simp: queued_more_def copies_append)

lemma skip_utf8_le: "skip_utf8 cs \<le> length cs"
  by (induction cs) auto

lemma advance_bounds:
  assumes "s < length subject"
  shows "s < advance re subject s" and "advance re subject s \<le> length subject"
  using assms skip_utf8_le [of "drop (s + 1) subject"] by (auto simp: advance_def)

lemma href_put_one:
  assumes "uq_wf q"
  shows "case href_put mal html ov n q of
      Inl f \<Rightarrow> no_node mal f
    | Inr q' \<Rightarrow> queued_more mal q [c_str (take (snd (ov ! n) - fst (ov ! n)) (drop (fst (ov ! n)) html))] q'"
proof (cases "fst (mal (length (uq_heap q)))")
  case True
  from put_uq [OF assms True, of "drop (fst (ov ! n)) html" "snd (ov ! n) - fst (ov ! n)"]
  show ?thesis by (auto simp: href_put_def case_prod_beta queued_more_def strndup_def)
next
  case False
  with put_uq_null [OF assms False] show ?thesis
    by (auto simp: href_put_def case_prod_beta no_node_def)
qed

lemma href_puts_all:
  assumes "uq_wf q"
  shows "case href_puts mal html ov ns q of
      Inl f \<Rightarrow> no_node mal f
    | Inr q' \<Rightarrow> queued_more mal q
        (map (\<lambda>n. c_str (take (snd (ov ! n) - fst (ov ! n)) (drop (fst (ov ! n)) html))) ns) q'"
  using assms
proof (induction ns arbitrary: q)
  case (Cons n ns)
  show ?case
  proof (cases "href_put mal html ov n q")
    case (Inl f)
    with href_put_one [OF Cons.prems, of mal ov n html] show ?thesis by simp
  next
    case (Inr q1)
    then have q1: "queued_more mal q [c_str (take (snd (ov ! n) - fst (ov ! n)) (drop (fst (ov ! n)) html))] q1"
      using href_put_one [OF Cons.prems, of mal ov n html] by simp
    then have "uq_wf q1" by (simp add: queued_more_def)
    from Cons.IH [OF this] Inr queued_trans [OF q1] show ?thesis by (auto split: sum.splits)
  qed
qed (simp add: queued_none)

lemma href_puts_groups:
  assumes "uq_wf q"
  shows "case href_puts mal html ov (groups re) q of
      Inl f \<Rightarrow> no_node mal f | Inr q' \<Rightarrow> queued_more mal q (group_texts re html ov) q'"
  unfolding group_texts_def by (rule href_puts_all [OF assms])

lemma matches_found:
  "ov \<in> set (next_matches fuel re html o0 o1) \<Longrightarrow> \<exists>s opts. pmatch re s opts = P_Match ov"
proof (induction fuel arbitrary: o0 o1)
  case (Suc fuel)
  then show ?case by (cases "pmatch re o1 (o0 = o1)") (auto split: if_splits)
qed simp

lemma links_found: "u \<in> set (href_links fuel re html) \<Longrightarrow> href_of re html u"
proof -
  assume "u \<in> set (href_links fuel re html)"
  then obtain ov n where ov: "ov \<in> set (page_matches fuel re html)" and n: "n \<in> set (groups re)"
      "u = c_str (take (snd (ov ! n) - fst (ov ! n)) (drop (fst (ov ! n)) html))"
    by (auto simp: href_links_def group_texts_def)
  have "\<exists>s opts. pmatch re s opts = P_Match ov"
    using ov matches_found [of ov fuel re html]
    by (cases "pmatch re 0 False") (auto simp: page_matches_def split: if_splits)
  then obtain s opts where "pmatch re s opts = P_Match ov" by blast
  with n show ?thesis unfolding href_of_def by (fastforce simp: prod_eq_iff)
qed

text \<open>The result of a search: a return value of 0 or 1 and the links queued, or a fault.\<close>

definition searched :: "allocs \<Rightarrow> URLqueue \<Rightarrow> cstr list \<Rightarrow> (c_fault + (nat \<times> URLqueue)) option \<Rightarrow> bool" where
  "searched mal q us r \<longleftrightarrow>
     (case r of None \<Rightarrow> False
      | Some (Inl f) \<Rightarrow> no_node mal f
      | Some (Inr (rc, q')) \<Rightarrow> rc \<le> 1 \<and> queued_more mal q us q')"

lemma searched_trans:
  "queued_more mal q us q1 \<Longrightarrow> searched mal q1 vs r \<Longrightarrow> searched mal q (us @ vs) r"
  by (auto simp: searched_def split: option.splits sum.splits prod.splits dest: queued_trans)

lemma href_loop_ends:
  assumes ok: "pcre_ok re (length html)" and q: "uq_wf q" and o1: "o1 \<le> length html"
    and fuel: "2 * (length html - o1) + (if o0 = o1 then 0 else 1) < fuel"
  shows "searched mal q (concat (map (group_texts re html) (next_matches fuel re html o0 o1)))
    (href_loop mal fuel re html o0 o1 q)"
  using q o1 fuel
proof (induction fuel arbitrary: o0 o1 q)
  case (Suc fuel)
  note none = queued_none [OF Suc.prems(1)]
  show ?case
  proof (cases "o0 = o1 \<and> o0 = length html")
    case True
    then show ?thesis using none by (auto simp: searched_def)
  next
    case False
    show ?thesis
    proof (cases "pmatch re o1 (o0 = o1)")
      case P_NoMatch
      show ?thesis
      proof (cases "o0 = o1")
        case True
        then have "o1 < length html" using False Suc.prems(2) by simp
        note adv = advance_bounds [OF this, of re]
        have "2 * (length html - advance re html o1) + (if o0 = advance re html o1 then 0 else 1) < fuel"
          using adv True Suc.prems(3) by auto
        from Suc.IH [OF Suc.prems(1) adv(2) this] True False P_NoMatch show ?thesis by (simp add: Let_def)
      qed (use P_NoMatch none in \<open>auto simp: searched_def\<close>)
    next
      case P_Error
      then show ?thesis using False none by (auto simp: searched_def)
    next
      case (P_Match ov)
      have b: "o1 \<le> fst (hd ov)" "fst (hd ov) \<le> snd (hd ov)" "snd (hd ov) \<le> length html"
          "o0 = o1 \<longrightarrow> fst (hd ov) < snd (hd ov)"
        using ok P_Match by (auto simp: pcre_ok_def)
      have f: "2 * (length html - snd (hd ov)) + (if fst (hd ov) = snd (hd ov) then 0 else 1) < fuel"
        using b Suc.prems(3) by (auto split: if_splits)
      show ?thesis
      proof (cases "href_puts mal html ov (groups re) q")
        case (Inl e)
        with href_puts_groups [OF Suc.prems(1), of mal re html ov] False P_Match show ?thesis
          by (auto simp: searched_def)
      next
        case (Inr q1)
        then have q1: "queued_more mal q (group_texts re html ov) q1"
          using href_puts_groups [OF Suc.prems(1), of mal re html ov] by simp
        then have "uq_wf q1" by (simp add: queued_more_def)
        from searched_trans [OF q1 Suc.IH [OF this b(3) f]] Inr False P_Match show ?thesis
          by (auto simp: Let_def)
      qed
    qed
  qed
qed simp

lemma href_ends:
  assumes "pcre_ok re (length html)" and "uq_wf q" and "2 * length html + 2 \<le> fuel"
  shows "searched mal q (href_links fuel re html) (myPCRE_href mal fuel re html q)"
proof (cases "compile_ok re \<and> (\<exists>ov. pmatch re 0 False = P_Match ov)")
  case False
  then show ?thesis using queued_none [OF assms(2)]
    by (auto simp: myPCRE_href_def searched_def href_links_def page_matches_def split: pcre_result.split)
next
  case True
  then obtain ov where m: "compile_ok re" "pmatch re 0 False = P_Match ov" by blast
  have b: "fst (hd ov) \<le> snd (hd ov)" "snd (hd ov) \<le> length html"
    using assms(1) m(2) by (auto simp: pcre_ok_def)
  have f: "2 * (length html - snd (hd ov)) + (if fst (hd ov) = snd (hd ov) then 0 else 1) < fuel"
    using assms(3) by auto
  show ?thesis
  proof (cases "href_puts mal html ov (groups re) q")
    case (Inl e)
    with href_puts_groups [OF assms(2), of mal re html ov] m show ?thesis
      by (simp add: searched_def myPCRE_href_def)
  next
    case (Inr q1)
    then have q1: "queued_more mal q (group_texts re html ov) q1"
      using href_puts_groups [OF assms(2), of mal re html ov] by simp
    then have "uq_wf q1" by (simp add: queued_more_def)
    from searched_trans [OF q1 href_loop_ends [OF assms(1) this b(2) f]] Inr m show ?thesis
      by (simp add: myPCRE_href_def href_links_def page_matches_def)
  qed
qed

text \<open>C35: The search for links ends: if the library's matches are as its documentation says,
  \<open>myPCRE_href\<close> goes round its loop at most twice per byte of the page, also when matches are
  empty.  If a node of the queue cannot be allocated, it writes through a NULL pointer; otherwise
  it returns 0 or 1, and what it has appended to the queue are exactly the texts of the named
  groups of the matches, in order, which are substrings of the page, with a NULL in place of
  each that could not be copied.\<close>

theorem href_terminates:
  assumes "pcre_ok re (length html)" and "uq_wf q" and "2 * length html + 2 \<le> fuel"
  shows "case myPCRE_href mal fuel re html q of
      None \<Rightarrow> False
    | Some (Inl f) \<Rightarrow> f = Null_Deref \<and> (\<exists>k. \<not> fst (mal k))
    | Some (Inr (rc, q')) \<Rightarrow> rc \<le> 1 \<and> uq_wf q'
        \<and> uq_urls q' = uq_urls q @ copies mal (length (uq_heap q)) (href_links fuel re html)
        \<and> ((\<forall>k. snd (mal k)) \<longrightarrow> uq_urls q' = uq_urls q @ map Some (href_links fuel re html))
        \<and> (\<forall>u \<in> set (href_links fuel re html). href_of re html u)"
  using href_ends [OF assms, of mal] links_found copies_all
  by (auto simp: searched_def no_node_def queued_more_def split: option.splits sum.splits prod.splits)

definition ex_pcre :: pcre where
  "ex_pcre = \<lparr>compile_ok = True,
     pmatch = (\<lambda>s opts. if s = 0 \<and> \<not> opts then P_Match [(1, 1), (1, 1)]
        else if s = 1 then P_Match [(1, 4), (2, 3)] else P_NoMatch),
     namecount = 1, name_entry_size = 6, name_table = [0, 1, 117, 114, 108, 0], utf8 = False,
     newline = NL_AnyCRLF\<rparr>"

lemma href_terminates_witness:
  "\<exists>q. URLQinit True = Inr q \<and>
    (case myPCRE_href (\<lambda>_. (True, True)) 10 ex_pcre [60, 97, 104, 62] q of
       None \<Rightarrow> False
     | Some (Inl f) \<Rightarrow> False
     | Some (Inr (rc, q')) \<Rightarrow> rc \<le> 1 \<and> uq_urls q' = [Some [], Some [104]])"
proof -
  let ?mal = "\<lambda>_ :: nat. (True, True)"
  obtain q where q: "URLQinit True = Inr q" "uq_wf q" "uq_urls q = []" using uq_init by blast
  have ok: "pcre_ok ex_pcre (length [60, 97, 104, 62 :: byte])"
    by (auto simp: pcre_ok_def ex_pcre_def split: if_splits)
  have l: "href_links 10 ex_pcre [60, 97, 104, 62] = [[], [104]]" by code_simp
  from q href_terminates [OF ok q(2), of 10 ?mal, unfolded l] show ?thesis
    by (auto split: option.splits sum.splits prod.splits)
qed

subsection \<open>The proxies of a file\<close>

lemma fgets_line:
  "10 \<notin> set l \<Longrightarrow> fgets (Suc n) (l @ 10 # rest) =
     (if length l < n then (l @ [10], rest) else (take n l, drop n l @ 10 # rest))"
proof (induction n arbitrary: l)
  case (Suc n)
  then show ?case by (cases l) auto
qed simp

lemma chop_line: "0 \<notin> set l \<Longrightarrow> chop_newline (l @ [10]) = l"
  by (simp add: chop_newline_def c_str_id)

lemma chop_no_line:
  assumes "0 \<notin> set l" and "10 \<notin> set l"
  shows "chop_newline l = l"
proof -
  have "l \<noteq> [] \<Longrightarrow> last l \<noteq> 10" using last_in_set [of l] assms(2) by metis
  then show ?thesis using assms(1) by (auto simp: chop_newline_def c_str_id)
qed

text \<open>The rows that one line fills: a line of 15 bytes leaves its newline for a row of its own.\<close>

definition proxy_rows :: "cstr \<Rightarrow> cstr list" where
  "proxy_rows l = (if length l < 15 then [l] else [l, []])"

definition proxy_file :: "cstr list \<Rightarrow> byte list" where
  "proxy_file ls = concat (map (\<lambda>l. l @ [10]) ls)"

lemma load_proxies_rows:
  assumes "\<And>l. l \<in> set ls \<Longrightarrow> l \<noteq> [] \<and> length l \<le> 15 \<and> 0 \<notin> set l \<and> 10 \<notin> set l"
    and "length rows + length (concat (map proxy_rows ls)) \<le> 1024"
  shows "load_proxies (proxy_file ls) rows = Inr (rows @ concat (map proxy_rows ls))"
  using assms
proof (induction ls arbitrary: rows)
  case (Cons l ls)
  have l: "l \<noteq> []" "length l \<le> 15" "0 \<notin> set l" "10 \<notin> set l" using Cons.prems(1) by auto
  let ?rest = "proxy_file ls"
  have f: "proxy_file (l # ls) = l @ 10 # ?rest" by (simp add: proxy_file_def)
  obtain c cs where c: "proxy_file (l # ls) = c # cs" by (cases "proxy_file (l # ls)") (use f in simp_all)
  have g: "fgets 16 (proxy_file (l # ls)) =
      (if length l < 15 then (l @ [10], ?rest) else (l, 10 # ?rest))"
    using fgets_line [OF l(4), of 15 ?rest] l(2) by (auto simp: f)
  have s: "c_str l = l" by (rule c_str_id [OF l(3)])
  have ns: "c_str (l @ [10]) = l @ [10]" using l(3) by (intro c_str_id) auto
  show ?case
  proof (cases "length l < 15")
    case True
    then have "load_proxies (proxy_file (l # ls)) rows = load_proxies ?rest (rows @ [l])"
      using g Cons.prems(2) ns chop_line [OF l(3)] by (simp add: c proxy_rows_def)
    with Cons.IH [of "rows @ [l]"] Cons.prems True show ?thesis by (simp add: proxy_rows_def)
  next
    case False
    then have "load_proxies (proxy_file (l # ls)) rows = load_proxies (10 # ?rest) (rows @ [l])"
      using g Cons.prems(2) s l(1) chop_no_line [OF l(3,4)] by (simp add: c proxy_rows_def)
    also have "fgets 16 (10 # ?rest) = ([10], ?rest)"
      using fgets_line [of "[]" 15 ?rest] by simp
    then have "load_proxies (10 # ?rest) (rows @ [l]) = load_proxies ?rest (rows @ [l, []])"
      using Cons.prems(2) False chop_line [of "[]"] by (simp add: proxy_rows_def c_str_def)
    finally show ?thesis
      using Cons.IH [of "rows @ [l, []]"] Cons.prems False by (simp add: proxy_rows_def)
  qed
qed (simp add: proxy_file_def)

end
