(* ===== verification/Silk_Crawl.thy ===== *)
theory Silk_Crawl
  imports Silk_Loader Silk_Login
begin

section \<open>The crawl of the load generator (socksload/main.c)\<close>

text \<open>
  The event loop \<open>curl_multi_fire\<close> over libcurl, as each thread of the program runs it, and \<open>main\<close>,
  which starts the threads.  What the program does not decide is a parameter, a record
  \<open>outside\<close>: what libcurl does in a turn of the loop (the number of transfers that still run, the
  pieces of pages it hands to the callback meanwhile, what the calls before and of \<open>select\<close>
  return, and the messages of \<open>curl_multi_info_read\<close>, True for \<open>CURLMSG_DONE\<close>), whether it takes a
  new request, what PCRE2 answers for a page, and the answers of the allocator.  libcurl may make
  its answers depend on the number of the turn and on everything the program has done so far.
  All that the threads share and change is the static counter of \<open>init\<close>, without a lock:
  \<open>o_seen\<close> says what a thread finds in it, which is what it left there itself when it is alone
  (\<open>cr_i\<close>), and any value otherwise.  \<open>o_usr\<close> is \<open>PROXYMGRUSR\<close>, of a header that is not in the
  repository.  The time-out only says how long a turn waits and is left out.
\<close>

definition STARTPAGE :: cstr where
  "STARTPAGE = [119, 119, 119, 46, 121, 97, 110, 100, 101, 120, 46, 114, 117]"

record turn =
  t_running :: int
  t_pages :: "byte list list"
  t_fdset_ok :: bool
  t_timeout_ok :: bool
  t_maxfd :: int
  t_select :: int
  t_msgs :: "bool list"

text \<open>
  A request: the URL, which is NULL when its copy failed, the login, and whether libcurl took it:
  \<open>curl_easy_init\<close> made a handle and \<open>curl_multi_add_handle\<close> accepted it.  The code looks at
  neither, and libcurl refuses a NULL handle in all later calls.
\<close>

record crawl_request =
  rq_url :: cptr
  rq_login :: cstr
  rq_taken :: bool

text \<open>
  The state: the queue, the static counter of \<open>init\<close>, the requests set up, the pieces of pages
  received, each with the size of the queue at that moment, the number of handles in the multi
  handle, and the variable \<open>U\<close>.
\<close>

record crawl =
  cr_queue :: URLqueue
  cr_i :: u32
  cr_sent :: "crawl_request list"
  cr_pages :: "(byte list \<times> int) list"
  cr_live :: int
  cr_U :: int

record outside =
  o_curl :: "nat \<Rightarrow> crawl \<Rightarrow> turn"
  o_took :: "crawl \<Rightarrow> bool"
  o_re :: "byte list \<Rightarrow> pcre"
  o_seen :: "crawl \<Rightarrow> u32"
  o_init :: bool
  o_mal :: allocs
  o_usr :: cstr

datatype crawl_end = Finished | Gave_Up | Still_Running

subsection \<open>The steps of a turn\<close>

text \<open>
  \<open>init\<close>.  The handle that it has made before it finds the queue empty is lost; such handles are
  not counted here, since nothing looks at them again.
\<close>

definition crawl_init :: "outside \<Rightarrow> cstr list \<Rightarrow> crawl \<Rightarrow> c_fault + crawl" where
  "crawl_init w proxylist c =
     (case init_request (o_usr w) proxylist (o_seen w c) (cr_queue c) of
        Inl f \<Rightarrow> Inl f
      | Inr (None, _, q) \<Rightarrow> Inr (c\<lparr>cr_queue := q\<rparr>)
      | Inr (Some (url, login), i, q) \<Rightarrow>
          Inr (c\<lparr>cr_i := i, cr_queue := q,
            cr_sent := cr_sent c @ [\<lparr>rq_url = url, rq_login = login, rq_taken = o_took w c\<rparr>],
            cr_live := (if o_took w c then cr_live c + 1 else cr_live c)\<rparr>))"

lemma crawl_init_U: "crawl_init w pl c = Inr c1 \<Longrightarrow> cr_U c1 = cr_U c"
  by (auto simp: crawl_init_def split: sum.splits prod.splits option.splits)

text \<open>\<open>while (U < max_conn)\<close>; the count goes up also when the queue is empty.\<close>

function top_up :: "outside \<Rightarrow> cstr list \<Rightarrow> int \<Rightarrow> crawl \<Rightarrow> c_fault + crawl" where
  "top_up w proxylist max_conn c =
     (if cr_U c < max_conn then
        (case crawl_init w proxylist c of
           Inl f \<Rightarrow> Inl f
         | Inr c1 \<Rightarrow> top_up w proxylist max_conn (c1\<lparr>cr_U := cr_U c1 + 1\<rparr>))
      else Inr c)"
  by pat_completeness auto
termination
  by (relation "measure (\<lambda>(_, _, m, c). nat (m - cr_U c))") (auto simp: crawl_init_U)

declare top_up.simps [simp del]

fun read_msgs :: "outside \<Rightarrow> cstr list \<Rightarrow> int \<Rightarrow> bool list \<Rightarrow> crawl \<Rightarrow> c_fault + crawl" where
  "read_msgs w proxylist max_conn [] c = Inr c"
| "read_msgs w proxylist max_conn (finished # ms) c =
     (case top_up w proxylist max_conn (if finished then c\<lparr>cr_live := cr_live c - 1\<rparr> else c) of
        Inl f \<Rightarrow> Inl f
      | Inr c1 \<Rightarrow> read_msgs w proxylist max_conn ms c1)"

text \<open>
  The callbacks during \<open>curl_multi_perform\<close>.  The fuel of the search is the bound that it needs.
\<close>

fun deliver :: "outside \<Rightarrow> byte list list \<Rightarrow> crawl \<Rightarrow> (c_fault + crawl) option" where
  "deliver w [] c = Some (Inr c)"
| "deliver w (d # ds) c =
     (case cb (o_mal w) (2 * length d + 2) (o_re w d) d (cr_queue c) of
        None \<Rightarrow> None
      | Some (Inl f) \<Rightarrow> Some (Inl f)
      | Some (Inr (_, q)) \<Rightarrow>
          deliver w ds (c\<lparr>cr_queue := q, cr_pages := cr_pages c @ [(d, URLQsize (cr_queue c))]\<rparr>))"

definition wait_ok :: "turn \<Rightarrow> bool" where
  "wait_ok t \<longleftrightarrow> t_fdset_ok t \<and> t_timeout_ok t \<and> (t_maxfd t = -1 \<or> 0 \<le> t_select t)"

subsection \<open>The loop\<close>

fun crawl_loop ::
  "nat \<Rightarrow> nat \<Rightarrow> outside \<Rightarrow> cstr list \<Rightarrow> int \<Rightarrow> crawl \<Rightarrow> (c_fault + (crawl_end \<times> crawl)) option"
where
  "crawl_loop n k w proxylist max_conn c =
     (if cr_U c = 0 then Some (Inr (Finished, c))
      else case n of
        0 \<Rightarrow> Some (Inr (Still_Running, c))
      | Suc m \<Rightarrow>
          (let t = o_curl w k c
           in case deliver w (t_pages t) c of
                None \<Rightarrow> None
              | Some (Inl f) \<Rightarrow> Some (Inl f)
              | Some (Inr c1) \<Rightarrow>
                  (let c2 = c1\<lparr>cr_U := t_running t\<rparr>
                   in if t_running t \<noteq> 0 \<and> \<not> wait_ok t then Some (Inr (Gave_Up, c2))
                      else case read_msgs w proxylist max_conn (t_msgs t) c2 of
                             Inl f \<Rightarrow> Some (Inl f)
                           | Inr c3 \<Rightarrow> crawl_loop m (Suc k) w proxylist max_conn c3)))"

declare crawl_loop.simps [simp del]

definition curl_multi_fire ::
  "nat \<Rightarrow> outside \<Rightarrow> cstr list \<Rightarrow> u32 \<Rightarrow> int \<Rightarrow> (c_fault + (crawl_end \<times> crawl)) option"
where
  "curl_multi_fire n w proxylist i max_conn =
     (case URLQinit (o_init w) of
        Inl f \<Rightarrow> Some (Inl f)
      | Inr q0 \<Rightarrow>
          (case URLQput (o_mal w (length (uq_heap q0))) q0 STARTPAGE (length STARTPAGE) of
             Inl f \<Rightarrow> Some (Inl f)
           | Inr q \<Rightarrow>
               (case crawl_init w proxylist
                   \<lparr>cr_queue = q, cr_i = i, cr_sent = [], cr_pages = [], cr_live = 0, cr_U = -1\<rparr> of
                  Inl f \<Rightarrow> Some (Inl f)
                | Inr c \<Rightarrow> crawl_loop n 0 w proxylist max_conn c)))"

subsection \<open>main\<close>

text \<open>
  \<open>argv\<close> holds the program's name too; the file is what \<open>fopen\<close> and \<open>fgets\<close> yield, None when it
  cannot be opened; the flag says whether calloc succeeds, which the code does not test.  The result of a start is the list of proxies, the number of connections of
  each thread, and the number of threads that run \<open>curl_multi_fire\<close>.
\<close>

definition atoi :: "cstr \<Rightarrow> int" where
  "atoi s = sint (word_of_int (fst (strtol s)) :: 32 word)"

datatype load_start =
    Load_Usage
  | Load_No_File
  | Load_Fault c_fault
  | Load_Threads "cstr list" int nat

definition socksload_main :: "bool \<Rightarrow> cstr list \<Rightarrow> byte list option \<Rightarrow> load_start" where
  "socksload_main calloc_ok argv proxyfile =
     (if length argv < 3 then Load_Usage
      else case proxyfile of
             None \<Rightarrow> Load_No_File
           | Some bytes \<Rightarrow>
               (case load_proxies bytes [] of
                  Inl f \<Rightarrow> Load_Fault f
                | Inr proxylist \<Rightarrow>
                    (let max_threads = (if length argv = 4 then nat (atoi (argv ! 3)) else 1)
                     in if \<not> calloc_ok \<and> 0 < max_threads then Load_Fault Null_Deref
                        else Load_Threads proxylist (atoi (argv ! 1)) max_threads)))"

subsection \<open>What every step keeps\<close>

definition proxies_ok :: "cstr list \<Rightarrow> bool" where
  "proxies_ok pl \<longleftrightarrow> pl \<noteq> [] \<and> (\<forall>p \<in> set pl. length p \<le> 15)"

text \<open>The login of the request with counter \<open>i\<close>: the proxies take turns.\<close>

definition turn_login :: "cstr \<Rightarrow> cstr list \<Rightarrow> u32 \<Rightarrow> cstr" where
  "turn_login usr pl i = usr @ pl ! (unat i mod length pl) @ [45, 49, 48, 56, 48]"

text \<open>
  The links of the pieces of pages received: a piece is searched if the queue was short when it
  came in, and then all its links count, in order.
\<close>

definition links_found :: "outside \<Rightarrow> crawl \<Rightarrow> cstr list" where
  "links_found w c =
     concat (map (\<lambda>(d, n). if n < QBACKLOG then href_links (2 * length d + 2) (o_re w d) d else []) (cr_pages c))"

abbreviation queued :: "crawl \<Rightarrow> cptr list" where
  "queued c \<equiv> uq_urls (cr_queue c)"

text \<open>
  The invariant: the URLs requested, followed by those queued, are the start page and the links
  found, each NULL whose copy failed; every request names a proxy of the list, and a thread that
  is alone takes them in turn.
\<close>

definition crawl_inv :: "outside \<Rightarrow> cstr list \<Rightarrow> u32 \<Rightarrow> crawl \<Rightarrow> bool" where
  "crawl_inv w pl i0 c \<longleftrightarrow>
     uq_wf (cr_queue c) \<and> map rq_url (cr_sent c) @ queued c = copies (o_mal w) 0 (STARTPAGE # links_found w c)
     \<and> length (uq_heap (cr_queue c)) = Suc (length (links_found w c))
     \<and> (\<forall>r \<in> set (cr_sent c). \<exists>j. rq_login r = turn_login (o_usr w) pl j)
     \<and> (o_seen w = cr_i \<longrightarrow> cr_i c = i0 + of_nat (length (cr_sent c))
          \<and> map rq_login (cr_sent c) = map (\<lambda>k. turn_login (o_usr w) pl (i0 + of_nat k)) [0..<length (cr_sent c)])
     \<and> ((\<forall>x. o_took w x) \<longrightarrow> (\<forall>r \<in> set (cr_sent c). rq_taken r))"

lemma crawl_inv_counts [simp]:
  "crawl_inv w pl i0 (c\<lparr>cr_live := x\<rparr>) = crawl_inv w pl i0 c"
  "crawl_inv w pl i0 (c\<lparr>cr_U := y\<rparr>) = crawl_inv w pl i0 c"
  by (simp_all add: crawl_inv_def links_found_def)

lemma fgets_length: "fgets (Suc n) cs = (l, rest) \<Longrightarrow> length l \<le> n"
proof (induction n arbitrary: cs l)
  case (Suc n)
  show ?case
  proof (cases cs)
    case (Cons c ds)
    then show ?thesis using Suc.prems Suc.IH by (auto split: if_splits prod.splits)
  qed (use Suc.prems in simp)
qed simp

lemma chop_length: "length (chop_newline l) \<le> length l"
proof -
  have "length (c_str l) \<le> length l" by (simp add: c_str_def length_takeWhile_le)
  then show ?thesis by (auto simp: chop_newline_def)
qed

text \<open>The rows of the proxy list are as long as the array that holds them allows.\<close>

lemma load_proxies_fit:
  "load_proxies cs rows = Inr pl \<Longrightarrow> \<forall>p \<in> set rows. length p \<le> 15 \<Longrightarrow> \<forall>p \<in> set pl. length p \<le> 15"
proof (induction cs rows rule: load_proxies.induct)
  case (2 c cs rows)
  obtain l rest where f: "fgets 16 (c # cs) = (l, rest)" by (cases "fgets 16 (c # cs)")
  have "length (chop_newline l) \<le> 15"
    using fgets_length [of 15 "c # cs" l rest] f chop_length [of l] by simp
  with 2 f show ?case by (auto simp del: fgets.simps split: if_splits)
qed simp

lemma main_proxies:
  assumes "socksload_main al argv file = Load_Threads pl m k" and "pl \<noteq> []"
  shows "proxies_ok pl"
  using assms load_proxies_fit [of _ "[]" pl]
  by (auto simp: socksload_main_def proxies_ok_def Let_def split: if_splits option.splits sum.splits)

lemma init_request_ok:
  assumes pl: "proxies_ok pl" and q: "uq_wf q"
  shows "case uq_urls q of
      [] \<Rightarrow> init_request usr pl i q = Inr (None, i, q)
    | u # us \<Rightarrow> \<exists>q'. init_request usr pl i q = Inr (Some (u, turn_login usr pl i), i + 1, q')
        \<and> uq_wf q' \<and> uq_urls q' = us \<and> length (uq_heap q') = length (uq_heap q)"
proof -
  have "pl ! (unat i mod length pl) \<in> set pl" and ne: "pl \<noteq> []" using pl by (auto simp: proxies_ok_def)
  then have "length (pl ! (unat i mod length pl)) \<le> 15" using pl by (auto simp: proxies_ok_def)
  then show ?thesis using get_uq [OF q] ne
    by (auto simp: init_request_def turn_login_def split: list.splits)
qed

lemma crawl_init_keeps:
  assumes pl: "proxies_ok pl" and inv: "crawl_inv w pl i0 c"
  shows "\<exists>c1. crawl_init w pl c = Inr c1 \<and> crawl_inv w pl i0 c1 \<and> cr_U c1 = cr_U c \<and> cr_live c \<le> cr_live c1
    \<and> (if queued c = [] then queued c1 = [] else o_took w c \<longrightarrow> cr_live c < cr_live c1)"
proof (cases "queued c")
  case Nil
  then have "crawl_init w pl c = Inr c"
    using init_request_ok [OF pl, of "cr_queue c" "o_usr w" "o_seen w c"] inv
    by (simp add: crawl_inv_def crawl_init_def)
  with inv Nil show ?thesis by simp
next
  case (Cons u us)
  let ?l = "turn_login (o_usr w) pl (o_seen w c)"
  obtain q' where q': "init_request (o_usr w) pl (o_seen w c) (cr_queue c) = Inr (Some (u, ?l), o_seen w c + 1, q')"
      "uq_wf q'" "uq_urls q' = us" "length (uq_heap q') = length (uq_heap (cr_queue c))"
    using init_request_ok [OF pl, of "cr_queue c" "o_usr w" "o_seen w c"] inv Cons by (auto simp: crawl_inv_def)
  let ?c = "c\<lparr>cr_i := o_seen w c + 1, cr_queue := q',
      cr_sent := cr_sent c @ [\<lparr>rq_url = u, rq_login = ?l, rq_taken = o_took w c\<rparr>],
      cr_live := (if o_took w c then cr_live c + 1 else cr_live c)\<rparr>"
  have "crawl_init w pl c = Inr ?c" using q'(1) by (simp add: crawl_init_def)
  moreover have "links_found w ?c = links_found w c" by (simp add: links_found_def)
  then have "crawl_inv w pl i0 ?c"
    using inv q'(2-) Cons unfolding crawl_inv_def by auto
  ultimately show ?thesis using Cons by (intro exI [of _ ?c]) simp
qed

lemma top_up_keeps:
  assumes pl: "proxies_ok pl" and inv: "crawl_inv w pl i0 c"
  shows "\<exists>c1. top_up w pl m c = Inr c1 \<and> crawl_inv w pl i0 c1 \<and> cr_U c1 = max m (cr_U c)
    \<and> cr_live c \<le> cr_live c1 \<and> (cr_U c < m \<longrightarrow> queued c \<noteq> [] \<longrightarrow> o_took w c \<longrightarrow> cr_live c < cr_live c1)
    \<and> (queued c = [] \<longrightarrow> queued c1 = [])"
  using inv
proof (induction "nat (m - cr_U c)" arbitrary: c rule: less_induct)
  case less
  show ?case
  proof (cases "cr_U c < m")
    case True
    obtain c1 where c1: "crawl_init w pl c = Inr c1" "crawl_inv w pl i0 c1" "cr_U c1 = cr_U c"
        "cr_live c \<le> cr_live c1" "if queued c = [] then queued c1 = [] else o_took w c \<longrightarrow> cr_live c < cr_live c1"
      using crawl_init_keeps [OF pl less.prems] by blast
    let ?c = "c1\<lparr>cr_U := cr_U c1 + 1\<rparr>"
    obtain c2 where c2: "top_up w pl m ?c = Inr c2" "crawl_inv w pl i0 c2"
        "cr_U c2 = max m (cr_U ?c)" "cr_live ?c \<le> cr_live c2" "queued ?c = [] \<longrightarrow> queued c2 = []"
      using less.hyps [of ?c] True c1(2,3) by auto
    have "top_up w pl m c = Inr c2" using True c1(1) c2(1) by (subst top_up.simps) simp
    with c1 c2(2-) True show ?thesis by (auto split: if_splits)
  next
    case False
    then show ?thesis using less.prems by (subst top_up.simps) auto
  qed
qed

lemma read_msgs_keeps:
  assumes pl: "proxies_ok pl" and inv: "crawl_inv w pl i0 c"
  shows "\<exists>c1. read_msgs w pl m ms c = Inr c1 \<and> crawl_inv w pl i0 c1
    \<and> (if ms = [] then c1 = c else cr_U c1 = max m (cr_U c))
    \<and> cr_live c - int (length ms) \<le> cr_live c1
    \<and> ((\<forall>x. o_took w x) \<longrightarrow> ms \<noteq> [] \<longrightarrow> cr_U c < m \<longrightarrow> queued c \<noteq> [] \<longrightarrow> cr_live c - int (length ms) < cr_live c1)
    \<and> (queued c = [] \<longrightarrow> queued c1 = [])"
  using inv
proof (induction ms arbitrary: c)
  case (Cons b ms)
  let ?c = "if b then c\<lparr>cr_live := cr_live c - 1\<rparr> else c"
  have "crawl_inv w pl i0 ?c" using Cons.prems by simp
  from top_up_keeps [OF pl this, of m] obtain c1 where c1: "top_up w pl m ?c = Inr c1"
      "crawl_inv w pl i0 c1" "cr_U c1 = max m (cr_U c)" "cr_live c - 1 \<le> cr_live c1"
      "(\<forall>x. o_took w x) \<longrightarrow> cr_U c < m \<longrightarrow> queued c \<noteq> [] \<longrightarrow> cr_live c - 1 < cr_live c1"
      "queued c = [] \<longrightarrow> queued c1 = []"
    by (auto split: if_splits)
  from Cons.IH [OF c1(2)] obtain c2 where c2: "read_msgs w pl m ms c1 = Inr c2"
      "crawl_inv w pl i0 c2" "if ms = [] then c2 = c1 else cr_U c2 = max m (cr_U c1)"
      "cr_live c1 - int (length ms) \<le> cr_live c2" "queued c1 = [] \<longrightarrow> queued c2 = []"
    by blast
  have "read_msgs w pl m (b # ms) c = Inr c2" using c1(1) c2(1) by simp
  with c1(3-) c2(2-) show ?case by (auto split: if_splits)
qed simp

lemma cb_ends:
  assumes "pcre_ok re (length d)" and "uq_wf q" and "2 * length d + 2 \<le> fuel"
  shows "case cb mal fuel re d q of
      None \<Rightarrow> False
    | Some (Inl f) \<Rightarrow> no_node mal f
    | Some (Inr (l, q')) \<Rightarrow> l = length d
        \<and> queued_more mal q (if URLQsize q < QBACKLOG then href_links fuel re d else []) q'"
  using href_ends [OF assms, of mal] queued_none [OF assms(2), of mal]
  by (auto simp: cb_def searched_def split: option.splits sum.splits prod.splits)

lemma deliver_one:
  assumes inv: "crawl_inv w pl i0 c" and re: "pcre_ok (o_re w d) (length d)"
    and q': "cb (o_mal w) (2 * length d + 2) (o_re w d) d (cr_queue c) = Some (Inr (l, q'))"
  shows "crawl_inv w pl i0 (c\<lparr>cr_queue := q', cr_pages := cr_pages c @ [(d, URLQsize (cr_queue c))]\<rparr>)"
proof -
  let ?c = "c\<lparr>cr_queue := q', cr_pages := cr_pages c @ [(d, URLQsize (cr_queue c))]\<rparr>"
  let ?us = "if URLQsize (cr_queue c) < QBACKLOG then href_links (2 * length d + 2) (o_re w d) d else []"
  have "uq_wf (cr_queue c)" using inv by (simp add: crawl_inv_def)
  from cb_ends [OF re this order.refl, of "o_mal w"] q' have more: "queued_more (o_mal w) (cr_queue c) ?us q'"
    by simp
  have new: "links_found w ?c = links_found w c @ ?us" by (simp add: links_found_def)
  have "map rq_url (cr_sent c) @ uq_urls q' = copies (o_mal w) 0 (STARTPAGE # links_found w c @ ?us)"
  proof -
    have "map rq_url (cr_sent c) @ uq_urls q'
        = copies (o_mal w) 0 (STARTPAGE # links_found w c)
          @ copies (o_mal w) (length (STARTPAGE # links_found w c)) ?us"
      using more inv by (simp add: queued_more_def crawl_inv_def flip: append_assoc)
    also have "\<dots> = copies (o_mal w) 0 ((STARTPAGE # links_found w c) @ ?us)"
      by (simp only: copies_append add_0)
    finally show ?thesis by simp
  qed
  moreover have "uq_wf q'" "length (uq_heap q') = Suc (length (links_found w c @ ?us))"
    using more inv by (simp_all add: queued_more_def crawl_inv_def)
  ultimately show ?thesis using inv unfolding crawl_inv_def new by simp
qed

lemma deliver_keeps:
  assumes re: "\<And>d. pcre_ok (o_re w d) (length d)" and inv: "crawl_inv w pl i0 c"
  shows "case deliver w ds c of
      None \<Rightarrow> False
    | Some (Inl f) \<Rightarrow> no_node (o_mal w) f
    | Some (Inr c1) \<Rightarrow> crawl_inv w pl i0 c1 \<and> cr_live c1 = cr_live c \<and> (ds = [] \<longrightarrow> c1 = c)"
  using inv
proof (induction ds arbitrary: c)
  case (Cons d ds)
  let ?cb = "cb (o_mal w) (2 * length d + 2) (o_re w d) d (cr_queue c)"
  have "uq_wf (cr_queue c)" using Cons.prems by (simp add: crawl_inv_def)
  note ends = cb_ends [OF re this order.refl, of "o_mal w"]
  show ?case
  proof (cases ?cb)
    case None
    with ends [of d] show ?thesis by simp
  next
    case (Some r)
    show ?thesis
    proof (cases r)
      case (Inl f)
      with ends [of d] Some show ?thesis by simp
    next
      case (Inr x)
      then obtain l q' where q': "?cb = Some (Inr (l, q'))" using Some by (cases x) simp
      let ?c = "c\<lparr>cr_queue := q', cr_pages := cr_pages c @ [(d, URLQsize (cr_queue c))]\<rparr>"
      from Cons.IH [OF deliver_one [OF Cons.prems re q']] q' show ?thesis
        by (auto split: option.splits sum.splits)
    qed
  qed
qed simp

subsection \<open>The crawl as a whole\<close>

text \<open>
  What the documentation of libcurl promises: every handle that was added either still runs or
  is reported as done, once, and nothing is delivered when there is no handle.
\<close>

definition curl_counts :: "(nat \<Rightarrow> crawl \<Rightarrow> turn) \<Rightarrow> bool" where
  "curl_counts curl \<longleftrightarrow>
     (\<forall>k c. 0 \<le> cr_live c \<longrightarrow>
        0 \<le> t_running (curl k c) \<and> t_running (curl k c) + int (length (t_msgs (curl k c))) = cr_live c
        \<and> (cr_live c = 0 \<longrightarrow> t_pages (curl k c) = []))"

text \<open>The second invariant: while links are queued, a transfer is on its way.\<close>

definition busy :: "crawl \<Rightarrow> bool" where
  "busy c \<longleftrightarrow> 0 \<le> cr_live c \<and> (cr_live c = 0 \<longrightarrow> queued c = []) \<and> (cr_U c = 0 \<longrightarrow> cr_live c = 0)"

definition curl_good :: "outside \<Rightarrow> int \<Rightarrow> bool" where
  "curl_good w m \<longleftrightarrow> curl_counts (o_curl w) \<and> (\<forall>x. o_took w x) \<and> 0 < m"

lemma turn_keeps:
  assumes pl: "proxies_ok pl" and inv: "crawl_inv w pl i0 c1"
    and live: "cr_live c1 = cr_live c" "t_pages (o_curl w k c) = [] \<longrightarrow> c1 = c"
  shows "\<exists>c3. read_msgs w pl m (t_msgs (o_curl w k c)) (c1\<lparr>cr_U := t_running (o_curl w k c)\<rparr>) = Inr c3
    \<and> crawl_inv w pl i0 c3 \<and> (curl_good w m \<longrightarrow> busy c \<longrightarrow> busy c3)"
proof -
  let ?t = "o_curl w k c"
  let ?c = "c1\<lparr>cr_U := t_running ?t\<rparr>" and ?n = "int (length (t_msgs ?t))"
  have "crawl_inv w pl i0 ?c" using inv by simp
  from read_msgs_keeps [OF pl this, of m "t_msgs ?t"] obtain c3 where
    c3: "read_msgs w pl m (t_msgs ?t) ?c = Inr c3" "crawl_inv w pl i0 c3"
      "if t_msgs ?t = [] then c3 = ?c else cr_U c3 = max m (cr_U ?c)"
      "cr_live ?c - ?n \<le> cr_live c3"
      "(\<forall>x. o_took w x) \<longrightarrow> t_msgs ?t \<noteq> [] \<longrightarrow> cr_U ?c < m \<longrightarrow> queued ?c \<noteq> [] \<longrightarrow> cr_live ?c - ?n < cr_live c3"
      "queued ?c = [] \<longrightarrow> queued c3 = []"
    by blast
  have "busy c3" if good: "curl_good w m" and "busy c"
  proof -
    have "0 \<le> t_running ?t" "t_running ?t + ?n = cr_live c" "cr_live c = 0 \<longrightarrow> c1 = c"
      using that live(2) by (auto simp: curl_good_def curl_counts_def busy_def)
    then show ?thesis using that c3(3-) live(1) by (auto simp: busy_def curl_good_def split: if_splits)
  qed
  with c3(1,2) show ?thesis by blast
qed

text \<open>What a run of the crawl comes to.\<close>

definition crawled :: "outside \<Rightarrow> cstr list \<Rightarrow> u32 \<Rightarrow> bool \<Rightarrow> (c_fault + (crawl_end \<times> crawl)) option \<Rightarrow> bool" where
  "crawled w pl i0 good r \<longleftrightarrow>
     (case r of
        None \<Rightarrow> False
      | Some (Inl f) \<Rightarrow> no_node (o_mal w) f
      | Some (Inr (e, c)) \<Rightarrow> crawl_inv w pl i0 c
          \<and> (good \<longrightarrow> e = Finished \<longrightarrow> cr_live c = 0 \<and> queued c = []))"

lemma crawl_loop_keeps:
  assumes re: "\<And>d. pcre_ok (o_re w d) (length d)" and pl: "proxies_ok pl" and "crawl_inv w pl i0 c"
  shows "crawled w pl i0 (curl_good w m \<and> busy c) (crawl_loop n k w pl m c)"
  using assms(3)
proof (induction n arbitrary: k c)
  case 0
  then show ?case by (subst crawl_loop.simps) (auto simp: crawled_def busy_def)
next
  case (Suc n)
  show ?case
  proof (cases "cr_U c = 0")
    case True
    then show ?thesis using Suc.prems by (subst crawl_loop.simps) (auto simp: crawled_def busy_def)
  next
    case False
    let ?t = "o_curl w k c" and ?run = "crawl_loop (Suc n) k w pl m c"
    note ends = deliver_keeps [OF re Suc.prems, of "t_pages ?t"]
    consider f where "deliver w (t_pages ?t) c = Some (Inl f)"
      | c1 where "deliver w (t_pages ?t) c = Some (Inr c1)"
      using ends by (auto split: option.splits sum.splits)
    then show ?thesis
    proof cases
      case (1 f)
      then have "?run = Some (Inl f)" using False by (subst crawl_loop.simps) (simp add: Let_def)
      with 1 ends show ?thesis by (simp add: crawled_def)
    next
      case (2 c1)
      then have c1: "crawl_inv w pl i0 c1" "cr_live c1 = cr_live c" "t_pages ?t = [] \<longrightarrow> c1 = c"
        using ends by simp_all
      obtain c3 where c3: "read_msgs w pl m (t_msgs ?t) (c1\<lparr>cr_U := t_running ?t\<rparr>) = Inr c3"
          "crawl_inv w pl i0 c3" "curl_good w m \<longrightarrow> busy c \<longrightarrow> busy c3"
        using turn_keeps [OF pl c1] by blast
      show ?thesis
      proof (cases "t_running ?t \<noteq> 0 \<and> \<not> wait_ok ?t")
        case True
        then have "?run = Some (Inr (Gave_Up, c1\<lparr>cr_U := t_running ?t\<rparr>))"
          using False 2 by (subst crawl_loop.simps) (simp add: Let_def)
        with c1(1) show ?thesis by (simp add: crawled_def)
      next
        case go: False
        then have "?run = crawl_loop n (Suc k) w pl m c3"
          using False 2 c3(1) by (subst crawl_loop.simps) (auto simp: Let_def)
        with Suc.IH [OF c3(2), of "Suc k"] c3(3) show ?thesis
          by (auto simp: crawled_def split: option.splits sum.splits)
      qed
    qed
  qed
qed

lemma crawl_no_queue:
  assumes "\<not> (o_init w \<and> fst (o_mal w 0))"
  shows "curl_multi_fire n w pl i0 m = Some (Inl Null_Deref)"
proof -
  obtain q0 where q0: "URLQinit True = Inr q0" "uq_wf q0" "uq_heap q0 = []" using uq_init by blast
  show ?thesis
  proof (cases "o_init w")
    case True
    with assms have "URLQput (o_mal w (length (uq_heap q0))) q0 STARTPAGE (length STARTPAGE) = Inl Null_Deref"
      using put_uq_null [OF q0(2)] q0(3) by simp
    with True q0(1) show ?thesis by (simp add: curl_multi_fire_def)
  next
    case False
    then have "URLQinit (o_init w) = Inl Null_Deref" by (simp add: URLQinit_def)
    then show ?thesis by (simp add: curl_multi_fire_def)
  qed
qed

lemma crawl_starts:
  assumes pl: "proxies_ok pl" and mem: "o_init w" "fst (o_mal w 0)"
  obtains c where "\<And>n m. curl_multi_fire n w pl i0 m = crawl_loop n 0 w pl m c"
    and "crawl_inv w pl i0 c" and "(\<forall>x. o_took w x) \<longrightarrow> busy c"
proof -
  obtain q0 where q0: "URLQinit True = Inr q0" "uq_wf q0" "uq_urls q0 = []" "uq_heap q0 = []"
    using uq_init by blast
  have sp: "c_str (take (length STARTPAGE) STARTPAGE) = STARTPAGE" by (simp add: STARTPAGE_def c_str_def)
  let ?s = "if snd (o_mal w 0) then Some STARTPAGE else None"
  obtain q where q: "URLQput (o_mal w 0) q0 STARTPAGE (length STARTPAGE) = Inr q" "uq_wf q" "uq_urls q = [?s]"
      "length (uq_heap q) = 1"
    using put_uq [OF q0(2), of "o_mal w 0" STARTPAGE "length STARTPAGE"] q0(3,4) mem sp by (auto simp: strndup_def)
  let ?c0 = "\<lparr>cr_queue = q, cr_i = i0, cr_sent = [], cr_pages = [], cr_live = 0, cr_U = -1\<rparr>"
  have "crawl_inv w pl i0 ?c0"
    using q(2-) by (simp add: crawl_inv_def links_found_def)
  from crawl_init_keeps [OF pl this] obtain c where c: "crawl_init w pl ?c0 = Inr c" "crawl_inv w pl i0 c"
      "cr_U c = -1" "0 \<le> cr_live c" "o_took w ?c0 \<longrightarrow> 0 < cr_live c"
    using q(3) by auto
  have "curl_multi_fire n w pl i0 m = crawl_loop n 0 w pl m c" for n m
    using mem q0(1,4) q(1) c(1) by (simp add: curl_multi_fire_def)
  moreover have "(\<forall>x. o_took w x) \<longrightarrow> busy c" using c(3-) by (auto simp: busy_def)
  ultimately show thesis using c(2) that by blast
qed

lemma crawl_ends:
  assumes "proxies_ok pl" and "\<And>d. pcre_ok (o_re w d) (length d)" and "o_init w" and "fst (o_mal w 0)"
  shows "crawled w pl i0 (curl_good w m) (curl_multi_fire n w pl i0 m)"
proof -
  obtain c where c: "\<And>n m. curl_multi_fire n w pl i0 m = crawl_loop n 0 w pl m c" "crawl_inv w pl i0 c"
      "(\<forall>x. o_took w x) \<longrightarrow> busy c"
    by (rule crawl_starts [OF assms(1,3,4)]) blast
  have "curl_good w m \<longrightarrow> curl_good w m \<and> busy c" using c(3) by (simp add: curl_good_def)
  with crawl_loop_keeps [OF assms(2,1) c(2), of m n 0] show ?thesis
    unfolding c(1) by (auto simp: crawled_def split: option.splits sum.splits)
qed

text \<open>An example: the start page has two links, and every transfer is done within a turn.\<close>

definition ex_page :: "byte list" where
  "ex_page = [60, 97, 104, 62]"

definition ex_re :: "byte list \<Rightarrow> pcre" where
  "ex_re d = (if d = ex_page then ex_pcre else ex_pcre\<lparr>compile_ok := False, pmatch := (\<lambda>_ _. P_NoMatch)\<rparr>)"

definition ex_curl :: "nat \<Rightarrow> crawl \<Rightarrow> turn" where
  "ex_curl k c = \<lparr>t_running = 0, t_pages = (if k = 0 \<and> 0 < cr_live c then [ex_page] else []),
     t_fdset_ok = True, t_timeout_ok = True, t_maxfd = -1, t_select = 0,
     t_msgs = replicate (nat (cr_live c)) True\<rparr>"

definition ex_outside :: outside where
  "ex_outside = \<lparr>o_curl = ex_curl, o_took = (\<lambda>_. True), o_re = ex_re, o_seen = cr_i, o_init = True,
     o_mal = (\<lambda>_. (True, True)), o_usr = [117, 58]\<rparr>"

definition ex_run :: "(c_fault + (crawl_end \<times> crawl)) option" where
  "ex_run = curl_multi_fire 4 ex_outside [[49], [50]] 0 2"

lemma ex_re_ok: "pcre_ok (o_re ex_outside d) (length d)"
  by (auto simp: ex_outside_def pcre_ok_def ex_re_def ex_pcre_def ex_page_def split: if_splits)

lemma ex_proxies_ok: "proxies_ok [[49], [50]]"
  by (simp add: proxies_ok_def)

lemma ex_counts: "curl_counts (o_curl ex_outside)"
  by (auto simp: curl_counts_def ex_curl_def ex_outside_def)

lemma ex_run_ends:
  "case ex_run of Some (Inr (Finished, c)) \<Rightarrow> map rq_url (cr_sent c) = [Some STARTPAGE, Some [], Some [104]]
     \<and> map rq_login (cr_sent c) = [[117, 58, 49, 45, 49, 48, 56, 48], [117, 58, 50, 45, 49, 48, 56, 48],
         [117, 58, 49, 45, 49, 48, 56, 48]] | _ \<Rightarrow> False"
  by code_simp

lemma crawl_no_proxies:
  assumes "o_init w" and "fst (o_mal w 0)"
  shows "curl_multi_fire n w [] i0 m = Some (Inl Div_By_Zero)"
proof -
  obtain q0 where q0: "URLQinit True = Inr q0" "uq_wf q0" "uq_urls q0 = []" "uq_heap q0 = []"
    using uq_init by blast
  obtain q where q: "URLQput (o_mal w 0) q0 STARTPAGE (length STARTPAGE) = Inr q" "uq_wf q" "uq_urls q \<noteq> []"
    using put_uq [OF q0(2) assms(2), of STARTPAGE "length STARTPAGE"] q0(3) by auto
  then have "\<not> URLQempty q" "\<exists>u q1. URLQget q = Inr (u, q1)"
    using get_uq [OF q(2)] by (auto split: list.splits)
  then show ?thesis
    using assms(1) q0(1,4) q(1) by (auto simp: curl_multi_fire_def crawl_init_def init_request_def)
qed

text \<open>C37: The load generator loses and invents nothing, in any of its threads, whatever libcurl
  reports, whatever it takes, however many turns it takes, and whatever the other threads do to
  the counter that they share.  With an empty proxy file a thread divides by zero at its first
  request.  With any other that \<open>main\<close> could read, and if the library's matches are as documented,
  the only fault is the write through a NULL pointer when a malloc of the queue fails; without
  that the URLs requested, followed by those still queued, are exactly the start page and then,
  in order, all links of the pieces of pages that came in while fewer than 1024 links were
  queued, with a NULL for each that could not be copied; each request's login names a proxy of
  the list; and a thread that is alone takes the proxies in turn.\<close>

theorem crawl_requests:
  assumes "socksload_main al argv file = Load_Threads pl m k" and "\<And>d. pcre_ok (o_re w d) (length d)"
  shows "case curl_multi_fire n w pl i0 m of
      None \<Rightarrow> False
    | Some (Inl f) \<Rightarrow> f = Null_Deref \<and> \<not> (o_init w \<and> (\<forall>k. fst (o_mal w k)))
        \<or> f = Div_By_Zero \<and> pl = []
    | Some (Inr (e, c)) \<Rightarrow> pl \<noteq> []
        \<and> map rq_url (cr_sent c) @ uq_urls (cr_queue c)
            = copies (o_mal w) 0 (STARTPAGE # concat (map (\<lambda>(d, n).
                if n < 1024 then href_links (2 * length d + 2) (o_re w d) d else []) (cr_pages c)))
        \<and> (\<forall>r \<in> set (cr_sent c). \<exists>j. rq_login r = turn_login (o_usr w) pl j)
        \<and> (o_seen w = cr_i \<longrightarrow> map rq_login (cr_sent c)
             = map (\<lambda>k. turn_login (o_usr w) pl (i0 + of_nat k)) [0..<length (cr_sent c)])"
proof -
  let ?r = "curl_multi_fire n w pl i0 m"
  consider "\<not> (o_init w \<and> fst (o_mal w 0))" | "o_init w" "fst (o_mal w 0)" "pl = []"
    | "o_init w" "fst (o_mal w 0)" "pl \<noteq> []" by blast
  then show ?thesis
  proof cases
    case 1
    with crawl_no_queue [OF 1, of n pl i0 m] show ?thesis by auto
  next
    case 2
    with crawl_no_proxies [OF 2(1,2)] show ?thesis by simp
  next
    case 3
    have "crawled w pl i0 (curl_good w m) ?r"
      by (rule crawl_ends [OF main_proxies [OF assms(1) 3(3)] assms(2) 3(1,2)])
    with 3(3) show ?thesis
      unfolding crawled_def no_node_def crawl_inv_def links_found_def QBACKLOG_def
      by (auto split: option.splits sum.splits)
  qed
qed

lemma ex_main:
  "socksload_main True [[97], [50], [112]] (Some [49, 10, 50, 10]) = Load_Threads [[49], [50]] 2 1"
  by code_simp

lemma crawl_requests_witness:
  "\<exists>e c. curl_multi_fire 4 ex_outside [[49], [50]] 0 2 = Some (Inr (e, c))
      \<and> map rq_url (cr_sent c) @ uq_urls (cr_queue c)
            = copies (o_mal ex_outside) 0 (STARTPAGE # concat (map (\<lambda>(d, n).
                if n < 1024 then href_links (2 * length d + 2) (o_re ex_outside d) d else []) (cr_pages c)))
      \<and> map rq_login (cr_sent c)
          = map (\<lambda>k. turn_login [117, 58] [[49], [50]] (0 + of_nat k)) [0..<length (cr_sent c)]"
proof -
  have a: "o_seen ex_outside = cr_i" "o_init ex_outside" "fst (o_mal ex_outside k)" "o_usr ex_outside = [117, 58]" for k
    by (simp_all add: ex_outside_def)
  from crawl_requests [OF ex_main ex_re_ok, where n = 4 and ?i0.0 = 0] a show ?thesis
    by (auto split: option.splits sum.splits)
qed

text \<open>C38: The crawl does not stop early: if libcurl takes every request and accounts for its
  transfers, and connections are allowed at all, the loop ends of itself only when no transfer is
  left and the queue is empty, so that the start page and every link of the pieces of pages that
  were searched have been requested, once each and in order, and nothing else.\<close>

theorem crawl_drains:
  assumes "\<And>d. pcre_ok (o_re w d) (length d)" and "proxies_ok pl" and "curl_counts (o_curl w)"
    and "\<And>x. o_took w x" and "0 < m" and "curl_multi_fire n w pl i0 m = Some (Inr (Finished, c))"
  shows "cr_live c = 0 \<and> uq_urls (cr_queue c) = []
    \<and> map rq_url (cr_sent c)
        = copies (o_mal w) 0 (STARTPAGE # concat (map (\<lambda>(d, n).
            if n < 1024 then href_links (2 * length d + 2) (o_re w d) d else []) (cr_pages c)))
    \<and> (\<forall>r \<in> set (cr_sent c). rq_taken r)"
proof -
  have mem: "o_init w \<and> fst (o_mal w 0)"
    using assms(6) crawl_no_queue by fastforce
  have "curl_good w m" using assms(3-5) by (simp add: curl_good_def)
  with crawl_ends [OF assms(2,1), of i0 m n] mem assms(4,6) show ?thesis
    unfolding crawled_def crawl_inv_def links_found_def QBACKLOG_def by auto
qed

lemma crawl_drains_witness:
  "\<exists>c. ex_run = Some (Inr (Finished, c)) \<and> cr_live c = 0 \<and> uq_urls (cr_queue c) = []
    \<and> map rq_url (cr_sent c)
        = copies (o_mal ex_outside) 0 (STARTPAGE # concat (map (\<lambda>(d, n).
            if n < 1024 then href_links (2 * length d + 2) (o_re ex_outside d) d else []) (cr_pages c)))"
proof -
  obtain c where c: "ex_run = Some (Inr (Finished, c))"
    using ex_run_ends by (auto split: option.splits sum.splits prod.splits crawl_end.splits)
  have t: "o_took ex_outside x" for x by (simp add: ex_outside_def)
  have "0 < (2 :: int)" by simp
  note crawl_drains [OF ex_re_ok ex_proxies_ok ex_counts t this c [unfolded ex_run_def]]
  with c show ?thesis by (intro exI [of _ c] conjI) simp_all
qed

end
