(* ===== verification/Silk_Jobqueue.thy ===== *)
theory Silk_Jobqueue
  imports Silk_Heap
begin

section \<open>The job queue of the thread pool (thpool.c)\<close>

text \<open>
  A list of heap nodes from \<open>front\<close> to \<open>rear\<close>, each pointing with \<open>prev\<close> to the job after it,
  a length, and the value of the binary semaphore \<open>has_jobs\<close>.  Each function here holds
  \<open>rwmutex\<close> while it runs; the mutex of the semaphore is nested in it.  A job is a function
  and its argument; only pointers to them are stored.
\<close>

type_synonym work = "nat \<times> int"

record job =
  j_prev :: "nat option"
  j_work :: work

record jobqueue =
  jq_heap :: "job heap"
  jq_front :: "nat option"
  jq_rear :: "nat option"
  jq_has_jobs :: int
  jq_len :: int

text \<open>\<open>bsem_init\<close> exits the program for a value that is not 0 or 1: None.\<close>

definition bsem_init :: "int \<Rightarrow> int option" where
  "bsem_init value = (if value < 0 \<or> value > 1 then None else Some value)"

definition bsem_post :: "jobqueue \<Rightarrow> jobqueue" where
  "bsem_post q = q\<lparr>jq_has_jobs := 1\<rparr>"

text \<open>None is the return value -1, for a semaphore that cannot be allocated.\<close>

definition jobqueue_init :: "bool \<Rightarrow> jobqueue option" where
  "jobqueue_init m =
     (if \<not> m then None
      else map_option (\<lambda>v. \<lparr>jq_heap = [], jq_front = None, jq_rear = None, jq_has_jobs = v, jq_len = 0\<rparr>)
             (bsem_init 0))"

definition jobqueue_push :: "jobqueue \<Rightarrow> nat \<Rightarrow> c_fault + jobqueue" where
  "jobqueue_push q newjob =
     (case h_read (jq_heap q) (Some newjob) of
        Inl f \<Rightarrow> Inl f
      | Inr j \<Rightarrow>
          (let q1 = q\<lparr>jq_heap := h_write (jq_heap q) newjob (j\<lparr>j_prev := None\<rparr>)\<rparr>
           in if jq_len q1 = 0 then
                Inr (bsem_post (q1\<lparr>jq_front := Some newjob, jq_rear := Some newjob, jq_len := jq_len q1 + 1\<rparr>))
              else
                (case h_read (jq_heap q1) (jq_rear q1) of
                   Inl f \<Rightarrow> Inl f
                 | Inr r \<Rightarrow>
                     Inr (bsem_post (q1\<lparr>jq_heap := h_write (jq_heap q1) (the (jq_rear q1)) (r\<lparr>j_prev := Some newjob\<rparr>),
                                       jq_rear := Some newjob, jq_len := jq_len q1 + 1\<rparr>)))))"

definition jobqueue_pull :: "jobqueue \<Rightarrow> c_fault + (nat option \<times> jobqueue)" where
  "jobqueue_pull q =
     (let job_p = jq_front q
      in if jq_len q = 0 then Inr (job_p, q)
         else if jq_len q = 1 then Inr (job_p, q\<lparr>jq_front := None, jq_rear := None, jq_len := 0\<rparr>)
         else
           (case h_read (jq_heap q) job_p of
              Inl f \<Rightarrow> Inl f
            | Inr j \<Rightarrow> Inr (job_p, bsem_post (q\<lparr>jq_front := j_prev j, jq_len := jq_len q - 1\<rparr>))))"

text \<open>\<open>thpool_add_work\<close>: None is the return value -1, when malloc fails.\<close>

definition thpool_add_work :: "bool \<Rightarrow> jobqueue \<Rightarrow> work \<Rightarrow> c_fault + jobqueue option" where
  "thpool_add_work m q w =
     (if \<not> m then Inr None
      else case h_new (jq_heap q) \<lparr>j_prev = None, j_work = w\<rparr> of
             (h, a) \<Rightarrow> map_sum id Some (jobqueue_push (q\<lparr>jq_heap := h\<rparr>) a))"

text \<open>
  The loop of \<open>jobqueue_clear\<close>; as many turns as \<open>len\<close> says are enough.
\<close>

fun clear_loop :: "nat \<Rightarrow> jobqueue \<Rightarrow> c_fault + jobqueue" where
  "clear_loop n q =
     (if jq_len q = 0 then Inr q
      else case n of
             0 \<Rightarrow> Inl Hangs
           | Suc n' \<Rightarrow>
               (case jobqueue_pull q of
                  Inl f \<Rightarrow> Inl f
                | Inr (None, q1) \<Rightarrow> clear_loop n' q1
                | Inr (Some a, q1) \<Rightarrow> clear_loop n' (q1\<lparr>jq_heap := h_free (jq_heap q1) a\<rparr>)))"

declare clear_loop.simps [simp del]

definition jobqueue_clear :: "jobqueue \<Rightarrow> c_fault + jobqueue" where
  "jobqueue_clear q =
     (case clear_loop (nat (jq_len q)) q of
        Inl f \<Rightarrow> Inl f
      | Inr q1 \<Rightarrow> Inr (q1\<lparr>jq_front := None, jq_rear := None, jq_has_jobs := 0, jq_len := 0\<rparr>))"

subsection \<open>The queue as a list of jobs\<close>

definition jq_rep :: "jobqueue \<Rightarrow> nat list \<Rightarrow> bool" where
  "jq_rep q as \<longleftrightarrow> linked j_prev (jq_heap q) (jq_front q) as \<and> jq_len q = int (length as)
     \<and> (as \<noteq> [] \<longrightarrow> jq_rear q = Some (last as))"

lemma jq_rep_unique: "jq_rep q as \<Longrightarrow> jq_rep q bs \<Longrightarrow> as = bs"
  by (auto simp: jq_rep_def intro: linked_unique)

lemma push_rep:
  assumes r: "jq_rep q as"
  shows "\<exists>q'. thpool_add_work True q w = Inr (Some q') \<and> jq_has_jobs q' = 1
    \<and> jq_rep q' (as @ [length (jq_heap q)])
    \<and> contents j_work (jq_heap q') (as @ [length (jq_heap q)]) = contents j_work (jq_heap q) as @ [w]
    \<and> length (jq_heap q') = Suc (length (jq_heap q))
    \<and> (\<forall>a. a \<notin> set as \<and> a < length (jq_heap q) \<longrightarrow> jq_heap q' ! a = jq_heap q ! a)"
proof -
  let ?n = "\<lparr>j_prev = None, j_work = w\<rparr>" and ?h = "jq_heap q" and ?l = "length (jq_heap q)"
  have rd: "h_read (?h @ [Some ?n]) (Some ?l) = Inr ?n" by (simp add: h_read_def)
  have wr: "h_write (?h @ [Some ?n]) ?l ?n = ?h @ [Some ?n]" by (simp add: h_write_def)
  show ?thesis
  proof (cases as rule: rev_cases)
    case Nil
    let ?q = "q\<lparr>jq_heap := ?h @ [Some ?n], jq_front := Some ?l, jq_rear := Some ?l, jq_has_jobs := 1, jq_len := 1\<rparr>"
    have "thpool_add_work True q w = Inr (Some ?q)"
      using r Nil rd wr
      by (simp add: thpool_add_work_def h_new_def jobqueue_push_def jq_rep_def bsem_post_def Let_def)
    moreover have "jq_rep ?q [?l]"
      using Nil by (simp add: jq_rep_def linked_single)
    ultimately show ?thesis using Nil by (auto simp: nth_append)
  next
    case (snoc bs t)
    let ?t = "the (?h ! t)"
    let ?h' = "h_write (?h @ [Some ?n]) t (?t\<lparr>j_prev := Some ?l\<rparr>)"
    let ?q = "q\<lparr>jq_heap := ?h', jq_rear := Some ?l, jq_has_jobs := 1, jq_len := jq_len q + 1\<rparr>"
    have l: "linked j_prev ?h (jq_front q) (bs @ [t])" and t: "jq_rear q = Some t" "jq_len q \<noteq> 0"
      using r snoc by (auto simp: jq_rep_def)
    have lt: "live ?h t" using l by (auto simp: linked_def)
    then have "h_read (?h @ [Some ?n]) (Some t) = Inr ?t"
      by (auto simp: h_read_def live_def nth_append)
    then have "thpool_add_work True q w = Inr (Some ?q)"
      using t rd wr by (simp add: thpool_add_work_def h_new_def jobqueue_push_def bsem_post_def Let_def)
    moreover have "linked j_prev ?h' (jq_front q) ((bs @ [t]) @ [?l])"
      "contents j_work ?h' ((bs @ [t]) @ [?l]) = contents j_work ?h (bs @ [t]) @ [w]"
      using linked_snoc [OF l, of ?n "?t\<lparr>j_prev := Some ?l\<rparr>" j_work] by simp_all
    moreover from this(1) have "jq_rep ?q (as @ [?l])"
      using r snoc by (auto simp: jq_rep_def)
    ultimately show ?thesis using snoc lt by (auto simp: h_write_def nth_append live_def)
  qed
qed

lemma pull_rep:
  assumes r: "jq_rep q as"
  shows "\<exists>q'. jobqueue_pull q = Inr (case as of [] \<Rightarrow> None | a # _ \<Rightarrow> Some a, q') \<and> jq_rep q' (tl as)
    \<and> jq_heap q' = jq_heap q \<and> jq_has_jobs q' = (if 1 < length as then 1 else jq_has_jobs q)"
proof (cases as)
  case Nil
  then show ?thesis using r by (simp add: jq_rep_def jobqueue_pull_def)
next
  case (Cons a bs)
  have l: "linked j_prev (jq_heap q) (jq_front q) (a # bs)" and len: "jq_len q = 1 + int (length bs)"
    using r Cons by (auto simp: jq_rep_def)
  have f: "jq_front q = Some a" "live (jq_heap q) a"
    and l': "linked j_prev (jq_heap q) (j_prev (the (jq_heap q ! a))) bs"
    using l by (auto simp: linked_def)
  show ?thesis
  proof (cases "bs = []")
    case True
    then show ?thesis using f len Cons by (simp add: jobqueue_pull_def jq_rep_def)
  next
    case False
    then have "jobqueue_pull q = Inr (Some a, bsem_post (q\<lparr>jq_front := j_prev (the (jq_heap q ! a)), jq_len := jq_len q - 1\<rparr>))"
      using f len by (simp add: jobqueue_pull_def h_read_live Let_def)
    then show ?thesis using l' r False Cons len by (auto simp: jq_rep_def bsem_post_def)
  qed
qed

lemma free_rep:
  "jq_rep q as \<Longrightarrow> a \<notin> set as \<Longrightarrow> jq_rep (q\<lparr>jq_heap := h_free (jq_heap q) a\<rparr>) as"
  by (simp add: jq_rep_def linked_free_other)

lemma clear_rep:
  "jq_rep q as \<Longrightarrow> \<exists>q'. clear_loop (length as) q = Inr q' \<and> jq_rep q' []"
proof (induction as arbitrary: q)
  case Nil
  then show ?case by (subst clear_loop.simps) (auto simp: jq_rep_def)
next
  case (Cons a as)
  obtain q1 where q1: "jobqueue_pull q = Inr (Some a, q1)" "jq_rep q1 as"
    using pull_rep [OF Cons.prems] by auto
  have "a \<notin> set as" using Cons.prems by (auto simp: jq_rep_def linked_def)
  with Cons.IH [OF free_rep [OF q1(2)]] q1(1) Cons.prems show ?case
    by (subst clear_loop.simps) (auto simp: jq_rep_def)
qed

subsection \<open>The queue keeps the contract\<close>

definition jq_wf :: "jobqueue \<Rightarrow> bool" where
  "jq_wf q \<longleftrightarrow> (\<exists>as. jq_rep q as)"

definition jq_jobs :: "jobqueue \<Rightarrow> nat list" where
  "jq_jobs q = follow (\<lambda>a. j_prev (the (jq_heap q ! a))) (length (jq_heap q)) (jq_front q)"

definition jq_works :: "jobqueue \<Rightarrow> work list" where
  "jq_works q = contents j_work (jq_heap q) (jq_jobs q)"

lemma jq_jobs_rep: "jq_rep q as \<Longrightarrow> jq_jobs q = as"
  unfolding jq_jobs_def jq_rep_def by (elim conjE) (simp only: linked_follow)

lemma jq_wf_rep: "jq_wf q \<Longrightarrow> jq_rep q (jq_jobs q)"
  using jq_jobs_rep unfolding jq_wf_def by blast

text \<open>What a worker does to get a job: pull it, read it, free it.\<close>

definition take_job :: "jobqueue \<Rightarrow> c_fault + (work option \<times> jobqueue)" where
  "take_job q =
     (case jobqueue_pull q of
        Inl f \<Rightarrow> Inl f
      | Inr (None, q1) \<Rightarrow> Inr (None, q1)
      | Inr (Some a, q1) \<Rightarrow>
          (case h_read (jq_heap q1) (Some a) of
             Inl f \<Rightarrow> Inl f
           | Inr j \<Rightarrow> Inr (Some (j_work j), q1\<lparr>jq_heap := h_free (jq_heap q1) a\<rparr>)))"

definition add_job :: "jobqueue \<Rightarrow> work \<Rightarrow> c_fault + jobqueue" where
  "add_job q w = map_sum id (\<lambda>r. case r of None \<Rightarrow> q | Some q' \<Rightarrow> q') (thpool_add_work True q w)"

interpretation jq: fifo add_job id take_job jq_works jq_wf
proof (unfold_locales, goal_cases)
  case (1 q x)
  from push_rep [OF jq_wf_rep [OF 1], of x] show ?case
    by (auto simp: add_job_def jq_works_def jq_wf_def jq_jobs_rep)
next
  case (2 q)
  note r = jq_wf_rep [OF 2]
  show ?case
  proof (cases "jq_jobs q")
    case Nil
    with pull_rep [OF r] show ?thesis by (auto simp: take_job_def jq_works_def jq_wf_def jq_jobs_rep)
  next
    case (Cons a as)
    obtain q1 where q1: "jobqueue_pull q = Inr (Some a, q1)" "jq_rep q1 as" "jq_heap q1 = jq_heap q"
      using pull_rep [OF r] Cons by auto
    have a: "a \<notin> set as" "live (jq_heap q) a" using r Cons by (auto simp: jq_rep_def linked_def)
    let ?q = "q1\<lparr>jq_heap := h_free (jq_heap q1) a\<rparr>"
    have r': "jq_rep ?q as" by (rule free_rep [OF q1(2) a(1)])
    moreover have "contents j_work (jq_heap ?q) as = contents j_work (jq_heap q) as"
      using q1(3) a(1) by (simp add: contents_free)
    moreover have "take_job q = Inr (Some (j_work (the (jq_heap q ! a))), ?q)"
      using q1 a by (simp add: take_job_def h_read_live)
    ultimately show ?thesis
      using Cons jq_jobs_rep [OF r'] by (auto simp: jq_wf_def jq_works_def)
  qed
qed

subsection \<open>The operations on a well-formed queue\<close>

lemma jq_len_jobs: "jq_wf q \<Longrightarrow> jq_len q = int (length (jq_jobs q))"
  using jq_wf_rep [of q] by (simp add: jq_rep_def)

lemma add_facts:
  assumes "jq_wf q" and "thpool_add_work True q w = Inr (Some q')"
  shows "jq_wf q'" and "jq_has_jobs q' = 1" and "jq_jobs q' = jq_jobs q @ [length (jq_heap q)]"
    and "jq_works q' = jq_works q @ [w]" and "length (jq_heap q') = Suc (length (jq_heap q))"
    and "\<And>a. a \<notin> set (jq_jobs q) \<Longrightarrow> a < length (jq_heap q) \<Longrightarrow> jq_heap q' ! a = jq_heap q ! a"
  using push_rep [OF jq_wf_rep [OF assms(1)], of w] assms(2)
  by (auto simp: jq_wf_def jq_works_def jq_jobs_rep)

lemma pull_facts:
  assumes "jq_wf q" and "jobqueue_pull q = Inr (r, q')"
  shows "jq_wf q'" and "jq_heap q' = jq_heap q"
    and "jq_jobs q = (case r of None \<Rightarrow> [] | Some a \<Rightarrow> a # jq_jobs q')"
    and "r = None \<Longrightarrow> jq_jobs q' = []"
    and "jq_has_jobs q' = (if 1 < length (jq_jobs q) then 1 else jq_has_jobs q)"
proof -
  note r = jq_wf_rep [OF assms(1)]
  from pull_rep [OF r] assms(2) have q': "r = (case jq_jobs q of [] \<Rightarrow> None | a # _ \<Rightarrow> Some a)"
      "jq_rep q' (tl (jq_jobs q))" "jq_heap q' = jq_heap q"
      "jq_has_jobs q' = (if 1 < length (jq_jobs q) then 1 else jq_has_jobs q)" by auto
  from q'(2) show "jq_wf q'" by (auto simp: jq_wf_def)
  from jq_jobs_rep [OF q'(2)] q'(1)
  show "jq_jobs q = (case r of None \<Rightarrow> [] | Some a \<Rightarrow> a # jq_jobs q')" and "r = None \<Longrightarrow> jq_jobs q' = []"
    by (auto split: list.splits)
  show "jq_heap q' = jq_heap q" "jq_has_jobs q' = (if 1 < length (jq_jobs q) then 1 else jq_has_jobs q)"
    using q'(3,4) by simp_all
qed

lemma free_facts:
  assumes "jq_wf q" and "a \<notin> set (jq_jobs q)"
  shows "jq_wf (q\<lparr>jq_heap := h_free (jq_heap q) a\<rparr>)"
    and "jq_jobs (q\<lparr>jq_heap := h_free (jq_heap q) a\<rparr>) = jq_jobs q"
    and "jq_works (q\<lparr>jq_heap := h_free (jq_heap q) a\<rparr>) = jq_works q"
proof -
  note r = free_rep [OF jq_wf_rep [OF assms(1)] assms(2)]
  show "jq_wf (q\<lparr>jq_heap := h_free (jq_heap q) a\<rparr>)" using r by (auto simp: jq_wf_def)
  show "jq_jobs (q\<lparr>jq_heap := h_free (jq_heap q) a\<rparr>) = jq_jobs q" by (rule jq_jobs_rep [OF r])
  then show "jq_works (q\<lparr>jq_heap := h_free (jq_heap q) a\<rparr>) = jq_works q"
    using assms(2) by (simp add: jq_works_def contents_free)
qed

lemma sem_facts [simp]:
  "jq_wf (q\<lparr>jq_has_jobs := v\<rparr>) = jq_wf q" "jq_jobs (q\<lparr>jq_has_jobs := v\<rparr>) = jq_jobs q"
  "jq_works (q\<lparr>jq_has_jobs := v\<rparr>) = jq_works q"
  by (simp_all add: jq_wf_def jq_rep_def jq_jobs_def jq_works_def)

lemma clear_facts:
  assumes "jq_wf q"
  shows "\<exists>q'. jobqueue_clear q = Inr q' \<and> jq_wf q' \<and> jq_jobs q' = []"
proof -
  obtain q1 where q1: "clear_loop (nat (jq_len q)) q = Inr q1"
    using clear_rep [OF jq_wf_rep [OF assms]] jq_len_jobs [OF assms] by auto
  let ?q = "q1\<lparr>jq_front := None, jq_rear := None, jq_has_jobs := 0, jq_len := 0\<rparr>"
  have "jq_rep ?q []" by (simp add: jq_rep_def)
  with q1 show ?thesis using jq_jobs_rep [of ?q "[]"] by (auto simp: jobqueue_clear_def jq_wf_def)
qed

end
