(* ===== verification/Silk_Thpool.thy ===== *)
theory Silk_Thpool
  imports Silk_Jobqueue "HOL-Library.Multiset"
begin

section \<open>The thread pool (thpool.c)\<close>

text \<open>
  The worker threads and the thread that owns the pool, as a step relation.  A step is what a
  thread does between two points where others can run: one critical section, one read of a
  shared variable, or the job itself.  The last critical section of a thread is two steps, for
  \<open>thpool_destroy\<close> reads \<open>num_threads_alive\<close> without the lock: the count goes down, and then the
  mutex, which lies inside of the pool, is unlocked.  The program counters name the places in \<open>thread_do\<close>.
  A thread in \<open>pthread_cond_wait\<close> sleeps until it is woken and then tests again; it may also
  wake up without a reason, as POSIX allows.  Three fields that the code does not have record
  the jobs pushed, pulled and finished.  The signal that pauses threads
  comes in \<open>Silk_Pause\<close>.
\<close>

datatype tpc =
    T_Start           \<comment> \<open>before \<open>num_threads_alive += 1\<close>\<close>
  | T_Loop            \<comment> \<open>at the test of \<open>threads_keepalive\<close>\<close>
  | T_Wait            \<comment> \<open>about to take the semaphore\<close>
  | T_Sleep           \<comment> \<open>in \<open>pthread_cond_wait\<close> of \<open>bsem_wait\<close>\<close>
  | T_Awake           \<comment> \<open>woken, about to test the semaphore again\<close>
  | T_Got             \<comment> \<open>\<open>bsem_wait\<close> has returned\<close>
  | T_Count           \<comment> \<open>before \<open>num_threads_working++\<close>\<close>
  | T_Pull            \<comment> \<open>before \<open>jobqueue_pull\<close>\<close>
  | T_Run nat work    \<comment> \<open>running the job, whose node is still allocated\<close>
  | T_Done            \<comment> \<open>before \<open>num_threads_working--\<close>\<close>
  | T_Exit            \<comment> \<open>before \<open>num_threads_alive--\<close>\<close>
  | T_Unlock          \<comment> \<open>after it, with \<open>thcount_lock\<close> still held\<close>
  | T_Dead

datatype mpc =
    M_Init            \<comment> \<open>in the loop of \<open>thpool_init\<close> that waits for the threads\<close>
  | M_Idle            \<comment> \<open>outside of the pool's functions\<close>
  | M_Sleep           \<comment> \<open>in \<open>pthread_cond_wait\<close> of \<open>thpool_wait\<close>\<close>
  | M_Awake
  | M_Destroy         \<comment> \<open>in the loops of \<open>thpool_destroy\<close>\<close>
  | M_Destroyed

record thpool =
  tp_jobs :: jobqueue
  num_alive :: int
  num_working :: int
  keepalive :: bool
  pcs :: "tpc list"
  owner :: mpc
  pushed :: "work list"
  pulled :: "work list"
  finished :: "work list"

text \<open>
  \<open>thpool_init\<close> up to its waiting loop; the flags say which of the three calls of malloc
  succeed, None is the return value NULL.
\<close>

definition thpool_init :: "bool \<Rightarrow> bool \<Rightarrow> bool \<Rightarrow> int \<Rightarrow> thpool option" where
  "thpool_init m1 m2 m3 num_threads =
     (let n = (if num_threads < 0 then 0 else num_threads)
      in if \<not> m1 then None
         else case jobqueue_init m2 of
                None \<Rightarrow> None
              | Some q \<Rightarrow>
                  if \<not> m3 then None
                  else Some \<lparr>tp_jobs = q, num_alive = 0, num_working = 0, keepalive = True,
                             pcs = replicate (nat n) T_Start, owner = M_Init,
                             pushed = [], pulled = [], finished = []\<rparr>)"

subsection \<open>Signals\<close>

text \<open>\<open>pthread_cond_signal\<close> wakes a sleeping thread, if there is one, and broadcast all.\<close>

inductive cond_signal :: "tpc list \<Rightarrow> tpc list \<Rightarrow> bool" where
  wakes: "j < length cs \<Longrightarrow> cs ! j = T_Sleep \<Longrightarrow> cond_signal cs (cs[j := T_Awake])"
| nobody: "T_Sleep \<notin> set cs \<Longrightarrow> cond_signal cs cs"

definition cond_broadcast :: "tpc list \<Rightarrow> tpc list" where
  "cond_broadcast cs = map (\<lambda>c. if c = T_Sleep then T_Awake else c) cs"

definition idle_signal :: "mpc \<Rightarrow> mpc" where
  "idle_signal m = (if m = M_Sleep then M_Awake else m)"

definition at_pc :: "thpool \<Rightarrow> nat \<Rightarrow> tpc \<Rightarrow> bool" where
  "at_pc p i c \<longleftrightarrow> i < length (pcs p) \<and> pcs p ! i = c"

definition goto :: "nat \<Rightarrow> tpc \<Rightarrow> thpool \<Rightarrow> thpool" where
  "goto i c p = p\<lparr>pcs := (pcs p)[i := c]\<rparr>"

text \<open>\<open>jobqueue_pull\<close> posts the semaphore when jobs are left.\<close>

definition pull_posts :: "jobqueue \<Rightarrow> bool" where
  "pull_posts q \<longleftrightarrow> jq_len q \<noteq> 0 \<and> jq_len q \<noteq> 1"

text \<open>\<open>thcount_lock\<close> is free between steps, unless a thread is about to unlock it for the last time.\<close>

definition lock_free :: "thpool \<Rightarrow> bool" where
  "lock_free p \<longleftrightarrow> T_Unlock \<notin> set (pcs p)"

definition all_idle :: "thpool \<Rightarrow> bool" where
  "all_idle p \<longleftrightarrow> jq_len (tp_jobs p) = 0 \<and> num_working p = 0"

subsection \<open>The steps of a worker: \<open>thread_do\<close>\<close>

inductive worker :: "thpool \<Rightarrow> nat \<Rightarrow> thpool \<Rightarrow> bool" where
  start: "at_pc p i T_Start \<Longrightarrow> lock_free p \<Longrightarrow> worker p i (goto i T_Loop (p\<lparr>num_alive := num_alive p + 1\<rparr>))"
| loop: "at_pc p i T_Loop \<Longrightarrow> worker p i (goto i (if keepalive p then T_Wait else T_Exit) p)"
| take_sem: "at_pc p i c \<Longrightarrow> c \<in> {T_Wait, T_Awake} \<Longrightarrow> jq_has_jobs (tp_jobs p) = 1 \<Longrightarrow>
    worker p i (goto i T_Got (p\<lparr>tp_jobs := (tp_jobs p)\<lparr>jq_has_jobs := 0\<rparr>\<rparr>))"
| sleep: "at_pc p i c \<Longrightarrow> c \<in> {T_Wait, T_Awake} \<Longrightarrow> jq_has_jobs (tp_jobs p) \<noteq> 1 \<Longrightarrow>
    worker p i (goto i T_Sleep p)"
| spurious: "at_pc p i T_Sleep \<Longrightarrow> worker p i (goto i T_Awake p)"
| got: "at_pc p i T_Got \<Longrightarrow> worker p i (goto i (if keepalive p then T_Count else T_Loop) p)"
| count: "at_pc p i T_Count \<Longrightarrow> lock_free p \<Longrightarrow> worker p i (goto i T_Pull (p\<lparr>num_working := num_working p + 1\<rparr>))"
| pull_none: "at_pc p i T_Pull \<Longrightarrow> jobqueue_pull (tp_jobs p) = Inr (None, q) \<Longrightarrow>
    worker p i (goto i T_Done (p\<lparr>tp_jobs := q\<rparr>))"
| pull_job: "at_pc p i T_Pull \<Longrightarrow> jobqueue_pull (tp_jobs p) = Inr (Some a, q) \<Longrightarrow>
    h_read (jq_heap q) (Some a) = Inr j \<Longrightarrow>
    (if pull_posts (tp_jobs p) then cond_signal (pcs p) cs else cs = pcs p) \<Longrightarrow>
    worker p i (goto i (T_Run a (j_work j)) (p\<lparr>tp_jobs := q, pcs := cs, pulled := pulled p @ [j_work j]\<rparr>))"
| run: "at_pc p i (T_Run a w) \<Longrightarrow>
    worker p i (goto i T_Done (p\<lparr>tp_jobs := (tp_jobs p)\<lparr>jq_heap := h_free (jq_heap (tp_jobs p)) a\<rparr>,
                                finished := finished p @ [w]\<rparr>))"
| done_work: "at_pc p i T_Done \<Longrightarrow> lock_free p \<Longrightarrow>
    worker p i (goto i T_Loop (p\<lparr>num_working := num_working p - 1,
      owner := (if num_working p - 1 = 0 then idle_signal (owner p) else owner p)\<rparr>))"
| exit: "at_pc p i T_Exit \<Longrightarrow> lock_free p \<Longrightarrow> worker p i (goto i T_Unlock (p\<lparr>num_alive := num_alive p - 1\<rparr>))"
| unlock: "at_pc p i T_Unlock \<Longrightarrow> worker p i (goto i T_Dead p)"

subsection \<open>The steps of the owner\<close>

datatype event = E_Ready | E_Add work | E_Wait | E_Wait_Returns | E_Spurious | E_Destroy | E_Post | E_Clear

inductive main :: "thpool \<Rightarrow> event \<Rightarrow> thpool \<Rightarrow> bool" where
  ready: "owner p = M_Init \<Longrightarrow> num_alive p = int (length (pcs p)) \<Longrightarrow> main p E_Ready (p\<lparr>owner := M_Idle\<rparr>)"
| add_work: "owner p = M_Idle \<Longrightarrow> thpool_add_work True (tp_jobs p) w = Inr (Some q) \<Longrightarrow> cond_signal (pcs p) cs \<Longrightarrow>
    main p (E_Add w) (p\<lparr>tp_jobs := q, pcs := cs, pushed := pushed p @ [w]\<rparr>)"
| wait_sleep: "owner p \<in> {M_Idle, M_Awake} \<Longrightarrow> lock_free p \<Longrightarrow> \<not> all_idle p \<Longrightarrow> main p E_Wait (p\<lparr>owner := M_Sleep\<rparr>)"
| wait_done: "owner p \<in> {M_Idle, M_Awake} \<Longrightarrow> lock_free p \<Longrightarrow> all_idle p \<Longrightarrow> main p E_Wait_Returns (p\<lparr>owner := M_Idle\<rparr>)"
| wait_spurious: "owner p = M_Sleep \<Longrightarrow> main p E_Spurious (p\<lparr>owner := M_Awake\<rparr>)"
| destroy: "owner p = M_Idle \<Longrightarrow> main p E_Destroy (p\<lparr>keepalive := False, owner := M_Destroy\<rparr>)"
| destroy_post: "owner p = M_Destroy \<Longrightarrow> num_alive p \<noteq> 0 \<Longrightarrow>
    main p E_Post (p\<lparr>tp_jobs := bsem_post (tp_jobs p), pcs := cond_broadcast (pcs p)\<rparr>)"
| destroy_clear: "owner p = M_Destroy \<Longrightarrow> num_alive p = 0 \<Longrightarrow> jobqueue_clear (tp_jobs p) = Inr q \<Longrightarrow>
    main p E_Clear (p\<lparr>tp_jobs := q, owner := M_Destroyed\<rparr>)"

inductive reach :: "int \<Rightarrow> thpool \<Rightarrow> bool" for n where
  init: "thpool_init True True True n = Some p \<Longrightarrow> reach n p"
| by_worker: "reach n p \<Longrightarrow> worker p i p' \<Longrightarrow> reach n p'"
| by_main: "reach n p \<Longrightarrow> main p e p' \<Longrightarrow> reach n p'"

inductive_cases signalE: "cond_signal cs cs'"
inductive_cases workerE: "worker p i p'"
inductive_cases mainE: "main p e p'"
inductive_cases waitE: "main p E_Wait_Returns p'"
inductive_simps main_ready: "main p E_Ready p'"

subsection \<open>Counting threads\<close>

definition total :: "('a \<Rightarrow> 'b::comm_monoid_add) \<Rightarrow> 'a list \<Rightarrow> 'b" where
  "total f cs = sum_list (map f cs)"

lemma total_upd: "i < length cs \<Longrightarrow> total f (cs[i := c]) + f (cs ! i) = total f cs + f c"
proof (induction cs arbitrary: i)
  case (Cons d cs)
  then show ?case by (cases i) (auto simp: total_def add.assoc add.commute add.left_commute)
qed simp

lemma total_map: "(\<And>c. f (g c) = f c) \<Longrightarrow> total f (map g cs) = total f cs"
  by (simp add: total_def o_def)

definition cnt :: "(tpc \<Rightarrow> bool) \<Rightarrow> tpc list \<Rightarrow> nat" where
  "cnt P cs = total (\<lambda>c. of_bool (P c)) cs"

lemma cnt_upd:
  "i < length cs \<Longrightarrow> int (cnt P (cs[i := c])) = int (cnt P cs) + of_bool (P c) - of_bool (P (cs ! i))"
  using total_upd [of i cs "\<lambda>c. of_bool (P c) :: nat" c] unfolding cnt_def
  by (cases "P c"; cases "P (cs ! i)"; simp)

lemma cnt_pos: "0 < cnt P cs \<longleftrightarrow> (\<exists>c \<in> set cs. P c)"
  by (induction cs) (auto simp: cnt_def total_def)

lemma cnt_zero: "cnt P cs = 0 \<longleftrightarrow> (\<forall>c \<in> set cs. \<not> P c)"
  using cnt_pos [of P cs] by auto

lemma cnt_le: "cnt P cs \<le> length cs"
  by (induction cs) (auto simp: cnt_def total_def)

definition living :: "tpc \<Rightarrow> bool" where
  "living c \<longleftrightarrow> c \<notin> {T_Start, T_Unlock, T_Dead}"

definition busy :: "tpc \<Rightarrow> bool" where
  "busy c \<longleftrightarrow> (case c of T_Pull \<Rightarrow> True | T_Run _ _ \<Rightarrow> True | T_Done \<Rightarrow> True | _ \<Rightarrow> False)"

definition fetching :: "tpc \<Rightarrow> bool" where
  "fetching c \<longleftrightarrow> c \<in> {T_Got, T_Count, T_Pull}"

definition run_work :: "tpc \<Rightarrow> work multiset" where
  "run_work c = (case c of T_Run _ w \<Rightarrow> {#w#} | _ \<Rightarrow> {#})"

definition run_node :: "tpc \<Rightarrow> nat multiset" where
  "run_node c = (case c of T_Run a _ \<Rightarrow> {#a#} | _ \<Rightarrow> {#})"

lemma pc_classes [simp]:
  "living T_Loop" "living T_Wait" "living T_Sleep" "living T_Awake" "living T_Got" "living T_Count" "living T_Pull"
  "living (T_Run a w)" "living T_Done" "living T_Exit" "\<not> living T_Start" "\<not> living T_Unlock" "\<not> living T_Dead"
  "busy T_Pull" "busy (T_Run a w)" "busy T_Done" "\<not> busy T_Start" "\<not> busy T_Loop" "\<not> busy T_Wait"
  "\<not> busy T_Sleep" "\<not> busy T_Awake" "\<not> busy T_Got" "\<not> busy T_Count" "\<not> busy T_Exit" "\<not> busy T_Unlock" "\<not> busy T_Dead"
  "fetching T_Got" "fetching T_Count" "fetching T_Pull" "\<not> fetching T_Start" "\<not> fetching T_Loop"
  "\<not> fetching T_Wait" "\<not> fetching T_Sleep" "\<not> fetching T_Awake" "\<not> fetching (T_Run a w)" "\<not> fetching T_Done"
  "\<not> fetching T_Exit" "\<not> fetching T_Unlock" "\<not> fetching T_Dead"
  by (simp_all add: living_def busy_def fetching_def)

lemma run_classes [simp]:
  "run_work (T_Run a w) = {#w#}" "run_node (T_Run a w) = {#a#}"
  by (simp_all add: run_work_def run_node_def)

lemma run_none [simp]:
  assumes "\<And>a w. c \<noteq> T_Run a w"
  shows "run_work c = {#}" and "run_node c = {#}"
  using assms by (cases c; simp add: run_work_def run_node_def)+


subsection \<open>What holds in every reachable state\<close>

text \<open>
  The counters count: \<open>num_alive\<close> the threads between \<open>T_Start\<close> and \<open>T_Unlock\<close>, \<open>num_working\<close>
  those with a job or about to pull one.  As long as the pool is kept alive, a queued job
  comes with a semaphore that is up or a thread on its way to the queue; a semaphore that is
  up leaves nobody asleep unless somebody has been woken; and the owner sleeps in
  \<open>thpool_wait\<close> only while there is something to wait for.
\<close>

definition counts_ok :: "thpool \<Rightarrow> bool" where
  "counts_ok p \<longleftrightarrow>
     num_alive p = int (cnt living (pcs p)) \<and> num_working p = int (cnt busy (pcs p))"

definition sem_ok :: "thpool \<Rightarrow> bool" where
  "sem_ok p \<longleftrightarrow>
     (keepalive p \<longrightarrow> jq_jobs (tp_jobs p) \<noteq> [] \<longrightarrow> jq_has_jobs (tp_jobs p) = 1 \<or> 0 < cnt fetching (pcs p))
     \<and> (jq_has_jobs (tp_jobs p) = 1 \<longrightarrow> 0 < cnt ((=) T_Sleep) (pcs p) \<longrightarrow> 0 < cnt ((=) T_Awake) (pcs p))"

definition owner_ok :: "thpool \<Rightarrow> bool" where
  "owner_ok p \<longleftrightarrow>
     (owner p = M_Sleep \<longrightarrow> \<not> all_idle p)
     \<and> (owner p \<noteq> M_Init \<longrightarrow> cnt ((=) T_Start) (pcs p) = 0)
     \<and> (owner p = M_Destroyed \<longrightarrow> cnt living (pcs p) = 0)
     \<and> (keepalive p \<longleftrightarrow> owner p \<notin> {M_Destroy, M_Destroyed})"

definition nodes :: "thpool \<Rightarrow> nat multiset" where
  "nodes p = mset (jq_jobs (tp_jobs p)) + total run_node (pcs p)"

text \<open>
  Every job pushed is in the queue or was pulled, in order; every job pulled has finished or is
  running; and no node is in two places, freed while in use, or freed twice.
\<close>

definition jobs_ok :: "thpool \<Rightarrow> bool" where
  "jobs_ok p \<longleftrightarrow>
     jq_wf (tp_jobs p)
     \<and> (owner p \<noteq> M_Destroyed \<longrightarrow> pushed p = pulled p @ jq_works (tp_jobs p))
     \<and> mset (pulled p) = mset (finished p) + total run_work (pcs p)
     \<and> (\<forall>a. count (nodes p) a \<le> 1) \<and> (\<forall>a \<in># nodes p. live (jq_heap (tp_jobs p)) a)"

definition pool_ok :: "thpool \<Rightarrow> bool" where
  "pool_ok p \<longleftrightarrow> counts_ok p \<and> sem_ok p \<and> owner_ok p \<and> jobs_ok p"

lemma at_pc_upd:
  "at_pc p i c \<Longrightarrow> int (cnt P ((pcs p)[i := d])) = int (cnt P (pcs p)) + of_bool (P d) - of_bool (P c)"
  by (auto simp: at_pc_def cnt_upd)

lemma at_pc_total:
  "at_pc p i c \<Longrightarrow> total f ((pcs p)[i := d]) + f c = total f (pcs p) + f d"
  by (auto simp: at_pc_def total_upd)

text \<open>A signal moves at most one thread, from asleep to awake.\<close>

lemma signal_same:
  fixes f :: "tpc \<Rightarrow> 'b::cancel_comm_monoid_add"
  assumes "cond_signal cs cs'" and "f T_Sleep = f T_Awake"
  shows "total f cs' = total f cs"
  using assms(1)
proof (cases rule: cond_signal.cases)
  case (wakes j)
  then show ?thesis
    using total_upd [of j cs f T_Awake] assms(2) by simp
qed simp

lemma signal_length: "cond_signal cs cs' \<Longrightarrow> length cs' = length cs"
  by (auto elim: cond_signal.cases)

lemma signal_other:
  assumes "cond_signal cs cs'" and "cs ! i \<noteq> T_Sleep"
  shows "cs' ! i = cs ! i"
  using assms by (cases rule: cond_signal.cases) (auto simp: nth_list_update)

lemma signal_cnt: "cond_signal cs cs' \<Longrightarrow> P T_Sleep = P T_Awake \<Longrightarrow> cnt P cs' = cnt P cs"
  unfolding cnt_def by (rule signal_same(1)) simp_all

lemma signal_wakes:
  assumes "cond_signal cs cs'"
  shows "0 < cnt ((=) T_Sleep) cs' \<longrightarrow> 0 < cnt ((=) T_Awake) cs'"
  using assms by (cases rule: cond_signal.cases) (auto simp: cnt_pos set_update_memI)

lemma broadcast_cnt: "P T_Sleep = P T_Awake \<Longrightarrow> cnt P (cond_broadcast cs) = cnt P cs"
  unfolding cnt_def cond_broadcast_def by (rule total_map) simp

lemma broadcast_none: "cnt ((=) T_Sleep) (cond_broadcast cs) = 0"
  by (auto simp: cnt_zero cond_broadcast_def)


subsection \<open>The steps keep the invariant\<close>

text \<open>The choice of the thread that is woken by a pull.\<close>

lemma pull_pcs:
  assumes "at_pc p i T_Pull" and "if b then cond_signal (pcs p) cs else cs = pcs p"
  shows "i < length cs" and "cs ! i = T_Pull" and "length cs = length (pcs p)"
    and "P T_Sleep = P T_Awake \<Longrightarrow> cnt P cs = cnt P (pcs p)"
    and "total run_work cs = total run_work (pcs p)" and "total run_node cs = total run_node (pcs p)"
    and "b \<Longrightarrow> 0 < cnt ((=) T_Sleep) cs \<longrightarrow> 0 < cnt ((=) T_Awake) cs"
    and "\<not> b \<Longrightarrow> cs = pcs p"
  using assms
  by (auto simp: at_pc_def signal_other signal_length signal_cnt signal_wakes signal_same
      split: if_splits)

lemma worker_length: "worker p i p' \<Longrightarrow> length (pcs p') = length (pcs p)"
  by (cases rule: worker.cases; assumption?) (auto simp: goto_def dest: pull_pcs(3))

lemma worker_counts:
  assumes "worker p i p'" and "counts_ok p"
  shows "counts_ok p'"
  using assms(1)
proof (cases rule: worker.cases)
  case (pull_job a q j cs)
  note cs = pull_pcs [OF pull_job(2,5)]
  show ?thesis
    using assms(2) pull_job(1) cs(4) [of living] cs(4) [of busy]
    by (simp add: counts_ok_def goto_def cnt_upd [OF cs(1)] cs(2))
qed (use assms(2) in \<open>auto simp: counts_ok_def goto_def at_pc_upd\<close>)

lemma main_counts:
  assumes "main p e p'" and "counts_ok p"
  shows "counts_ok p'"
  using assms by (cases rule: main.cases) (auto simp: counts_ok_def signal_cnt broadcast_cnt)

lemma at_pc_cnt: "at_pc p i c \<Longrightarrow> P c \<Longrightarrow> 0 < cnt P (pcs p)"
  by (auto simp: at_pc_def cnt_pos)

lemma at_pc_upd_nat:
  "at_pc p i c \<Longrightarrow> \<not> P c \<Longrightarrow> \<not> P d \<Longrightarrow> cnt P ((pcs p)[i := d]) = cnt P (pcs p)"
  using at_pc_upd [of p i c P d] by simp

lemma owner_upd:
  assumes "owner_ok p" and "at_pc p i c" and "c \<in> {T_Unlock, T_Dead} \<Longrightarrow> cs = pcs p \<and> \<not> living d"
    and "d \<noteq> T_Start" and "all_idle p' \<longrightarrow> owner p' \<noteq> M_Sleep"
    and "owner p' = owner p \<or> owner p' = idle_signal (owner p)" and "keepalive p' = keepalive p"
    and "pcs p' = cs[i := d]" and "i < length cs" and "cs ! i = c" and "cnt ((=) T_Start) cs = cnt ((=) T_Start) (pcs p)"
  shows "owner_ok p'"
proof -
  have dead: "cnt living (pcs p') = 0" if "owner p = M_Destroyed"
  proof -
    have z: "cnt living (pcs p) = 0" "cnt ((=) T_Start) (pcs p) = 0"
      using assms(1) that by (simp_all add: owner_ok_def)
    then have "c \<in> {T_Unlock, T_Dead}"
      using assms(2) at_pc_cnt [of p i c living] at_pc_cnt [of p i c "(=) T_Start"] by (auto simp: living_def)
    then show ?thesis
      using assms(3,8) z(1) at_pc_upd [OF assms(2), of living d] by (auto simp: living_def)
  qed
  have "cnt ((=) T_Start) (pcs p') \<le> cnt ((=) T_Start) (pcs p)"
    using cnt_upd [OF assms(9), of "(=) T_Start" d] assms(4,8,11)
    by (cases "T_Start = cs ! i") auto
  then show ?thesis
    using assms(1,5,6,7) dead by (auto simp: owner_ok_def idle_signal_def split: if_splits)
qed

lemma idle_frame:
  "jq_len (tp_jobs p') = jq_len (tp_jobs p) \<Longrightarrow> num_working p' = num_working p \<Longrightarrow> all_idle p' = all_idle p"
  by (simp add: all_idle_def)

lemma worker_owner:
  assumes "worker p i p'" and ok: "owner_ok p" and c: "counts_ok p"
  shows "owner_ok p'"
proof -
  have idle: "all_idle p \<longrightarrow> owner p \<noteq> M_Sleep" using ok by (auto simp: owner_ok_def)
  have busy: "num_working p \<noteq> 0" if "at_pc p i d" "busy d" for d
    using at_pc_cnt [OF that(1), of busy] that(2) c by (simp add: counts_ok_def)
  note upd = owner_upd [OF ok, where cs = "pcs p"]
  show ?thesis
    using assms(1)
  proof (cases rule: worker.cases)
    case (pull_job a q j cs)
    note cs = pull_pcs [OF pull_job(2,5)]
    show ?thesis
      by (rule owner_upd [OF ok pull_job(2), where cs = cs and d = "T_Run a (j_work j)"])
        (use pull_job(1) cs cs(4) [of "(=) T_Start"] busy [OF pull_job(2)] in \<open>simp_all add: goto_def all_idle_def\<close>)
  next
    case (pull_none q)
    then show ?thesis
      using busy [OF pull_none(2)] at_pc_def [of p i]
      by (intro upd [of i T_Pull T_Done]) (auto simp: goto_def all_idle_def)
  next
    case done_work
    then show ?thesis
      using at_pc_def [of p i]
      by (intro upd [of i T_Done T_Loop]) (auto simp: goto_def all_idle_def idle_signal_def)
  next
    case count
    then show ?thesis
      using at_pc_def [of p i] c
      by (intro upd [of i T_Count T_Pull]) (auto simp: goto_def all_idle_def counts_ok_def)
  qed ((rule upd, assumption, (auto simp: at_pc_def goto_def all_idle_def idle [unfolded all_idle_def] split: if_splits)[9])+)
qed

text \<open>A step that moves one thread and touches neither the queue nor the semaphore.\<close>

lemma sem_upd:
  assumes "sem_ok p" and "at_pc p i c" and "pcs p' = (pcs p)[i := d]" and "keepalive p' = keepalive p"
    and "jq_jobs (tp_jobs p') = jq_jobs (tp_jobs p)" and "jq_has_jobs (tp_jobs p') = jq_has_jobs (tp_jobs p)"
    and "fetching c \<longrightarrow> fetching d \<or> \<not> keepalive p" and "c \<noteq> T_Awake" and "d \<noteq> T_Sleep"
  shows "sem_ok p'"
proof -
  have f: "keepalive p \<Longrightarrow> cnt fetching (pcs p) \<le> cnt fetching (pcs p')"
    and s: "cnt ((=) T_Sleep) (pcs p') \<le> cnt ((=) T_Sleep) (pcs p)"
    and a: "cnt ((=) T_Awake) (pcs p) \<le> cnt ((=) T_Awake) (pcs p')"
    using at_pc_upd [OF assms(2), of fetching d] at_pc_upd [OF assms(2), of "(=) T_Sleep" d]
      at_pc_upd [OF assms(2), of "(=) T_Awake" d] assms(7,8,9)
    by (auto simp: assms(3) of_bool_def split: if_splits)
  then show ?thesis using assms(1,4,5,6) by (auto simp: sem_ok_def)
qed

text \<open>The node of a running job is in no other place.\<close>

lemma running_node:
  assumes "jobs_ok p" and "at_pc p i (T_Run a w)"
  shows "a \<notin> set (jq_jobs (tp_jobs p))" and "a \<notin># total run_node ((pcs p)[i := T_Done])"
    and "live (jq_heap (tp_jobs p)) a"
proof -
  have t: "total run_node (pcs p) = total run_node ((pcs p)[i := T_Done]) + {#a#}"
    using at_pc_total [OF assms(2), of run_node T_Done] by simp
  then have "count (nodes p) a = count (mset (jq_jobs (tp_jobs p))) a + count (total run_node ((pcs p)[i := T_Done])) a + 1"
    by (simp add: nodes_def)
  moreover have "count (nodes p) a \<le> 1" "a \<in># nodes p \<longrightarrow> live (jq_heap (tp_jobs p)) a"
    using assms(1) by (auto simp: jobs_ok_def)
  ultimately have "count (mset (jq_jobs (tp_jobs p))) a = 0" "count (total run_node ((pcs p)[i := T_Done])) a = 0"
    and "a \<in># nodes p" by (auto simp: count_greater_zero_iff [symmetric] simp del: count_greater_zero_iff)
  then show "a \<notin> set (jq_jobs (tp_jobs p))" and "a \<notin># total run_node ((pcs p)[i := T_Done])"
    and "live (jq_heap (tp_jobs p)) a"
    using \<open>a \<in># nodes p \<longrightarrow> live (jq_heap (tp_jobs p)) a\<close> by (auto simp: count_eq_zero_iff)
qed

lemma worker_sem:
  assumes "worker p i p'" and ok: "sem_ok p" and j: "jobs_ok p"
  shows "sem_ok p'"
proof -
  have wf: "jq_wf (tp_jobs p)" using j by (simp add: jobs_ok_def)
  note upd = sem_upd [OF ok]
  show ?thesis
    using assms(1)
  proof (cases rule: worker.cases)
    case (take_sem c)
    then show ?thesis
      using at_pc_upd [OF take_sem(2), of fetching T_Got] by (auto simp: sem_ok_def goto_def)
  next
    case (sleep c)
    then show ?thesis
      using ok at_pc_upd [OF sleep(2), of fetching T_Sleep] by (auto simp: sem_ok_def goto_def)
  next
    case (pull_none q)
    note q = pull_facts [OF wf pull_none(3)]
    show ?thesis
      using ok q(3-5) pull_none(1) at_pc_upd_nat [OF pull_none(2), of "(=) T_Sleep" T_Done]
        at_pc_upd_nat [OF pull_none(2), of "(=) T_Awake" T_Done]
      by (auto simp: sem_ok_def goto_def)
  next
    case (pull_job a q jb cs)
    note q = pull_facts [OF wf pull_job(3)] and cs = pull_pcs [OF pull_job(2,5)]
    have posts: "pull_posts (tp_jobs p) \<longleftrightarrow> 1 < length (jq_jobs (tp_jobs p))"
      by (cases "jq_jobs (tp_jobs p)") (auto simp: pull_posts_def jq_len_jobs [OF wf])
    have c: "cnt ((=) T_Sleep) (cs[i := T_Run a (j_work jb)]) = cnt ((=) T_Sleep) cs"
      "cnt ((=) T_Awake) (cs[i := T_Run a (j_work jb)]) = cnt ((=) T_Awake) cs"
      using cnt_upd [OF cs(1), of "(=) T_Sleep" "T_Run a (j_work jb)"]
        cnt_upd [OF cs(1), of "(=) T_Awake" "T_Run a (j_work jb)"] cs(2) by auto
    have s: "jq_has_jobs q = 1 \<longrightarrow> 0 < cnt ((=) T_Sleep) cs \<longrightarrow> 0 < cnt ((=) T_Awake) cs"
      using ok q(5) cs(7,8) posts by (cases "pull_posts (tp_jobs p)") (auto simp: sem_ok_def)
    have f: "jq_jobs q \<noteq> [] \<longrightarrow> jq_has_jobs q = 1" using q(3,5) by auto
    show ?thesis
      unfolding pull_job(1) sem_ok_def goto_def using s f by (simp add: c)
  next
    case (run a w)
    note free = free_facts [OF wf running_node(1) [OF j run(2)]]
    with run show ?thesis
      by (intro upd [OF run(2), of _ T_Done]) (auto simp: goto_def free)
  qed ((rule upd, assumption, (auto simp: goto_def fetching_def split: if_splits)[7])+)
qed

text \<open>A step that moves a thread between places without a job.\<close>

lemma jobs_upd:
  assumes "jobs_ok p" and "at_pc p i c" and "pcs p' = (pcs p)[i := d]"
    and "run_work c = {#}" "run_work d = {#}" "run_node c = {#}" "run_node d = {#}"
    and "jq_wf (tp_jobs p')" and "jq_jobs (tp_jobs p') = jq_jobs (tp_jobs p)"
    and "jq_works (tp_jobs p') = jq_works (tp_jobs p)" and "jq_heap (tp_jobs p') = jq_heap (tp_jobs p)"
    and "pushed p' = pushed p" "pulled p' = pulled p" "finished p' = finished p"
    and "owner p = M_Destroyed \<longrightarrow> owner p' = M_Destroyed"
  shows "jobs_ok p'"
proof -
  have "total run_work (pcs p') = total run_work (pcs p)" "total run_node (pcs p') = total run_node (pcs p)"
    using at_pc_total [OF assms(2), of run_work d] at_pc_total [OF assms(2), of run_node d] assms(3-7) by simp_all
  then show ?thesis using assms(1,8-15) by (auto simp: jobs_ok_def nodes_def)
qed

lemma worker_jobs:
  assumes "worker p i p'" and j: "jobs_ok p"
  shows "jobs_ok p'"
proof -
  have wf: "jq_wf (tp_jobs p)" using j by (simp add: jobs_ok_def)
  note upd = jobs_upd [OF j]
  show ?thesis
    using assms(1)
  proof (cases rule: worker.cases)
    case (pull_none q)
    note q = pull_facts [OF wf pull_none(3)]
    have "jq_works q = jq_works (tp_jobs p)" using q(3,4) by (simp add: jq_works_def)
    with pull_none q show ?thesis
      by (intro upd [OF pull_none(2), of _ T_Done]) (auto simp: goto_def)
  next
    case (pull_job a q jb cs)
    note q = pull_facts [OF wf pull_job(3)] and cs = pull_pcs [OF pull_job(2,5)]
    have lv: "live (jq_heap (tp_jobs p)) a" using q(3) j by (auto simp: jobs_ok_def nodes_def)
    then have jb: "j_work jb = j_work (the (jq_heap (tp_jobs p) ! a))"
      using pull_job(4) q(2) by (simp add: h_read_live)
    have w: "jq_works (tp_jobs p) = j_work jb # jq_works q"
      using q(2,3) by (simp add: jq_works_def jb)
    have t: "total run_work (cs[i := T_Run a (j_work jb)]) = total run_work (pcs p) + {#j_work jb#}"
      "total run_node (cs[i := T_Run a (j_work jb)]) = total run_node (pcs p) + {#a#}"
      using total_upd [OF cs(1), of run_work "T_Run a (j_work jb)"] total_upd [OF cs(1), of run_node "T_Run a (j_work jb)"]
      by (simp_all add: cs(2,5,6))
    have "nodes p' = nodes p" using q(3) by (simp add: pull_job(1) nodes_def goto_def t)
    then show ?thesis
      using j q(1,2) w t(1) by (simp add: jobs_ok_def pull_job(1) goto_def)
  next
    case (run a w)
    note a = running_node [OF j run(2)] and free = free_facts [OF wf running_node(1) [OF j run(2)]]
    have t: "total run_work (pcs p) = total run_work ((pcs p)[i := T_Done]) + {#w#}"
      "total run_node (pcs p) = total run_node ((pcs p)[i := T_Done]) + {#a#}"
      using at_pc_total [OF run(2), of run_work T_Done] at_pc_total [OF run(2), of run_node T_Done] by simp_all
    have n: "nodes p = nodes p' + {#a#}" by (simp add: nodes_def run(1) goto_def free t(2))
    have "a \<notin># nodes p'" using a(1,2) by (simp add: nodes_def run(1) goto_def free)
    have "count (nodes p') b \<le> count (nodes p) b" for b by (simp add: n)
    then have "\<forall>b. count (nodes p') b \<le> 1" using j unfolding jobs_ok_def by (meson le_trans)
    moreover have "live (jq_heap (tp_jobs p')) b" if "b \<in># nodes p'" for b
      using that j n \<open>a \<notin># nodes p'\<close> by (auto simp: jobs_ok_def run(1) goto_def intro!: live_free)
    ultimately show ?thesis using j t(1) by (simp add: jobs_ok_def run(1) goto_def free)
  qed ((rule upd, assumption, (auto simp: goto_def wf jq_works_def idle_signal_def)[13])+)
qed

lemma worker_ok: "worker p i p' \<Longrightarrow> pool_ok p \<Longrightarrow> pool_ok p'"
  using worker_counts worker_sem worker_owner worker_jobs by (auto simp: pool_ok_def)

lemma no_runs:
  "cnt living cs = 0 \<Longrightarrow> total run_node cs = {#} \<and> total run_work cs = {#}"
proof (induction cs)
  case (Cons c cs)
  then have "c = T_Start \<or> c = T_Unlock \<or> c = T_Dead" and "cnt living cs = 0"
    by (auto simp: cnt_def total_def living_def of_bool_def split: if_splits)
  with Cons.IH show ?case by (auto simp: total_def)
qed (simp add: total_def)

lemma main_jobs:
  assumes "main p e p'" and j: "jobs_ok p" and c: "counts_ok p"
  shows "jobs_ok p'"
proof -
  have wf: "jq_wf (tp_jobs p)" using j by (simp add: jobs_ok_def)
  show ?thesis
    using assms(1)
  proof (cases rule: main.cases)
    case (add_work w q cs)
    note q = add_facts [OF wf add_work(4)]
    let ?l = "length (jq_heap (tp_jobs p))"
    have t: "total run_work cs = total run_work (pcs p)" "total run_node cs = total run_node (pcs p)"
      using signal_same [OF add_work(5), of run_work] signal_same [OF add_work(5), of run_node] by simp_all
    have n: "nodes p' = nodes p + {#?l#}" by (simp add: nodes_def add_work(2) q(3) t)
    have fresh: "?l \<notin># nodes p" using j by (auto simp: jobs_ok_def live_def)
    have "live (jq_heap q) a" if "a \<in># nodes p'" for a
    proof (cases "a \<in> set (jq_jobs q)")
      case True
      then show ?thesis using jq_wf_rep [OF q(1)] by (auto simp: jq_rep_def linked_def)
    next
      case False
      with that q(3) have "a \<in># nodes p" "a \<notin> set (jq_jobs (tp_jobs p))" by (auto simp: n)
      moreover from this have "live (jq_heap (tp_jobs p)) a" using j by (simp add: jobs_ok_def)
      ultimately show ?thesis using q(5,6) by (simp add: live_def)
    qed
    moreover have "count (nodes p') a \<le> 1" for a
      using j fresh by (auto simp: n jobs_ok_def count_eq_zero_iff)
    ultimately show ?thesis
      using j q(1,4) add_work(3) t(1) by (simp add: jobs_ok_def add_work(2))
  next
    case destroy_post
    have "total run_work (pcs p') = total run_work (pcs p)" "total run_node (pcs p') = total run_node (pcs p)"
      unfolding destroy_post cond_broadcast_def by (simp_all add: total_map)
    then show ?thesis using j by (simp add: jobs_ok_def destroy_post nodes_def bsem_post_def)
  next
    case (destroy_clear q)
    moreover have "jq_wf q" "jq_jobs q = []" using clear_facts [OF wf] destroy_clear(5) by auto
    moreover have "cnt living (pcs p) = 0" using c destroy_clear(4) by (simp add: counts_ok_def)
    ultimately show ?thesis using j no_runs [of "pcs p"] by (simp add: jobs_ok_def nodes_def)
  qed (use j in \<open>auto simp: jobs_ok_def nodes_def\<close>)
qed

lemma main_sem:
  assumes "main p e p'" and ok: "sem_ok p" and j: "jobs_ok p"
  shows "sem_ok p'"
proof -
  have wf: "jq_wf (tp_jobs p)" using j by (simp add: jobs_ok_def)
  show ?thesis
    using assms(1)
  proof (cases rule: main.cases)
    case (add_work w q cs)
    then show ?thesis
      using add_facts(2) [OF wf add_work(4)] signal_wakes [OF add_work(5)] by (auto simp: sem_ok_def)
  next
    case (destroy_clear q)
    then show ?thesis using clear_facts [OF wf] by (auto simp: sem_ok_def jobqueue_clear_def split: sum.splits)
  qed (use ok in \<open>auto simp: sem_ok_def broadcast_none bsem_post_def jq_jobs_def\<close>)
qed

lemma cnt_living_start: "cnt living cs + cnt ((=) T_Start) cs \<le> length cs"
  by (induction cs) (auto simp: cnt_def total_def living_def)

lemma main_owner:
  assumes "main p e p'" and ok: "owner_ok p" and c: "counts_ok p"
  shows "owner_ok p'"
  using assms(1)
proof (cases rule: main.cases)
  case ready
  have "cnt living (pcs p) = length (pcs p)" using c ready(4) by (simp add: counts_ok_def)
  with cnt_living_start [of "pcs p"] ok show ?thesis by (simp add: owner_ok_def ready)
next
  case (add_work w q cs)
  then show ?thesis
    using ok signal_cnt [OF add_work(5), of "(=) T_Start"] by (auto simp: owner_ok_def)
next
  case destroy_post
  then show ?thesis
    using ok by (auto simp: owner_ok_def broadcast_cnt)
next
  case (destroy_clear q)
  then show ?thesis using ok c by (auto simp: owner_ok_def counts_ok_def)
qed (use ok in \<open>auto simp: owner_ok_def all_idle_def\<close>)

lemma main_ok: "main p e p' \<Longrightarrow> pool_ok p \<Longrightarrow> pool_ok p'"
  using main_counts main_sem main_owner main_jobs by (auto simp: pool_ok_def)

lemma cnt_replicate: "\<not> P c \<Longrightarrow> cnt P (replicate n c) = 0"
  by (auto simp: cnt_zero)

lemma total_replicate [simp]: "f c = 0 \<Longrightarrow> total f (replicate k c) = 0" "total f [] = 0"
  by (induction k) (simp_all add: total_def)

lemma total_zero: "\<forall>c \<in> set cs. f c = 0 \<Longrightarrow> total f cs = 0"
  by (induction cs) (simp_all add: total_def)

lemma reach_ok: "reach n p \<Longrightarrow> pool_ok p"
proof (induction rule: reach.induct)
  case (init p)
  let ?q = "\<lparr>jq_heap = [], jq_front = None, jq_rear = None, jq_has_jobs = 0, jq_len = 0\<rparr>"
  have "jq_rep ?q []" by (simp add: jq_rep_def)
  then have q: "jq_wf ?q" "jq_jobs ?q = []" "jq_works ?q = []"
    using jq_jobs_rep [of ?q "[]"] by (auto simp: jq_wf_def jq_works_def)
  have p: "p = \<lparr>tp_jobs = ?q, num_alive = 0, num_working = 0, keepalive = True,
      pcs = replicate (nat (if n < 0 then 0 else n)) T_Start, owner = M_Init, pushed = [], pulled = [], finished = []\<rparr>"
    using init by (simp add: thpool_init_def jobqueue_init_def bsem_init_def)
  show ?case
    by (simp add: total_replicate p pool_ok_def counts_ok_def sem_ok_def owner_ok_def jobs_ok_def nodes_def q cnt_replicate)
qed (auto intro: worker_ok main_ok)

text \<open>While the pool is kept alive no thread has left its loop.\<close>

definition all_serve :: "thpool \<Rightarrow> bool" where
  "all_serve p \<longleftrightarrow> (keepalive p \<longrightarrow> (\<forall>c \<in> set (pcs p). c \<noteq> T_Exit \<and> c \<noteq> T_Unlock \<and> c \<noteq> T_Dead))"

lemma signal_in: "cond_signal cs cs' \<Longrightarrow> c \<in> set cs' \<Longrightarrow> c \<in> set cs \<or> c = T_Awake"
  by (auto elim!: signalE dest: set_update_subset_insert [THEN subsetD])

lemma goto_in: "c \<in> set (cs[i := d]) \<Longrightarrow> c \<in> set cs \<or> c = d"
  using set_update_subset_insert [of cs i d] by blast

lemma at_pc_in: "at_pc p i c \<Longrightarrow> c \<in> set (pcs p)"
  by (auto simp: at_pc_def)

lemma worker_serve: "worker p i p' \<Longrightarrow> all_serve p \<Longrightarrow> all_serve p'"
proof (cases rule: worker.cases, assumption)
qed (auto simp: all_serve_def goto_def dest!: goto_in signal_in at_pc_in split: if_splits)

lemma main_serve: "main p e p' \<Longrightarrow> all_serve p \<Longrightarrow> all_serve p'"
  by (cases rule: main.cases, assumption) (auto simp: all_serve_def cond_broadcast_def dest!: signal_in split: if_splits)

lemma reach_serve: "reach n p \<Longrightarrow> all_serve p"
proof (induction rule: reach.induct)
  case (init p)
  then show ?case by (auto simp: all_serve_def thpool_init_def Let_def split: if_splits option.splits)
qed (auto intro: worker_serve main_serve)

lemma serve_lock_free: "reach n p \<Longrightarrow> keepalive p \<Longrightarrow> lock_free p"
  using reach_serve [of n p] by (auto simp: all_serve_def lock_free_def)

end
