(* ===== verification/Silk_Pool.thy ===== *)
theory Silk_Pool
  imports Silk_Thpool
begin

section \<open>What the thread pool guarantees (thpool.c)\<close>

text \<open>
  The guarantees of the pool in every state that its threads and its owner can reach, in any
  interleaving: jobs are run once and in order, no wake-up is lost, \<open>thpool_wait\<close> waits for
  the right thing, and the pool is freed when all that a thread can still do is an unlock.
\<close>

lemma signal_exists: "\<exists>cs'. cond_signal cs cs'"
proof (cases "T_Sleep \<in> set cs")
  case True
  then obtain j where "j < length cs" "cs ! j = T_Sleep" by (auto simp: in_set_conv_nth)
  then show ?thesis using cond_signal.wakes by blast
next
  case False
  then show ?thesis using cond_signal.nobody by blast
qed

text \<open>A pull never faults, and leads to the job or past it.\<close>

lemma pull_enabled:
  assumes j: "jobs_ok p" and pc: "at_pc p i T_Pull"
  shows "\<exists>p'. worker p i p' \<and> (if jq_works (tp_jobs p) = [] then at_pc p' i T_Done
     else \<exists>a. at_pc p' i (T_Run a (hd (jq_works (tp_jobs p)))))"
proof -
  have wf: "jq_wf (tp_jobs p)" using j by (simp add: jobs_ok_def)
  from pull_rep [OF jq_wf_rep [OF wf]] obtain r q where pull: "jobqueue_pull (tp_jobs p) = Inr (r, q)" by blast
  note q = pull_facts [OF wf pull]
  show ?thesis
  proof (cases r)
    case None
    then show ?thesis
      using worker.pull_none [OF pc, of q] pull q(3) pc
      by (auto simp: jq_works_def at_pc_def goto_def intro!: exI)
  next
    case (Some a)
    have "live (jq_heap (tp_jobs p)) a" using j q(3) Some by (auto simp: jobs_ok_def nodes_def)
    then have rd: "h_read (jq_heap q) (Some a) = Inr (the (jq_heap (tp_jobs p) ! a))"
      using q(2) by (simp add: h_read_live)
    obtain cs where cs: "if pull_posts (tp_jobs p) then cond_signal (pcs p) cs else cs = pcs p"
      using signal_exists [of "pcs p"] by (cases "pull_posts (tp_jobs p)") auto
    note step = worker.pull_job [OF pc pull [unfolded Some] rd cs]
    have "jq_works (tp_jobs p) = j_work (the (jq_heap (tp_jobs p) ! a)) # jq_works q"
      using q(2,3) Some by (simp add: jq_works_def)
    moreover from this pull_pcs(1) [OF pc cs]
    have "at_pc (goto i (T_Run a (j_work (the (jq_heap (tp_jobs p) ! a)))) (p\<lparr>tp_jobs := q, pcs := cs,
        pulled := pulled p @ [j_work (the (jq_heap (tp_jobs p) ! a))]\<rparr>)) i (T_Run a (hd (jq_works (tp_jobs p))))"
      by (simp add: at_pc_def goto_def)
    ultimately show ?thesis using step by (metis list.distinct(1))
  qed
qed

text \<open>
  No thread is ever stuck, except by having ended, or while another one is about to unlock
  \<open>thcount_lock\<close> for the last time.
\<close>

lemma worker_enabled:
  assumes "pool_ok p" and "i < length (pcs p)" and "pcs p ! i \<noteq> T_Dead" and "lock_free p \<or> pcs p ! i = T_Unlock"
  shows "\<exists>p'. worker p i p'"
proof -
  have at: "at_pc p i (pcs p ! i)" using assms(2) by (simp add: at_pc_def)
  show ?thesis
  proof (cases "pcs p ! i = T_Unlock")
    case True
    with at show ?thesis using worker.unlock [of p i] by auto
  next
    case False
    then have lock: "lock_free p" using assms(4) by simp
    show ?thesis
    proof (cases "pcs p ! i")
      case T_Wait
      with at worker.take_sem [of p i T_Wait] worker.sleep [of p i T_Wait] show ?thesis by auto
    next
      case T_Awake
      with at worker.take_sem [of p i T_Awake] worker.sleep [of p i T_Awake] show ?thesis by auto
    next
      case T_Pull
      with at pull_enabled [of p i] assms(1) show ?thesis by (auto simp: pool_ok_def)
    qed (use at lock assms(3) False worker.intros(1,2,5,6,7,10,11,12) in \<open>metis+\<close>)
  qed
qed

text \<open>What \<open>thpool_num_threads_working\<close> returns is the number of threads with a job in hand.\<close>

definition thpool_num_threads_working :: "thpool \<Rightarrow> int" where
  "thpool_num_threads_working p = num_working p"

lemma working_exact: "reach n p \<Longrightarrow> thpool_num_threads_working p = int (cnt busy (pcs p))"
  using reach_ok [of n p] by (simp add: thpool_num_threads_working_def pool_ok_def counts_ok_def)

subsection \<open>A pool that is freed under its last thread\<close>

text \<open>States of a pool without jobs, by the number of live threads.\<close>

definition ex_pool :: "int \<Rightarrow> tpc list \<Rightarrow> mpc \<Rightarrow> thpool" where
  "ex_pool n cs m = \<lparr>tp_jobs = \<lparr>jq_heap = [], jq_front = None, jq_rear = None, jq_has_jobs = 0, jq_len = 0\<rparr>,
     num_alive = n, num_working = 0, keepalive = True, pcs = cs, owner = m, pushed = [], pulled = [], finished = []\<rparr>"

lemma reach_to: "reach n p \<Longrightarrow> worker p i p' \<Longrightarrow> p' = p'' \<Longrightarrow> reach n p''"
  using reach.by_worker by blast

lemma reach_started:
  "k \<le> nat n \<Longrightarrow> reach n (ex_pool (int k) (replicate k T_Loop @ replicate (nat n - k) T_Start) M_Init)"
proof (induction k)
  case 0
  show ?case by (rule reach.init) (simp add: thpool_init_def jobqueue_init_def bsem_init_def ex_pool_def)
next
  case (Suc k)
  have "nat n - k = Suc (nat n - Suc k)" using Suc.prems by simp
  with Suc show ?case
    by (intro reach_to [OF Suc.IH worker.start [where i = k]])
      (auto simp: at_pc_def goto_def ex_pool_def lock_free_def nth_append list_update_append replicate_app_Cons_same)
qed

lemma reach_idle: "reach n (ex_pool (int (nat n)) (replicate (nat n) T_Loop) M_Idle)"
proof -
  have "reach n (ex_pool (int (nat n)) (replicate (nat n) T_Loop) M_Init)"
    using reach_started [of "nat n" n] by simp
  from reach.by_main [OF this main.ready] show ?thesis by (simp add: ex_pool_def)
qed

definition ex_ending :: "nat \<Rightarrow> tpc list \<Rightarrow> thpool" where
  "ex_ending k cs = (ex_pool (int k) cs M_Destroy)\<lparr>keepalive := False\<rparr>"

lemma reach_ending:
  "k \<le> nat n \<Longrightarrow> reach n (ex_ending (nat n - k) (replicate k T_Dead @ replicate (nat n - k) T_Loop))"
proof (induction k)
  case 0
  from reach.by_main [OF reach_idle main.destroy] show ?case by (simp add: ex_pool_def ex_ending_def)
next
  case (Suc k)
  let ?m = "nat n - Suc k" and ?s = "\<lambda>c. replicate k T_Dead @ c # replicate (nat n - Suc k) T_Loop"
  note defs = at_pc_def goto_def ex_pool_def ex_ending_def lock_free_def nth_append list_update_append
  have m: "nat n - k = Suc ?m" using Suc.prems by simp
  have "reach n (ex_ending (Suc ?m) (?s T_Loop))" using Suc unfolding m by simp
  then have "reach n (ex_ending (Suc ?m) (?s T_Exit))"
    by (rule reach_to [OF _ worker.loop [where i = k]]) (simp_all add: defs)
  then have "reach n (ex_ending ?m (?s T_Unlock))"
    by (rule reach_to [OF _ worker.exit [where i = k]]) (auto simp: defs)
  then have "reach n (ex_ending ?m (?s T_Dead))"
    by (rule reach_to [OF _ worker.unlock [where i = k]]) (simp_all add: defs)
  then show ?case by (simp add: replicate_app_Cons_same)
qed

lemma reach_freed_early:
  assumes "0 < n"
  shows "\<exists>q i. reach n q \<and> owner q = M_Destroyed \<and> at_pc q i T_Unlock"
proof -
  let ?k = "nat n - 1" and ?s = "\<lambda>c. replicate (nat n - 1) T_Dead @ [c]"
  note defs = at_pc_def goto_def ex_pool_def ex_ending_def lock_free_def nth_append list_update_append
  have "nat n - ?k = 1" using assms by simp
  then have "reach n (ex_ending 1 (?s T_Loop))" using reach_ending [of ?k n] by simp
  then have "reach n (ex_ending 1 (?s T_Exit))"
    by (rule reach_to [OF _ worker.loop [where i = ?k]]) (simp_all add: defs)
  then have r: "reach n (ex_ending 0 (?s T_Unlock))" (is "reach n ?p")
    by (rule reach_to [OF _ worker.exit [where i = ?k]]) (auto simp: defs)
  have "jq_wf (tp_jobs ?p)" using reach_ok [OF r] by (simp add: pool_ok_def jobs_ok_def)
  then obtain q where "jobqueue_clear (tp_jobs ?p) = Inr q" using clear_facts by blast
  then have "main ?p E_Clear (?p\<lparr>tp_jobs := q, owner := M_Destroyed\<rparr>)"
    by (intro main.destroy_clear) (simp_all add: defs)
  from reach.by_main [OF r this] show ?thesis
    by (intro exI [of _ "?p\<lparr>tp_jobs := q, owner := M_Destroyed\<rparr>"] exI [of _ ?k]) (simp add: defs)
qed

subsection \<open>Properties\<close>

text \<open>C27: Jobs are run once and in order.  Whatever the interleaving, the jobs pushed are the jobs
  pulled, in the same order, followed by those still queued; and the jobs pulled are those
  finished together with those a thread is running now.\<close>

theorem pool_runs_jobs_once:
  assumes "reach n p" and "owner p \<noteq> M_Destroyed"
  shows "pushed p = pulled p @ jq_works (tp_jobs p)
    \<and> mset (pulled p) = mset (finished p) + total run_work (pcs p)"
  using reach_ok [OF assms(1)] assms(2) by (simp add: pool_ok_def jobs_ok_def)

text \<open>C28: No wake-up is lost.  While the pool is kept alive, a queued job and a thread asleep in
  \<open>bsem_wait\<close> imply that some thread is on its way to the queue and can take its next step: it
  has been woken and finds the semaphore up, or it has the semaphore, or it is about to pull.\<close>

theorem pool_no_lost_wakeup:
  assumes "reach n p" and "keepalive p" and "jq_works (tp_jobs p) \<noteq> []" and "T_Sleep \<in> set (pcs p)"
  shows "\<exists>i c c' p'. at_pc p i c \<and> worker p i p' \<and> at_pc p' i c' \<and>
    (c = T_Awake \<and> c' = T_Got \<or> c = T_Got \<and> c' = T_Count \<or> c = T_Count \<and> c' = T_Pull
     \<or> c = T_Pull \<and> (\<exists>a. c' = T_Run a (hd (jq_works (tp_jobs p)))))"
proof -
  have ok: "sem_ok p" "jobs_ok p" using reach_ok [OF assms(1)] by (auto simp: pool_ok_def)
  have "jq_jobs (tp_jobs p) \<noteq> []" using assms(3) by (auto simp: jq_works_def)
  moreover have "0 < cnt ((=) T_Sleep) (pcs p)" using assms(4) by (auto simp: cnt_pos)
  ultimately have "jq_has_jobs (tp_jobs p) = 1 \<and> 0 < cnt ((=) T_Awake) (pcs p) \<or> 0 < cnt fetching (pcs p)"
    using ok(1) assms(2) by (auto simp: sem_ok_def)
  then obtain i c where i: "at_pc p i c" and c: "c = T_Awake \<and> jq_has_jobs (tp_jobs p) = 1 \<or> fetching c"
    unfolding cnt_pos by (auto simp: at_pc_def in_set_conv_nth)
  then consider "c = T_Awake" "jq_has_jobs (tp_jobs p) = 1" | "c = T_Got" | "c = T_Count" | "c = T_Pull"
    by (auto simp: fetching_def)
  then show ?thesis
  proof cases
    case 1
    then show ?thesis using worker.take_sem [OF i] i
      by (auto simp: at_pc_def goto_def intro!: exI [of _ i] exI [of _ T_Got])
  next
    case 2
    then show ?thesis using worker.got [of p i] i assms(2)
      by (auto simp: at_pc_def goto_def intro!: exI [of _ i] exI [of _ T_Count])
  next
    case 3
    then show ?thesis using worker.count [of p i] i serve_lock_free [OF assms(1,2)]
      by (auto simp: at_pc_def goto_def intro!: exI [of _ i] exI [of _ T_Pull])
  next
    case 4
    with pull_enabled [OF ok(2), of i] i assms(3) obtain p' a
      where "worker p i p'" "at_pc p' i (T_Run a (hd (jq_works (tp_jobs p))))" by auto
    with i 4 show ?thesis by blast
  qed
qed

text \<open>C29: \<open>thpool_wait\<close> returns only when every job that was pushed has finished, and its owner
  is asleep there only while a job is queued or a thread counts as working; so the last
  thread to finish will wake it.\<close>

theorem pool_wait_correct:
  assumes "reach n p"
  shows "(owner p = M_Sleep \<longrightarrow> jq_works (tp_jobs p) \<noteq> [] \<or> 0 < cnt busy (pcs p))
    \<and> (main p E_Wait_Returns p' \<longrightarrow> mset (finished p) = mset (pushed p) \<and> jq_works (tp_jobs p) = [])"
proof -
  have ok: "counts_ok p" "owner_ok p" "jobs_ok p" using reach_ok [OF assms] by (auto simp: pool_ok_def)
  then have wf: "jq_wf (tp_jobs p)" by (simp add: jobs_ok_def)
  have idle: "all_idle p \<longleftrightarrow> jq_works (tp_jobs p) = [] \<and> cnt busy (pcs p) = 0"
    using ok(1) by (auto simp: all_idle_def counts_ok_def jq_len_jobs [OF wf] jq_works_def)
  have sleep: "owner p = M_Sleep \<longrightarrow> jq_works (tp_jobs p) \<noteq> [] \<or> 0 < cnt busy (pcs p)"
    using ok(2) idle by (auto simp: owner_ok_def)
  have ret: "mset (finished p) = mset (pushed p) \<and> jq_works (tp_jobs p) = []" if m: "main p E_Wait_Returns p'"
  proof -
    have i: "all_idle p" "owner p \<noteq> M_Destroyed" using m by (auto elim: waitE)
    then have "\<forall>c \<in> set (pcs p). run_work c = {#}"
      using idle by (auto simp: cnt_zero busy_def run_work_def split: tpc.splits)
    then have "total run_work (pcs p) = {#}" by (rule total_zero)
    with ok(3) i idle show ?thesis by (simp add: jobs_ok_def)
  qed
  from sleep ret show ?thesis by blast
qed

text \<open>C30: The pool is freed one step too early.  In every reachable state the counters of live and
  working threads are exact, and no thread is stuck: it has ended, can take its next step, or
  waits for the lock of a thread that can.  Once \<open>thpool_destroy\<close> has gone past its waiting loops
  and freed the pool, the only step that any thread can still take is the unlock of the mutex it
  counted itself out under, which lies in the freed memory; and every pool with a thread can get
  there, for \<open>thpool_destroy\<close> reads the count without the mutex.\<close>

theorem pool_destroy_unlock:
  assumes "reach n p"
  shows "num_alive p = int (cnt living (pcs p)) \<and> num_working p = int (cnt busy (pcs p))
    \<and> (\<forall>i < length (pcs p). pcs p ! i = T_Dead \<or> (\<exists>p'. worker p i p')
         \<or> (\<exists>j p'. at_pc p j T_Unlock \<and> worker p j p'))
    \<and> (owner p = M_Destroyed \<longrightarrow> (\<forall>i p'. worker p i p' \<longrightarrow> at_pc p i T_Unlock))
    \<and> (0 < n \<longrightarrow> (\<exists>q i. reach n q \<and> owner q = M_Destroyed \<and> at_pc q i T_Unlock))"
proof -
  have ok: "pool_ok p" by (rule reach_ok [OF assms])
  have last: "at_pc p i T_Unlock" if "owner p = M_Destroyed" and w: "worker p i p'" for i p'
  proof -
    have "c \<in> {T_Unlock, T_Dead}" if "at_pc p i c" for c
      using ok \<open>owner p = M_Destroyed\<close> that at_pc_cnt [of p i c living] at_pc_cnt [of p i c "(=) T_Start"]
      by (auto simp: pool_ok_def owner_ok_def living_def)
    note gone = this
    from w show ?thesis by (cases rule: worker.cases) (auto dest: gone)
  qed
  have "pcs p ! i = T_Dead \<or> (\<exists>p'. worker p i p') \<or> (\<exists>j p'. at_pc p j T_Unlock \<and> worker p j p')"
    if "i < length (pcs p)" for i
  proof (cases "lock_free p")
    case True
    then show ?thesis using worker_enabled [OF ok that] by blast
  next
    case False
    then obtain j where "at_pc p j T_Unlock" by (auto simp: lock_free_def at_pc_def in_set_conv_nth)
    then show ?thesis using worker.unlock [of p j] by blast
  qed
  then show ?thesis using ok last reach_freed_early by (auto simp: pool_ok_def counts_ok_def)
qed

subsection \<open>A run\<close>

text \<open>Two threads go to sleep, and the owner adds a job.\<close>

lemma ex_asleep: "reach 2 (ex_pool 2 [T_Sleep, T_Sleep] M_Idle)"
proof -
  note defs = at_pc_def goto_def ex_pool_def lock_free_def
  have "reach 2 (ex_pool 0 [T_Start, T_Start] M_Init)"
    by (rule reach.init) (simp add: thpool_init_def jobqueue_init_def bsem_init_def ex_pool_def numeral_2_eq_2)
  then have "reach 2 (ex_pool 1 [T_Loop, T_Start] M_Init)"
    by (rule reach_to [OF _ worker.start [where i = 0]]) (simp_all add: defs)
  then have "reach 2 (ex_pool 2 [T_Loop, T_Loop] M_Init)"
    by (rule reach_to [OF _ worker.start [where i = 1]]) (simp_all add: defs)
  then have "reach 2 (ex_pool 2 [T_Wait, T_Loop] M_Init)"
    by (rule reach_to [OF _ worker.loop [where i = 0]]) (simp_all add: defs)
  then have "reach 2 (ex_pool 2 [T_Sleep, T_Loop] M_Init)"
    by (rule reach_to [OF _ worker.sleep [where i = 0 and c = T_Wait]]) (simp_all add: defs)
  then have "reach 2 (ex_pool 2 [T_Sleep, T_Wait] M_Init)"
    by (rule reach_to [OF _ worker.loop [where i = 1]]) (simp_all add: defs)
  then have r: "reach 2 (ex_pool 2 [T_Sleep, T_Sleep] M_Init)"
    by (rule reach_to [OF _ worker.sleep [where i = 1 and c = T_Wait]]) (simp_all add: defs)
  from reach.by_main [OF r main.ready] show ?thesis by (simp add: ex_pool_def)
qed

lemma ex_added:
  "\<exists>p. reach 2 p \<and> owner p = M_Idle \<and> keepalive p \<and> jq_works (tp_jobs p) = [(0, 7)] \<and> pcs p = [T_Awake, T_Sleep]"
proof -
  let ?p = "ex_pool 2 [T_Sleep, T_Sleep] M_Idle"
  have wf: "jq_wf (tp_jobs ?p)" using reach_ok [OF ex_asleep] by (simp add: pool_ok_def jobs_ok_def)
  obtain q where q: "thpool_add_work True (tp_jobs ?p) (0, 7) = Inr (Some q)"
    using push_rep [OF jq_wf_rep [OF wf]] by blast
  have "jq_works (tp_jobs ?p) = []" by (simp add: jq_works_def jq_jobs_def ex_pool_def)
  then have works: "jq_works q = [(0, 7)]" using add_facts(4) [OF wf q] by simp
  have "cond_signal (pcs ?p) ((pcs ?p)[0 := T_Awake])"
    by (rule cond_signal.wakes) (simp_all add: ex_pool_def)
  from reach.by_main [OF ex_asleep main.add_work [OF _ q this]] works show ?thesis
    by (intro exI conjI, assumption?) (auto simp: ex_pool_def)
qed

lemma pool_runs_jobs_once_witness:
  "\<exists>p. reach 2 p \<and> jq_works (tp_jobs p) = [(0, 7)] \<and> pushed p = pulled p @ jq_works (tp_jobs p)
    \<and> mset (pulled p) = mset (finished p) + total run_work (pcs p)"
proof -
  obtain p where p: "reach 2 p" "owner p = M_Idle" "jq_works (tp_jobs p) = [(0, 7)]" using ex_added by blast
  with pool_runs_jobs_once [OF p(1)] show ?thesis by auto
qed

lemma pool_no_lost_wakeup_witness:
  "\<exists>p. reach 2 p \<and> pcs p = [T_Awake, T_Sleep] \<and> (\<exists>i c c' p'. at_pc p i c \<and> worker p i p' \<and> at_pc p' i c' \<and>
    (c = T_Awake \<and> c' = T_Got \<or> c = T_Got \<and> c' = T_Count \<or> c = T_Count \<and> c' = T_Pull
     \<or> c = T_Pull \<and> (\<exists>a. c' = T_Run a (hd (jq_works (tp_jobs p))))))"
proof -
  obtain p where p: "reach 2 p" "keepalive p" "jq_works (tp_jobs p) = [(0, 7)]" "pcs p = [T_Awake, T_Sleep]"
    using ex_added by blast
  with pool_no_lost_wakeup [OF p(1,2)] show ?thesis by (intro exI [of _ p]) simp
qed

lemma pool_wait_correct_witness:
  "mset (finished (ex_pool 2 [T_Sleep, T_Sleep] M_Idle)) = mset (pushed (ex_pool 2 [T_Sleep, T_Sleep] M_Idle))
    \<and> jq_works (tp_jobs (ex_pool 2 [T_Sleep, T_Sleep] M_Idle)) = []"
proof -
  let ?p = "ex_pool 2 [T_Sleep, T_Sleep] M_Idle"
  have "main ?p E_Wait_Returns (?p\<lparr>owner := M_Idle\<rparr>)"
    by (rule main.wait_done) (simp_all add: ex_pool_def all_idle_def lock_free_def)
  with pool_wait_correct [OF ex_asleep] show ?thesis by blast
qed

lemma pool_destroy_unlock_witness:
  "\<exists>p. reach 2 p \<and> jq_works (tp_jobs p) = [(0, 7)] \<and> num_alive p = int (cnt living (pcs p))
    \<and> (\<exists>q i. reach 2 q \<and> owner q = M_Destroyed \<and> at_pc q i T_Unlock)"
proof -
  obtain p where p: "reach 2 p" "jq_works (tp_jobs p) = [(0, 7)]" using ex_added by blast
  have "num_alive p = int (cnt living (pcs p))" "\<exists>q i. reach 2 q \<and> owner q = M_Destroyed \<and> at_pc q i T_Unlock"
    using pool_destroy_unlock [OF p(1)] by simp_all
  with p show ?thesis by blast
qed

end
