(* ===== verification/Silk_Pool_Destroy.thy ===== *)
theory Silk_Pool_Destroy
  imports Silk_Pool
begin

section \<open>Destroying the pool can always be finished (thpool.c)\<close>

text \<open>
  \<open>thpool_destroy\<close> has two loops that wait for the threads to end.  Whatever state the threads
  are in, there is a continuation that ends: each thread can be brought closer to its end by a
  step of its own, after a post of the semaphore by the owner when it waits for it.
\<close>

definition pool_step :: "thpool \<Rightarrow> thpool \<Rightarrow> bool" where
  "pool_step p p' \<longleftrightarrow> (\<exists>i. worker p i p') \<or> (\<exists>e. main p e p')"

lemma pool_step_ok: "pool_step p p' \<Longrightarrow> pool_ok p \<Longrightarrow> pool_ok p'"
  by (auto simp: pool_step_def intro: worker_ok main_ok)

lemma pool_steps_ok: "pool_step\<^sup>*\<^sup>* p p' \<Longrightarrow> pool_ok p \<Longrightarrow> pool_ok p'"
  by (induction rule: rtranclp_induct) (auto intro: pool_step_ok)

text \<open>The number of steps that a thread needs to end, once the pool is not kept alive.\<close>

fun to_end :: "tpc \<Rightarrow> nat" where
  "to_end T_Dead = 0"
| "to_end T_Unlock = 1"
| "to_end T_Exit = 2"
| "to_end T_Loop = 3"
| "to_end T_Got = 4"
| "to_end T_Done = 4"
| "to_end (T_Run a w) = 5"
| "to_end T_Pull = 6"
| "to_end T_Count = 7"
| "to_end T_Wait = 8"
| "to_end T_Awake = 8"
| "to_end T_Sleep = 9"
| "to_end T_Start = 10"

abbreviation waiting :: "tpc \<Rightarrow> bool" where
  "waiting c \<equiv> c \<in> {T_Wait, T_Awake, T_Sleep}"

lemma signal_to_end:
  assumes "cond_signal cs cs'"
  shows "total to_end cs' \<le> total to_end cs"
  using assms
proof (cases rule: cond_signal.cases)
  case (wakes j)
  then show ?thesis
    using total_upd [of j cs to_end T_Awake] by simp
qed simp

lemma broadcast_to_end: "total to_end (cond_broadcast cs) \<le> total to_end cs"
  by (induction cs) (auto simp: total_def cond_broadcast_def)

lemma goto_to_end:
  assumes "at_pc p i c" and "to_end d < to_end c"
  shows "total to_end ((pcs p)[i := d]) < total to_end (pcs p)"
  using at_pc_total [OF assms(1), of to_end d] assms(2) by simp

text \<open>A step of a thread that does not wait brings it closer to its end.\<close>

lemma worker_to_end:
  assumes "worker p i p'" and "owner p = M_Destroy" and "\<not> keepalive p"
    and "\<not> waiting (pcs p ! i)" and "pcs p ! i \<noteq> T_Start"
  shows "owner p' = M_Destroy \<and> total to_end (pcs p') < total to_end (pcs p)"
  using assms(1)
proof (cases rule: worker.cases)
  case (pull_job a q j cs)
  let ?b = "pull_posts (tp_jobs p)"
  note cs = pull_pcs [OF pull_job(2,5)]
  have "total to_end cs \<le> total to_end (pcs p)"
    using pull_job(5) signal_to_end by (cases ?b) auto
  moreover have "total to_end (cs[i := T_Run a (j_work j)]) < total to_end cs"
    using total_upd [OF cs(1), of to_end "T_Run a (j_work j)"] cs(2) by simp
  ultimately show ?thesis using pull_job(1) assms(2) by (simp add: goto_def)
qed (use assms(2-) in \<open>auto simp: goto_def idle_signal_def at_pc_def intro!: goto_to_end\<close>)

text \<open>Until all threads have ended, some steps bring the threads as a whole closer to their end.\<close>

lemma destroy_progress:
  assumes ok: "pool_ok p" and m: "owner p = M_Destroy" and left: "\<exists>c \<in> set (pcs p). c \<noteq> T_Dead"
  shows "\<exists>p'. pool_step\<^sup>*\<^sup>* p p' \<and> owner p' = M_Destroy \<and> total to_end (pcs p') < total to_end (pcs p)"
proof -
  have ka: "\<not> keepalive p" and st: "T_Start \<notin> set (pcs p)"
    using ok m by (auto simp: pool_ok_def owner_ok_def cnt_zero)
  obtain i where i: "i < length (pcs p)" "pcs p ! i \<noteq> T_Dead" "lock_free p \<or> pcs p ! i = T_Unlock"
  proof (cases "lock_free p")
    case True
    with left that show thesis by (auto simp: in_set_conv_nth)
  next
    case False
    then obtain j where "j < length (pcs p)" "pcs p ! j = T_Unlock"
      by (auto simp: lock_free_def in_set_conv_nth)
    with that show thesis by simp
  qed
  have nst: "pcs p ! i \<noteq> T_Start" using st i(1) nth_mem by metis
  show ?thesis
  proof (cases "waiting (pcs p ! i)")
    case False
    obtain p' where w: "worker p i p'" using worker_enabled [OF ok i] by blast
    then have "pool_step p p'" by (auto simp: pool_step_def)
    with worker_to_end [OF w m ka False nst] show ?thesis by blast
  next
    case True
    have "living (pcs p ! i)" using True by auto
    then have "0 < cnt living (pcs p)" using i(1) unfolding cnt_pos by (metis nth_mem)
    then have alive: "num_alive p \<noteq> 0" using ok by (simp add: pool_ok_def counts_ok_def)
    let ?p = "p\<lparr>tp_jobs := bsem_post (tp_jobs p), pcs := cond_broadcast (pcs p)\<rparr>"
    have post: "pool_step p ?p" using main.destroy_post [OF m alive] by (auto simp: pool_step_def)
    have at: "at_pc ?p i (if pcs p ! i = T_Sleep then T_Awake else pcs p ! i)"
      using i(1) by (simp add: at_pc_def cond_broadcast_def)
    have sem: "jq_has_jobs (tp_jobs ?p) = 1" by (simp add: bsem_post_def)
    let ?p' = "goto i T_Got (?p\<lparr>tp_jobs := (tp_jobs ?p)\<lparr>jq_has_jobs := 0\<rparr>\<rparr>)"
    have "worker ?p i ?p'" by (rule worker.take_sem [OF at _ sem]) (use True in auto)
    then have "pool_step ?p ?p'" by (auto simp: pool_step_def)
    with post have "pool_step\<^sup>*\<^sup>* p ?p'" by auto
    moreover have "total to_end (pcs ?p') < total to_end (pcs ?p)"
      using goto_to_end [OF at, of T_Got] True by (auto simp: goto_def split: if_splits)
    moreover have "total to_end (pcs ?p) \<le> total to_end (pcs p)" using broadcast_to_end by simp
    ultimately show ?thesis using m by (intro exI [of _ ?p']) (simp add: goto_def)
  qed
qed

lemma destroy_finishes:
  assumes "pool_ok p" and "owner p = M_Destroy"
  shows "\<exists>p'. pool_step\<^sup>*\<^sup>* p p' \<and> owner p' = M_Destroyed \<and> num_alive p' = 0
    \<and> (\<forall>c \<in> set (pcs p'). c = T_Dead) \<and> jq_works (tp_jobs p') = []"
  using assms
proof (induction "total to_end (pcs p)" arbitrary: p rule: less_induct)
  case less
  show ?case
  proof (cases "\<forall>c \<in> set (pcs p). c = T_Dead")
    case True
    then have "cnt living (pcs p) = 0" by (auto simp: cnt_zero)
    then have none: "num_alive p = 0" using less.prems(1) by (simp add: pool_ok_def counts_ok_def)
    have "jq_wf (tp_jobs p)" using less.prems(1) by (simp add: pool_ok_def jobs_ok_def)
    then obtain q where q: "jobqueue_clear (tp_jobs p) = Inr q" "jq_jobs q = []" using clear_facts by blast
    from main.destroy_clear [OF less.prems(2) none q(1)]
    have "pool_step p (p\<lparr>tp_jobs := q, owner := M_Destroyed\<rparr>)" by (auto simp: pool_step_def)
    then show ?thesis using q(2) True none
      by (intro exI [of _ "p\<lparr>tp_jobs := q, owner := M_Destroyed\<rparr>"])
        (simp add: jq_works_def r_into_rtranclp)
  next
    case False
    then have "\<exists>c \<in> set (pcs p). c \<noteq> T_Dead" by blast
    from destroy_progress [OF less.prems this] obtain p1 where p1: "pool_step\<^sup>*\<^sup>* p p1"
        "owner p1 = M_Destroy" "total to_end (pcs p1) < total to_end (pcs p)" by blast
    from less.hyps [OF p1(3) pool_steps_ok [OF p1(1) less.prems(1)] p1(2)] p1(1)
    show ?thesis by (meson rtranclp_trans)
  qed
qed

text \<open>C31: \<open>thpool_destroy\<close> is never stuck.  From every state that the pool can reach while it is
  being destroyed (threads asleep, woken, with a job in hand, or past their last test of
  \<open>threads_keepalive\<close>) there are steps of the threads and of the owner's loops after which all
  threads have ended and the pool is freed.\<close>

theorem pool_destroy_finishes:
  assumes "reach n p" and "owner p = M_Destroy"
  shows "\<exists>p'. pool_step\<^sup>*\<^sup>* p p' \<and> owner p' = M_Destroyed \<and> num_alive p' = 0
    \<and> (\<forall>c \<in> set (pcs p'). c = T_Dead) \<and> jq_works (tp_jobs p') = []"
  by (rule destroy_finishes [OF reach_ok [OF assms(1)] assms(2)])

lemma pool_destroy_finishes_witness:
  "\<exists>p. reach 2 p \<and> pcs p = [T_Awake, T_Sleep] \<and> owner p = M_Destroy
    \<and> (\<exists>p'. pool_step\<^sup>*\<^sup>* p p' \<and> owner p' = M_Destroyed \<and> num_alive p' = 0
      \<and> (\<forall>c \<in> set (pcs p'). c = T_Dead) \<and> jq_works (tp_jobs p') = [])"
proof -
  obtain p where p: "reach 2 p" "owner p = M_Idle" "pcs p = [T_Awake, T_Sleep]" using ex_added by blast
  let ?p = "p\<lparr>keepalive := False, owner := M_Destroy\<rparr>"
  have r: "reach 2 ?p" by (rule reach.by_main [OF p(1) main.destroy [OF p(2)]])
  have "owner ?p = M_Destroy" by simp
  from pool_destroy_finishes [OF r this] r p(3) show ?thesis by (intro exI [of _ ?p]) simp
qed

end
