(* ===== verification/Silk_Pause.thy ===== *)
theory Silk_Pause
  imports Silk_Pool_Destroy
begin

section \<open>Starting the threads, and pausing them by signals (thpool.c)\<close>

subsection \<open>thread_init\<close>

text \<open>
  \<open>thread_init\<close> tests the pointer to the pointer instead of the result of malloc, and does not
  look at the result of \<open>pthread_create\<close>, which leaves the thread's handle unset on failure.  The
  two flags say whether malloc and \<open>pthread_create\<close> succeed.
\<close>

definition thread_init :: "bool \<times> bool \<Rightarrow> c_fault + tpc" where
  "thread_init t =
     (if \<not> fst t then Inl Null_Deref else if \<not> snd t then Inl Uninitialised else Inr T_Start)"

fun thread_inits :: "(bool \<times> bool) list \<Rightarrow> c_fault + tpc list" where
  "thread_inits [] = Inr []"
| "thread_inits (t # ts) =
     (case thread_init t of
        Inl f \<Rightarrow> Inl f
      | Inr c \<Rightarrow> (case thread_inits ts of Inl f \<Rightarrow> Inl f | Inr cs \<Rightarrow> Inr (c # cs)))"

text \<open>The whole of \<open>thpool_init\<close> up to its waiting loop, \<open>ts\<close> with an entry for each thread.\<close>

definition thpool_create :: "bool \<Rightarrow> bool \<Rightarrow> bool \<Rightarrow> (bool \<times> bool) list \<Rightarrow> int \<Rightarrow> c_fault + thpool option" where
  "thpool_create m1 m2 m3 ts num_threads =
     (case thpool_init m1 m2 m3 num_threads of
        None \<Rightarrow> Inr None
      | Some p \<Rightarrow>
          (case thread_inits ts of Inl f \<Rightarrow> Inl f | Inr cs \<Rightarrow> Inr (Some (p\<lparr>pcs := cs\<rparr>))))"

lemma thread_inits_ok:
  "\<forall>t \<in> set ts. t = (True, True) \<Longrightarrow> thread_inits ts = Inr (replicate (length ts) T_Start)"
  by (induction ts) (auto simp: thread_init_def)

lemma thread_inits_fail:
  "\<exists>t \<in> set ts. t \<noteq> (True, True) \<Longrightarrow> \<exists>f \<in> {Null_Deref, Uninitialised}. thread_inits ts = Inl f"
proof (induction ts)
  case (Cons t ts)
  then show ?case by (cases "t = (True, True)") (auto simp: thread_init_def prod_eq_iff)
qed simp

text \<open>
  If every thread is created, this is \<open>thpool_init\<close> as the pool's steps take it; a thread that is
  not created leads to undefined behaviour, and is never reported by NULL.
\<close>

lemma thpool_create_ok:
  assumes "length ts = nat n" and "\<forall>t \<in> set ts. t = (True, True)"
  shows "thpool_create m1 m2 m3 ts n = Inr (thpool_init m1 m2 m3 n)"
  using assms
  by (auto simp: thpool_create_def thread_inits_ok thpool_init_def Let_def split: option.split)

lemma thpool_create_fails:
  assumes "\<exists>t \<in> set ts. t \<noteq> (True, True)"
  shows "\<exists>f \<in> {Null_Deref, Uninitialised}. thpool_create True True True ts n = Inl f"
proof -
  have "\<exists>p. thpool_init True True True n = Some p"
    by (simp add: thpool_init_def jobqueue_init_def bsem_init_def Let_def)
  moreover note thread_inits_fail [OF assms]
  ultimately show ?thesis by (auto simp: thpool_create_def)
qed

subsection \<open>Signals\<close>

text \<open>
  A thread that is paused runs \<open>thread_hold\<close>, the handler of SIGUSR1.  The handler can start
  between any two instructions of the thread: also inside of a critical section, and then the
  thread keeps its mutex while it is held.  So the handler carries the set of mutexes, a part of
  those that the thread's next step takes; the step's effect comes when the handler has
  returned.  \<open>H_Enter\<close> is before \<open>threads_on_hold = 1\<close>, \<open>H_Hold\<close> in the loop.  A signal that is
  sent to a thread in the handler stays pending.
\<close>

datatype mutex = Thcount_Lock | Rwmutex | Bsem_Mutex

datatype handler = H_None | H_Enter "mutex set" | H_Hold "mutex set"

fun handler_locks :: "handler \<Rightarrow> mutex set" where
  "handler_locks H_None = {}"
| "handler_locks (H_Enter L) = L"
| "handler_locks (H_Hold L) = L"

fun locks_of :: "tpc \<Rightarrow> mutex set" where
  "locks_of T_Wait = {Bsem_Mutex}"
| "locks_of T_Awake = {Bsem_Mutex}"
| "locks_of T_Pull = {Rwmutex, Bsem_Mutex}"
| "locks_of T_Start = {Thcount_Lock}"
| "locks_of T_Count = {Thcount_Lock}"
| "locks_of T_Done = {Thcount_Lock}"
| "locks_of T_Exit = {Thcount_Lock}"
| "locks_of _ = {}"

fun event_locks :: "event \<Rightarrow> mutex set" where
  "event_locks (E_Add w) = {Rwmutex, Bsem_Mutex}"
| "event_locks E_Wait = {Thcount_Lock}"
| "event_locks E_Wait_Returns = {Thcount_Lock}"
| "event_locks E_Post = {Bsem_Mutex}"
| "event_locks _ = {}"

text \<open>
  The state: the pool, the flag \<open>threads_on_hold\<close>, the threads with a pending signal, their
  handlers, and how far the loop of \<open>thpool_pause\<close> is, when the owner is in it.
\<close>

record ppool =
  ps_pool :: thpool
  on_hold :: bool
  ps_sigs :: "nat set"
  ps_handler :: "nat \<Rightarrow> handler"
  ps_next :: "nat option"

datatype pevent = P_Thread nat | P_Main event | P_Pause | P_Kill nat | P_Paused | P_Resume | P_Handler nat

definition threads :: "ppool \<Rightarrow> tpc list" where
  "threads s = pcs (ps_pool s)"

definition free_locks :: "ppool \<Rightarrow> mutex set \<Rightarrow> bool" where
  "free_locks s L \<longleftrightarrow> (\<forall>j < length (threads s). handler_locks (ps_handler s j) \<inter> L = {})"

text \<open>The steps of the pool, of \<open>thpool_pause\<close>, \<open>thpool_resume\<close> and \<open>thread_hold\<close>.\<close>

inductive pstep :: "ppool \<Rightarrow> pevent \<Rightarrow> ppool \<Rightarrow> bool" where
  thread: "worker (ps_pool s) i p' \<Longrightarrow> ps_handler s i = H_None \<Longrightarrow> free_locks s (locks_of (threads s ! i)) \<Longrightarrow>
    pstep s (P_Thread i) (s\<lparr>ps_pool := p'\<rparr>)"
| owner: "main (ps_pool s) e p' \<Longrightarrow> ps_next s = None \<Longrightarrow> free_locks s (event_locks e) \<Longrightarrow>
    pstep s (P_Main e) (s\<lparr>ps_pool := p'\<rparr>)"
| pause: "owner (ps_pool s) = M_Idle \<Longrightarrow> ps_next s = None \<Longrightarrow> pstep s P_Pause (s\<lparr>ps_next := Some 0\<rparr>)"
| kill: "ps_next s = Some n \<Longrightarrow> int n < num_alive (ps_pool s) \<Longrightarrow>
    pstep s (P_Kill n) (s\<lparr>ps_sigs := insert n (ps_sigs s), ps_next := Some (n + 1)\<rparr>)"
| paused: "ps_next s = Some n \<Longrightarrow> \<not> int n < num_alive (ps_pool s) \<Longrightarrow> pstep s P_Paused (s\<lparr>ps_next := None\<rparr>)"
| resume: "owner (ps_pool s) = M_Idle \<Longrightarrow> ps_next s = None \<Longrightarrow> pstep s P_Resume (s\<lparr>on_hold := False\<rparr>)"
| enter: "i \<in> ps_sigs s \<Longrightarrow> ps_handler s i = H_None \<Longrightarrow> i < length (threads s) \<Longrightarrow> threads s ! i \<noteq> T_Dead \<Longrightarrow>
    L \<subseteq> locks_of (threads s ! i) \<Longrightarrow> free_locks s L \<Longrightarrow>
    pstep s (P_Handler i) (s\<lparr>ps_sigs := ps_sigs s - {i}, ps_handler := (ps_handler s)(i := H_Enter L)\<rparr>)"
| hold: "ps_handler s i = H_Enter L \<Longrightarrow>
    pstep s (P_Handler i) (s\<lparr>on_hold := True, ps_handler := (ps_handler s)(i := H_Hold L)\<rparr>)"
| leave: "ps_handler s i = H_Hold L \<Longrightarrow> \<not> on_hold s \<Longrightarrow>
    pstep s (P_Handler i) (s\<lparr>ps_handler := (ps_handler s)(i := H_None)\<rparr>)"

inductive_cases pthreadE: "pstep s (P_Thread i) s'"
inductive_cases pmainE: "pstep s (P_Main e) s'"
inductive_cases pkillE: "pstep s (P_Kill n) s'"

text \<open>Runs, with the events in order.\<close>

inductive pruns :: "ppool \<Rightarrow> pevent list \<Rightarrow> ppool \<Rightarrow> bool" where
  none: "pruns s [] s"
| more: "pruns s es s' \<Longrightarrow> pstep s' e s'' \<Longrightarrow> pruns s (es @ [e]) s''"

definition unpaused :: "thpool \<Rightarrow> ppool" where
  "unpaused p = \<lparr>ps_pool = p, on_hold = False, ps_sigs = {}, ps_handler = (\<lambda>_. H_None), ps_next = None\<rparr>"

definition preach :: "int \<Rightarrow> ppool \<Rightarrow> bool" where
  "preach n s \<longleftrightarrow> (\<exists>p es. thpool_init True True True n = Some p \<and> pruns (unpaused p) es s)"

subsection \<open>What pausing keeps\<close>

lemma idle_all_living:
  assumes "reach n p" and "owner p = M_Idle" and "i < length (pcs p)"
  shows "living (pcs p ! i)"
proof -
  have "pool_ok p" by (rule reach_ok [OF assms(1)])
  then have "keepalive p" "T_Start \<notin> set (pcs p)" using assms(2) by (auto simp: pool_ok_def owner_ok_def cnt_zero)
  then show ?thesis
    using reach_serve [OF assms(1)] nth_mem [OF assms(3)] by (auto simp: all_serve_def living_def)
qed

text \<open>
  The invariant of the handlers: each keeps mutexes of its thread's next step, no mutex is kept
  by two, and the owner is inside of \<open>thpool_pause\<close> only when it is idle otherwise.
\<close>

definition handlers_ok :: "ppool \<Rightarrow> bool" where
  "handlers_ok s \<longleftrightarrow>
     (\<forall>i < length (threads s). handler_locks (ps_handler s i) \<subseteq> locks_of (threads s ! i)
        \<and> (\<forall>j < length (threads s). i \<noteq> j \<longrightarrow>
             handler_locks (ps_handler s i) \<inter> handler_locks (ps_handler s j) = {}))
     \<and> (ps_next s \<noteq> None \<longrightarrow> owner (ps_pool s) = M_Idle)"

text \<open>A step of one thread, or of the owner, leaves the others where they are, or wakes one.\<close>

definition stays_or_wakes :: "tpc \<Rightarrow> tpc \<Rightarrow> bool" where
  "stays_or_wakes c d \<longleftrightarrow> d = c \<or> c = T_Sleep \<and> d = T_Awake"

lemma signal_nth: "cond_signal cs cs' \<Longrightarrow> stays_or_wakes (cs ! j) (cs' ! j)"
  by (auto simp: stays_or_wakes_def nth_list_update elim!: signalE split: if_splits)

lemma worker_others:
  assumes "worker p i p'" and "j \<noteq> i"
  shows "stays_or_wakes (pcs p ! j) (pcs p' ! j)"
  using assms(1)
proof (cases rule: worker.cases)
  case (pull_job a q jb cs)
  then show ?thesis
    using signal_nth [of "pcs p" cs j] assms(2) by (auto simp: goto_def stays_or_wakes_def split: if_splits)
qed (use assms(2) in \<open>auto simp: goto_def stays_or_wakes_def\<close>)

lemma main_others: "main p e p' \<Longrightarrow> j < length (pcs p) \<Longrightarrow> stays_or_wakes (pcs p ! j) (pcs p' ! j)"
  by (cases rule: main.cases, assumption) (auto simp: stays_or_wakes_def cond_broadcast_def dest: signal_nth [of _ _ j])

lemma worker_idle: "worker p i p' \<Longrightarrow> owner p = M_Idle \<Longrightarrow> owner p' = M_Idle"
  by (cases rule: worker.cases, assumption) (auto simp: goto_def idle_signal_def)

lemma main_length: "main p e p' \<Longrightarrow> length (pcs p') = length (pcs p)"
  by (cases rule: main.cases, assumption) (auto simp: cond_broadcast_def signal_length)

lemma stays_locks: "stays_or_wakes c d \<Longrightarrow> locks_of c \<subseteq> locks_of d"
  by (auto simp: stays_or_wakes_def)

text \<open>Steps of the pool keep the handlers' invariant if held threads only stay or are woken.\<close>

lemma handlers_pool:
  assumes "handlers_ok s" and "length (pcs p') = length (threads s)"
    and "\<And>j. j < length (threads s) \<Longrightarrow> ps_handler s j \<noteq> H_None \<Longrightarrow> stays_or_wakes (threads s ! j) (pcs p' ! j)"
    and "ps_next s \<noteq> None \<Longrightarrow> owner p' = M_Idle"
  shows "handlers_ok (s\<lparr>ps_pool := p'\<rparr>)"
proof -
  have "handler_locks (ps_handler s j) \<subseteq> locks_of (pcs p' ! j)" if "j < length (threads s)" for j
  proof (cases "ps_handler s j = H_None")
    case False
    then show ?thesis
      using stays_locks [OF assms(3) [OF that False]] assms(1) that unfolding handlers_ok_def by blast
  qed simp
  then show ?thesis using assms(1,2,4) by (auto simp: handlers_ok_def threads_def)
qed

text \<open>A handler that starts, goes on or ends.\<close>

lemma handlers_set:
  assumes "handlers_ok s" and "handler_locks h \<subseteq> locks_of (threads s ! i)"
    and "\<And>j. j < length (threads s) \<Longrightarrow> j \<noteq> i \<Longrightarrow> handler_locks (ps_handler s j) \<inter> handler_locks h = {}"
    and "threads s' = threads s" "ps_handler s' = (ps_handler s)(i := h)" "ps_next s' = ps_next s"
    and "ps_pool s' = ps_pool s"
  shows "handlers_ok s'"
  using assms by (auto simp: handlers_ok_def Int_commute)

lemma pstep_handlers:
  assumes "pstep s e s'" and ok: "handlers_ok s"
  shows "handlers_ok s'"
  using assms(1)
proof (cases rule: pstep.cases)
  case (thread i p')
  show ?thesis unfolding thread(2)
  proof (rule handlers_pool [OF ok])
    show "length (pcs p') = length (threads s)" using worker_length [OF thread(3)] by (simp add: threads_def)
    show "stays_or_wakes (threads s ! j) (pcs p' ! j)" if "ps_handler s j \<noteq> H_None" for j
      using worker_others [OF thread(3), of j] thread(4) that by (auto simp: threads_def)
    show "owner p' = M_Idle" if "ps_next s \<noteq> None"
      using worker_idle [OF thread(3)] ok that by (simp add: handlers_ok_def)
  qed
next
  case (owner e p')
  show ?thesis unfolding owner(2)
  proof (rule handlers_pool [OF ok])
    show "length (pcs p') = length (threads s)" using main_length [OF owner(3)] by (simp add: threads_def)
    show "stays_or_wakes (threads s ! j) (pcs p' ! j)" if "j < length (threads s)" for j
      using main_others [OF owner(3)] that by (simp add: threads_def)
  qed (use owner(4) in simp)
next
  case (enter i L)
  show ?thesis
    by (rule handlers_set [OF ok, of "H_Enter L" i])
      (use enter in \<open>auto simp: free_locks_def threads_def Int_commute\<close>)
next
  case (hold i L)
  show ?thesis
  proof (cases "i < length (threads s)")
    case True
    have L: "L = handler_locks (ps_handler s i)" using hold by simp
    have "L \<subseteq> locks_of (threads s ! i)"
      "\<And>j. j < length (threads s) \<Longrightarrow> j \<noteq> i \<Longrightarrow> handler_locks (ps_handler s j) \<inter> L = {}"
      using ok True unfolding handlers_ok_def L by blast+
    then show ?thesis
      using hold by (intro handlers_set [OF ok, of "H_Hold L" i]) (auto simp: threads_def)
  next
    case False
    then show ?thesis using ok hold by (auto simp: handlers_ok_def threads_def)
  qed
next
  case (leave i L)
  then show ?thesis
    by (intro handlers_set [OF ok, of H_None i]) (auto simp: threads_def)
qed (use ok in \<open>auto simp: handlers_ok_def threads_def\<close>)

lemma pstep_reach: "pstep s e s' \<Longrightarrow> reach n (ps_pool s) \<Longrightarrow> reach n (ps_pool s')"
  by (cases rule: pstep.cases, assumption) (auto intro: reach.by_worker reach.by_main)

lemma pruns_keep:
  "pruns s es s' \<Longrightarrow> reach n (ps_pool s) \<Longrightarrow> handlers_ok s \<Longrightarrow> reach n (ps_pool s') \<and> handlers_ok s'"
  by (induction rule: pruns.induct) (auto intro: pstep_reach pstep_handlers)

lemma preach_ok: "preach n s \<Longrightarrow> reach n (ps_pool s) \<and> handlers_ok s"
  using pruns_keep [of "unpaused p" for p] reach.init
  by (fastforce simp: preach_def unpaused_def handlers_ok_def)

lemma worker_in: "worker p i p' \<Longrightarrow> i < length (pcs p)"
  by (cases rule: worker.cases, assumption) (auto simp: at_pc_def)

lemma main_pulled: "main p e p' \<Longrightarrow> pulled p' = pulled p \<and> finished p' = finished p"
  by (cases rule: main.cases, assumption) auto

text \<open>C32: Pausing is safe for the pool.  Whatever signals are sent, delivered and held up, inside
  or outside of critical sections, the pool only goes through states that it reaches without
  them, so all that is shown of those still holds; \<open>thpool_pause\<close> signals only threads that live;
  no mutex is kept by two held threads; and while every thread is held, no job is started or
  finished.\<close>

theorem pause_keeps_pool:
  assumes "preach n s"
  shows "reach n (ps_pool s)
    \<and> (\<forall>k s'. pstep s (P_Kill k) s' \<longrightarrow> k < length (threads s) \<and> living (threads s ! k))
    \<and> (\<forall>i j. i < length (threads s) \<longrightarrow> j < length (threads s) \<longrightarrow> i \<noteq> j \<longrightarrow>
         handler_locks (ps_handler s i) \<inter> handler_locks (ps_handler s j) = {})
    \<and> ((\<forall>i < length (threads s). ps_handler s i \<noteq> H_None) \<longrightarrow>
         (\<forall>e s'. pstep s e s' \<longrightarrow> pulled (ps_pool s') = pulled (ps_pool s)
            \<and> finished (ps_pool s') = finished (ps_pool s)))"
proof -
  have r: "reach n (ps_pool s)" and h: "handlers_ok s" using preach_ok [OF assms] by auto
  have kill: "k < length (threads s) \<and> living (threads s ! k)" if "pstep s (P_Kill k) s'" for k s'
  proof -
    from that have k: "ps_next s = Some k" "int k < num_alive (ps_pool s)" by (auto elim: pkillE)
    then have "owner (ps_pool s) = M_Idle" using h by (simp add: handlers_ok_def)
    moreover have "k < length (pcs (ps_pool s))"
      using k(2) reach_ok [OF r] cnt_le [of living "pcs (ps_pool s)"] by (auto simp: pool_ok_def counts_ok_def)
    ultimately show ?thesis using idle_all_living [OF r] by (simp add: threads_def)
  qed
  have still: "pulled (ps_pool s') = pulled (ps_pool s) \<and> finished (ps_pool s') = finished (ps_pool s)"
    if "\<forall>i < length (threads s). ps_handler s i \<noteq> H_None" "pstep s e s'" for e s'
    using that(2)
  proof (cases rule: pstep.cases)
    case (thread i p')
    then show ?thesis using worker_in [OF thread(3)] that(1) by (simp add: threads_def)
  next
    case (owner e p')
    then show ?thesis using main_pulled [OF owner(3)] by simp
  qed simp_all
  from r h kill still show ?thesis unfolding handlers_ok_def by blast
qed

subsection \<open>A thread that is held stays held\<close>

definition held :: "nat \<Rightarrow> mutex set \<Rightarrow> ppool \<Rightarrow> bool" where
  "held i L s \<longleftrightarrow> i < length (threads s) \<and> ps_handler s i = H_Hold L \<and> on_hold s \<and> living (threads s ! i)"

lemma stays_living: "stays_or_wakes c d \<Longrightarrow> living c \<Longrightarrow> living d"
  by (auto simp: stays_or_wakes_def)

lemma held_stays:
  assumes "pstep s e s'" and h: "held i L s" and "e \<noteq> P_Resume"
  shows "held i L s' \<and> e \<noteq> P_Thread i"
  using assms(1)
proof (cases rule: pstep.cases)
  case (thread j p')
  then have "i \<noteq> j" using h by (auto simp: held_def)
  then have "living (pcs p' ! i)"
    using worker_others [OF thread(3)] h stays_living by (auto simp: held_def threads_def)
  then show ?thesis using thread h \<open>i \<noteq> j\<close> worker_length [OF thread(3)] by (simp add: held_def threads_def)
next
  case (owner e p')
  then have "living (pcs p' ! i)"
    using main_others [OF owner(3), of i] h stays_living by (auto simp: held_def threads_def)
  then show ?thesis using owner h main_length [OF owner(3)] by (simp add: held_def threads_def)
qed (use h assms(3) in \<open>auto simp: held_def threads_def\<close>)

lemma held_blocks:
  assumes "pstep s (P_Main e) s'" and h: "held i L s" and r: "reach n (ps_pool s)"
  shows "e \<noteq> E_Clear \<and> event_locks e \<inter> L = {}"
proof -
  from assms(1) have m: "\<exists>p'. main (ps_pool s) e p'" and f: "free_locks s (event_locks e)"
    by (auto elim: pmainE)
  have "0 < cnt living (pcs (ps_pool s))" using h by (auto simp: held_def threads_def cnt_pos)
  then have "num_alive (ps_pool s) \<noteq> 0" using reach_ok [OF r] by (simp add: pool_ok_def counts_ok_def)
  then have "e \<noteq> E_Clear" using m by (auto elim: mainE)
  moreover have "handler_locks (ps_handler s i) \<inter> event_locks e = {}" 
    using f h unfolding free_locks_def held_def by blast
  ultimately show ?thesis using h by (auto simp: held_def)
qed

lemma held_run:
  assumes "pruns s es s'" and "held i L s" and "reach n (ps_pool s)" and "P_Resume \<notin> set es"
  shows "held i L s' \<and> reach n (ps_pool s') \<and> P_Thread i \<notin> set es
    \<and> (\<forall>e. P_Main e \<in> set es \<longrightarrow> e \<noteq> E_Clear \<and> event_locks e \<inter> L = {})"
  using assms
proof (induction rule: pruns.induct)
  case (more s es s' e s'')
  then have IH: "held i L s'" "reach n (ps_pool s')" "P_Thread i \<notin> set es"
      "\<forall>e. P_Main e \<in> set es \<longrightarrow> e \<noteq> E_Clear \<and> event_locks e \<inter> L = {}"
    and ne: "e \<noteq> P_Resume" by auto
  from held_stays [OF more.hyps(2) IH(1) ne] pstep_reach [OF more.hyps(2) IH(2)]
    held_blocks [OF _ IH(1,2)] more.hyps(2) IH(3,4)
  show ?case by auto
qed simp

subsection \<open>A run that pauses\<close>

lemma pruns_append: "pruns s es s1 \<Longrightarrow> pruns s1 fs s2 \<Longrightarrow> pruns s (es @ fs) s2"
proof (rotate_tac, induction rule: pruns.induct)
  case (more s1 fs s' e s'')
  then show ?case using pruns.more [of s "es @ fs" s' e s''] by simp
qed simp

lemma pruns_one: "pstep s e s' \<Longrightarrow> pruns s [e] s'"
  using pruns.more [OF pruns.none, of s e s'] by simp

lemma free_unpaused: "free_locks (unpaused p) L"
  by (simp add: free_locks_def unpaused_def)

lemma run_started:
  assumes "k \<le> N"
  shows "pruns (unpaused (ex_pool 0 (replicate N T_Start) M_Init)) (map P_Thread [0..<k])
    (unpaused (ex_pool (int k) (replicate k T_Loop @ replicate (N - k) T_Start) M_Init))"
  using assms
proof (induction k)
  case (Suc k)
  let ?p = "ex_pool (int k) (replicate k T_Loop @ replicate (N - k) T_Start) M_Init"
  let ?p' = "ex_pool (int (Suc k)) (replicate (Suc k) T_Loop @ replicate (N - Suc k) T_Start) M_Init"
  have "N - k = Suc (N - Suc k)" using Suc.prems by simp
  then have at: "at_pc ?p k T_Start" and p': "goto k T_Loop (?p\<lparr>num_alive := num_alive ?p + 1\<rparr>) = ?p'"
    by (auto simp: at_pc_def goto_def ex_pool_def nth_append list_update_append replicate_app_Cons_same)
  have "lock_free ?p" by (auto simp: lock_free_def ex_pool_def)
  then have "worker ?p k ?p'" using worker.start [OF at] by (simp only: p')
  then have "pstep (unpaused ?p) (P_Thread k) (unpaused ?p')"
    using pstep.thread [of "unpaused ?p" k ?p'] free_unpaused by (simp add: unpaused_def)
  with pruns.more [OF Suc.IH this] Suc.prems show ?case by simp
qed (simp add: pruns.none)

lemma run_idle:
  "pruns (unpaused (ex_pool 0 (replicate N T_Start) M_Init)) (map P_Thread [0..<N] @ [P_Main E_Ready])
    (unpaused (ex_pool (int N) (replicate N T_Loop) M_Idle))"
proof -
  let ?p = "ex_pool (int N) (replicate N T_Loop) M_Init"
  have "main ?p E_Ready (?p\<lparr>owner := M_Idle\<rparr>)" by (rule main.ready) (simp_all add: ex_pool_def)
  then have "pstep (unpaused ?p) (P_Main E_Ready) (unpaused (?p\<lparr>owner := M_Idle\<rparr>))"
    using pstep.owner [of "unpaused ?p" E_Ready] free_unpaused by (simp add: unpaused_def)
  with run_started [of N N] show ?thesis
    using pruns.more by (simp add: ex_pool_def)
qed

lemma run_kills:
  assumes "num_alive (ps_pool s) = int N" and "ps_next s = Some 0" and "k \<le> N"
  shows "pruns s (map P_Kill [0..<k]) (s\<lparr>ps_sigs := ps_sigs s \<union> {0..<k}, ps_next := Some k\<rparr>)"
  using assms(3)
proof (induction k)
  case 0
  have "s\<lparr>ps_next := Some 0\<rparr> = s" using assms(2) by (cases s) simp
  then show ?case by (simp add: pruns.none)
next
  case (Suc k)
  let ?s = "s\<lparr>ps_sigs := ps_sigs s \<union> {0..<k}, ps_next := Some k\<rparr>"
  have "pstep ?s (P_Kill k) (?s\<lparr>ps_sigs := insert k (ps_sigs ?s), ps_next := Some (k + 1)\<rparr>)"
    using Suc.prems assms(1) by (intro pstep.kill) simp_all
  with pruns.more [OF Suc.IH] Suc.prems show ?case by (simp add: atLeast0_lessThan_Suc)
qed

text \<open>The events of \<open>thpool_pause\<close> with \<open>N\<close> threads.\<close>

definition pause_events :: "nat \<Rightarrow> pevent list" where
  "pause_events N = P_Pause # map P_Kill [0..<N] @ [P_Paused]"

lemma run_pause:
  assumes "num_alive (ps_pool s) = int N" and "ps_next s = None" and "owner (ps_pool s) = M_Idle"
  shows "pruns s (pause_events N) (s\<lparr>ps_sigs := ps_sigs s \<union> {0..<N}, ps_next := None\<rparr>)"
proof -
  let ?s = "s\<lparr>ps_next := Some 0\<rparr>"
  have "pruns s [P_Pause] ?s" by (rule pruns_one [OF pstep.pause [OF assms(3,2)]])
  from pruns_append [OF this run_kills [of ?s N N]] assms(1)
  have "pruns s ([P_Pause] @ map P_Kill [0..<N]) (?s\<lparr>ps_sigs := ps_sigs s \<union> {0..<N}, ps_next := Some N\<rparr>)" by simp
  from pruns.more [OF this pstep.paused [of _ N]] assms(1) show ?thesis by (simp add: pause_events_def)
qed

lemma init_pool: "thpool_init True True True n = Some (ex_pool 0 (replicate (nat n) T_Start) M_Init)"
  by (simp add: thpool_init_def jobqueue_init_def bsem_init_def ex_pool_def)

text \<open>A pause in an idle state, and what it leaves.\<close>

definition paused_pool :: "nat \<Rightarrow> tpc list \<Rightarrow> ppool" where
  "paused_pool N cs = (unpaused (ex_pool (int N) cs M_Idle))\<lparr>ps_sigs := {0..<N}\<rparr>"

lemma run_paused:
  "pruns (unpaused (ex_pool (int N) cs M_Idle)) (pause_events N) (paused_pool N cs)"
  using run_pause [of "unpaused (ex_pool (int N) cs M_Idle)" N]
  by (simp add: unpaused_def ex_pool_def paused_pool_def)

text \<open>The first thread takes its signal, with the mutexes \<open>L\<close>, and is held.\<close>

lemma run_held:
  assumes "0 < N" and "length cs = N" and "living (cs ! 0)" and "L \<subseteq> locks_of (cs ! 0)"
  shows "\<exists>s. pruns (paused_pool N cs) [P_Handler 0, P_Handler 0] s \<and> held 0 L s"
proof -
  let ?s = "paused_pool N cs"
  let ?s1 = "?s\<lparr>ps_sigs := ps_sigs ?s - {0}, ps_handler := (ps_handler ?s)(0 := H_Enter L)\<rparr>"
  let ?s2 = "?s1\<lparr>on_hold := True, ps_handler := (ps_handler ?s1)(0 := H_Hold L)\<rparr>"
  have "pstep ?s (P_Handler 0) ?s1"
    by (rule pstep.enter)
      (use assms in \<open>auto simp: paused_pool_def unpaused_def threads_def ex_pool_def free_locks_def living_def\<close>)
  moreover have "pstep ?s1 (P_Handler 0) ?s2" by (rule pstep.hold) simp
  ultimately have "pruns ?s ([P_Handler 0] @ [P_Handler 0]) ?s2" by (blast intro: pruns_one pruns_append)
  moreover have "held 0 L ?s2"
    using assms by (simp add: held_def paused_pool_def unpaused_def threads_def ex_pool_def)
  ultimately show ?thesis by (intro exI [of _ ?s2]) simp
qed

text \<open>A resume before any thread has taken its signal changes nothing.\<close>

lemma run_resume: "pruns (paused_pool N cs) [P_Resume] (paused_pool N cs)"
  using pruns_one [OF pstep.resume, of "paused_pool N cs"]
  by (simp add: paused_pool_def unpaused_def ex_pool_def)

definition started_events :: "nat \<Rightarrow> pevent list" where
  "started_events N = map P_Thread [0..<N] @ [P_Main E_Ready]"

lemma run_to_hold:
  assumes "0 < n" and "pruns (unpaused (ex_pool (int (nat n)) (replicate (nat n) T_Loop) M_Idle)) es s" and "held 0 L s"
  shows "\<exists>p. thpool_init True True True n = Some p \<and> pruns (unpaused p) (started_events (nat n) @ es) s
    \<and> (\<forall>es' s'. pruns s es' s' \<longrightarrow> P_Resume \<notin> set es' \<longrightarrow> held 0 L s' \<and> P_Thread 0 \<notin> set es'
        \<and> (\<forall>e. P_Main e \<in> set es' \<longrightarrow> e \<noteq> E_Clear \<and> event_locks e \<inter> L = {}))"
proof -
  let ?p = "ex_pool 0 (replicate (nat n) T_Start) M_Init"
  have run: "pruns (unpaused ?p) (started_events (nat n) @ es) s"
    unfolding started_events_def by (rule pruns_append [OF run_idle assms(2)])
  then have "preach n s" using init_pool by (auto simp: preach_def)
  from held_run [OF _ assms(3)] preach_ok [OF this] run init_pool show ?thesis by blast
qed

text \<open>C33: A pause that is resumed can last for ever.  \<open>thpool_resume\<close> clears the flag once, but a
  thread sets it when it takes the signal, which can be later: after a start, \<open>thpool_pause\<close> and
  \<open>thpool_resume\<close>, the first thread takes its signal, and from then on, whatever happens without a
  second resume, it never takes another step, and \<open>thpool_destroy\<close> never gets past its loops.\<close>

theorem resume_lost:
  assumes "0 < n"
  shows "\<exists>p s. thpool_init True True True n = Some p
    \<and> pruns (unpaused p) (started_events (nat n) @ pause_events (nat n) @ [P_Resume, P_Handler 0, P_Handler 0]) s
    \<and> (\<forall>es' s'. pruns s es' s' \<longrightarrow> P_Resume \<notin> set es' \<longrightarrow>
         ps_handler s' 0 = H_Hold {} \<and> P_Thread 0 \<notin> set es' \<and> P_Main E_Clear \<notin> set es')"
proof -
  let ?cs = "replicate (nat n) T_Loop"
  from run_held [of "nat n" ?cs "{}"] assms obtain s
    where s: "pruns (paused_pool (nat n) ?cs) [P_Handler 0, P_Handler 0] s" "held 0 {} s" by auto
  have "pruns (unpaused (ex_pool (int (nat n)) ?cs M_Idle)) (pause_events (nat n) @ [P_Resume] @ [P_Handler 0, P_Handler 0]) s"
    by (rule pruns_append [OF run_paused pruns_append [OF run_resume s(1)]])
  from run_to_hold [OF assms this s(2)] show ?thesis by (fastforce simp: held_def)
qed

lemma resume_lost_witness:
  "\<exists>p s. thpool_init True True True 2 = Some p
    \<and> pruns (unpaused p) (started_events (nat 2) @ pause_events (nat 2) @ [P_Resume, P_Handler 0, P_Handler 0]) s
    \<and> (\<forall>es' s'. pruns s es' s' \<longrightarrow> P_Resume \<notin> set es' \<longrightarrow>
         ps_handler s' 0 = H_Hold {} \<and> P_Thread 0 \<notin> set es' \<and> P_Main E_Clear \<notin> set es')"
  by (rule resume_lost) simp

text \<open>While the pool is paused, new work can be shut out, against what \<open>thpool.h\<close> says: a thread
  that is paused inside of \<open>bsem_wait\<close> keeps the mutex of the semaphore, and until the next resume
  no call of \<open>thpool_add_work\<close> returns.\<close>

theorem pause_blocks_add:
  assumes "0 < n"
  shows "\<exists>p s. thpool_init True True True n = Some p
    \<and> pruns (unpaused p) (started_events (nat n) @ [P_Thread 0] @ pause_events (nat n) @ [P_Handler 0, P_Handler 0]) s
    \<and> (\<forall>es' s' w. pruns s es' s' \<longrightarrow> P_Resume \<notin> set es' \<longrightarrow> P_Main (E_Add w) \<notin> set es')"
proof -
  let ?p = "ex_pool (int (nat n)) (replicate (nat n) T_Loop) M_Idle" and ?cs = "(replicate (nat n) T_Loop)[0 := T_Wait]"
  have "at_pc ?p 0 T_Loop" using assms by (simp add: at_pc_def ex_pool_def)
  then have "worker ?p 0 (ex_pool (int (nat n)) ?cs M_Idle)"
    using worker.loop [of ?p 0] by (simp add: ex_pool_def goto_def)
  then have w: "pruns (unpaused ?p) [P_Thread 0] (unpaused (ex_pool (int (nat n)) ?cs M_Idle))"
    using pruns_one [OF pstep.thread [of "unpaused ?p" 0]] free_unpaused by (simp add: unpaused_def)
  from run_held [of "nat n" ?cs "{Bsem_Mutex}"] assms obtain s
    where s: "pruns (paused_pool (nat n) ?cs) [P_Handler 0, P_Handler 0] s" "held 0 {Bsem_Mutex} s" by auto
  have "pruns (unpaused ?p) ([P_Thread 0] @ pause_events (nat n) @ [P_Handler 0, P_Handler 0]) s"
    by (rule pruns_append [OF w pruns_append [OF run_paused s(1)]])
  from run_to_hold [OF assms this s(2)] show ?thesis by fastforce
qed

lemma pause_blocks_add_witness:
  "\<exists>p s. thpool_init True True True 2 = Some p
    \<and> pruns (unpaused p) (started_events (nat 2) @ [P_Thread 0] @ pause_events (nat 2) @ [P_Handler 0, P_Handler 0]) s
    \<and> (\<forall>es' s' w. pruns s es' s' \<longrightarrow> P_Resume \<notin> set es' \<longrightarrow> P_Main (E_Add w) \<notin> set es')"
  by (rule pause_blocks_add) simp

lemma pause_keeps_pool_witness:
  "\<exists>s. preach 2 s \<and> held 0 {} s \<and> reach 2 (ps_pool s)"
proof -
  let ?cs = "replicate (nat 2) T_Loop"
  from run_held [of "nat 2" ?cs "{}"] obtain s
    where s: "pruns (paused_pool (nat 2) ?cs) [P_Handler 0, P_Handler 0] s" "held 0 {} s" by auto
  from run_to_hold [OF _ pruns_append [OF run_paused s(1)] s(2)] have "preach 2 s"
    by (auto simp: preach_def)
  with s(2) pause_keeps_pool [OF this] show ?thesis by blast
qed

end
