(* ===== verification/Silk_Others.thy ===== *)
theory Silk_Others
  imports Silk_Auth
begin

section \<open>The calls of other sessions (socks.c, cache.c, hashtbl.c)\<close>

text \<open>
  A session shares the tables with the sessions of the other worker threads.  What those do to
  the tables between two calls of this session is a sequence of calls of the same operations,
  each a single step because it holds the mutex of its table.  Every such sequence keeps the
  tables well formed, and the password cache coherent with the data base, so that it meets the
  conditions that the theorems on sessions put on their environment.  Each call has answers of
  its own for the copies of strings it makes.
\<close>

datatype table_call =
    C_app_get cstr
  | C_app_put copying cstr cstr
  | C_ip_get u32
  | C_ip_put copying u32 cptr cptr
  | C_dns_get cstr int
  | C_dns_put cstr "byte list" int int int

text \<open>
  The effect of a call; the lookups in the two caches change nothing.  A call that faults ends
  the program; to leave the table as it was only adds runs that the program does not have.
\<close>

definition updated :: "'a \<Rightarrow> c_fault + 'a \<Rightarrow> 'a" where
  "updated old r = (case r of Inl _ \<Rightarrow> old | Inr new \<Rightarrow> new)"

fun table_effect :: "(nat \<Rightarrow> bool) \<Rightarrow> table_call \<Rightarrow> tables \<Rightarrow> tables" where
  "table_effect mem (C_app_get u) t = t"
| "table_effect mem (C_ip_get k) t = t"
| "table_effect mem (C_app_put cp u p) (i, a, d) = (i, updated a (cache_putapp mem cp a u (Some p)), d)"
| "table_effect mem (C_ip_put cp k u p) (i, a, d) = (updated i (cache_putip mem cp i k u p), a, d)"
| "table_effect mem (C_dns_get n now) (i, a, d) = (i, a, updated d (map_sum id fst (hashtbl_get d n now)))"
| "table_effect mem (C_dns_put n v ex t1 t2) (i, a, d) =
     (i, a, updated d (map_sum id fst (hashtbl_put d n v ex t1 t2)))"

text \<open>
  The calls that sessions make: passwords from the data base, addresses of four bytes, and, when
  copies succeed, no NULL strings.
\<close>

fun call_ok :: "bool \<Rightarrow> (cstr \<Rightarrow> cstr option) \<Rightarrow> table_call \<Rightarrow> bool" where
  "call_ok enough passwords (C_app_put cp u p) = (passwords u = Some p \<and> (enough \<longrightarrow> cp = (\<lambda>_. True)))"
| "call_ok enough passwords (C_ip_put cp k u p) = (enough \<longrightarrow> cp = (\<lambda>_. True) \<and> u \<noteq> None \<and> p \<noteq> None)"
| "call_ok enough passwords (C_dns_put n v ex t1 t2) = (t1 \<le> t2 \<and> length v = 4)"
| "call_ok enough passwords _ = True"

definition among_others :: "bool \<Rightarrow> env \<Rightarrow> (point \<Rightarrow> table_call list) \<Rightarrow> bool" where
  "among_others enough e cs \<longleftrightarrow>
     (\<forall>p t. others e p t = fold (table_effect (alloc e)) (cs p) t)
     \<and> (\<forall>p. list_all (call_ok enough (sql_app e)) (cs p))"

lemma effect_tabs_ok: "tabs_ok enough t \<Longrightarrow> call_ok enough db c \<Longrightarrow> tabs_ok enough (table_effect mem c t)"
proof (induction mem c t rule: table_effect.induct)
  case (3 mem cp u p i a d)
  then show ?case
    using putapp_sound [where c = a and alloc = mem and dup = cp and a = u and p = p]
    by (auto simp: tabs_ok_def updated_def split: sum.splits)
next
  case (4 mem cp k u p i a d)
  then show ?case
    using putip_sound [where c = i and alloc = mem and dup = cp and k = k and user = u and passwd = p]
    by (auto simp: tabs_ok_def updated_def split: sum.splits)
next
  case (5 mem n now i a d)
  then show ?case using dnsv.get_total [of d n now] by (auto simp: tabs_ok_def updated_def)
next
  case (6 mem n v ex t1 t2 i a d)
  then show ?case using dnsv.put_law [of d t1 t2 v n ex] by (auto simp: tabs_ok_def updated_def)
qed simp_all

lemma effect_coherent:
  "app_coherent e (fst (snd t)) \<Longrightarrow> call_ok enough (sql_app e) c \<Longrightarrow> app_coherent e (fst (snd (table_effect mem c t)))"
proof (induction mem c t rule: table_effect.induct)
  case (3 mem cp u p i a d)
  then show ?case using coherent_put [of e a u p mem cp] by (auto simp: updated_def split: sum.splits)
qed simp_all

lemma fold_keeps:
  "(\<And>c t. c \<in> set cs \<Longrightarrow> P t \<Longrightarrow> P (f c t)) \<Longrightarrow> P t \<Longrightarrow> P (fold f cs t)"
  by (induction cs arbitrary: t) auto

lemma among_others_ok:
  assumes "among_others enough e cs"
  shows "honest e" and "tabs_ok enough t \<Longrightarrow> tabs_ok enough (others e p t)"
proof -
  have o: "others e p t = fold (table_effect (alloc e)) (cs p) t" for p t
    using assms unfolding among_others_def by blast
  have ok: "c \<in> set (cs p) \<Longrightarrow> call_ok enough (sql_app e) c" for c p
    using assms by (simp add: among_others_def list_all_iff)
  show "tabs_ok enough t \<Longrightarrow> tabs_ok enough (others e p t)"
    unfolding o by (rule fold_keeps) (auto intro: effect_tabs_ok ok)
  show "honest e"
    unfolding honest_def
  proof (intro allI impI)
    fix p i a d assume a: "app_coherent e a"
    show "app_coherent e (fst (snd (others e p (i, a, d))))"
      unfolding o
      by (rule fold_keeps [where P = "\<lambda>t. app_coherent e (fst (snd t))"]) (use a in \<open>auto intro: effect_coherent ok\<close>)
  qed
qed

text \<open>The conditions on the clock and the resolver are all that is left.\<close>

lemma among_others_env:
  assumes "among_others enough e cs" and "enough \<longrightarrow> plenty e" and "t_check e \<le> t_put e" and "\<And>n a. resolve e n = Some a \<Longrightarrow> length a = 4"
  shows "env_ok enough e"
  using assms among_others_ok(2) [OF assms(1)] by (auto simp: env_ok_def)

end
