(* ===== verification/Silk_Db.thy ===== *)
theory Silk_Db
  imports Silk_Login
begin

section \<open>Access to the data base (db.c)\<close>

text \<open>
  The calls of db.c into the ODBC library.  The library is not part of the program: a script
  says what it returns, one answer per call, and a script that is used up answers with an
  error; \<open>row\<close> is the contents of a column after a fetch, given the name of the column and the
  parameters bound.  The model counts the handles of each kind that the library has given out and
  not got back, and logs the calls.  The flags named \<open>memory\<close> say whether the copies of strings
  succeed, which the code does not look at.
\<close>

datatype sqlret = SQL_SUCCESS | SQL_SUCCESS_WITH_INFO | SQL_NO_DATA | SQL_ERROR

definition SQL_SUCCEEDED :: "sqlret \<Rightarrow> bool" where
  "SQL_SUCCEEDED r \<longleftrightarrow> r = SQL_SUCCESS \<or> r = SQL_SUCCESS_WITH_INFO"

text \<open>The length of a string as \<open>SQLConnect\<close> is given it: 0 for NULL, and cast to \<open>SQLSMALLINT\<close>.\<close>

definition sql_len :: "cptr \<Rightarrow> int" where
  "sql_len s = (case s of None \<Rightarrow> 0 | Some t \<Rightarrow> sint (of_nat (length t) :: 16 word))"

lemma sql_len_exact: "length t < 32768 \<Longrightarrow> sql_len (Some t) = int (length t)"
  unfolding sql_len_def option.case signed_of_nat by (simp add: signed_take_bit_int_eq_self)

datatype sql_call =
    AllocEnv | SetEnvAttr | AllocDbc | SetConnectAttr
  | Connect "cptr \<times> int" "cptr \<times> int" "cptr \<times> int"
  | Disconnect | FreeDbc | FreeEnv
  | AllocStmt | BindCol nat | BindParameter nat | ExecDirect | Fetch | FreeStmt

record db =
  henv :: bool
  hdbc :: bool
  live_env :: nat
  live_dbc :: nat
  live_stmt :: nat
  answers :: "sqlret list"
  calls :: "sql_call list"

definition sql_log :: "sql_call \<Rightarrow> db \<Rightarrow> db" where
  "sql_log c d = d\<lparr>calls := calls d @ [c]\<rparr>"

text \<open>A call whose return value the program looks at.\<close>

definition sql_ask :: "sql_call \<Rightarrow> db \<Rightarrow> sqlret \<times> db" where
  "sql_ask c d =
     (let d1 = sql_log c d
      in case answers d1 of
           [] \<Rightarrow> (SQL_ERROR, d1)
         | r # rs \<Rightarrow> (r, d1\<lparr>answers := rs\<rparr>))"

subsection \<open>Connecting\<close>

definition free_dbc :: "db \<Rightarrow> db" where
  "free_dbc d = (sql_log FreeDbc d)\<lparr>live_dbc := live_dbc d - 1, hdbc := False\<rparr>"

definition free_env :: "db \<Rightarrow> db" where
  "free_env d = (sql_log FreeEnv d)\<lparr>live_env := live_env d - 1, henv := False\<rparr>"

definition sqlclose :: "db \<Rightarrow> db" where
  "sqlclose d =
     (let d1 = (if hdbc d then free_dbc (sql_log Disconnect d) else d)
      in if henv d1 then free_env d1 else d1)"

text \<open>The environment handle; the result says whether to go on.\<close>

definition sql_env :: "db \<Rightarrow> bool \<times> db" where
  "sql_env d =
     (if henv d then (True, d)
      else case sql_ask AllocEnv d of
             (r, d1) \<Rightarrow>
               if \<not> SQL_SUCCEEDED r then (False, d1\<lparr>henv := False\<rparr>)
               else
                 (case sql_ask SetEnvAttr (d1\<lparr>henv := True, live_env := live_env d1 + 1\<rparr>) of
                    (r', d2) \<Rightarrow> (SQL_SUCCEEDED r', d2)))"

definition sql_dbc :: "db \<Rightarrow> bool \<times> db" where
  "sql_dbc d =
     (if hdbc d then (True, d)
      else case sql_ask AllocDbc d of
             (r, d1) \<Rightarrow>
               if \<not> SQL_SUCCEEDED r then (False, free_env (d1\<lparr>hdbc := False\<rparr>))
               else (True, sql_log SetConnectAttr (d1\<lparr>hdbc := True, live_dbc := live_dbc d1 + 1\<rparr>)))"

text \<open>The three parts of the configuration line.\<close>

definition comma :: byte where
  "comma = 44"

definition strtok3 :: "cstr \<Rightarrow> cstr option \<times> cstr option \<times> cstr option" where
  "strtok3 s =
     (case strtok_r comma s of
        None \<Rightarrow> (None, None, None)
      | Some (a, s1) \<Rightarrow>
          (case strtok_r comma s1 of
             None \<Rightarrow> (Some a, None, None)
           | Some (b, s2) \<Rightarrow> (Some a, Some b, map_option fst (strtok_r comma s2))))"

definition with_len :: "cptr \<Rightarrow> cptr \<times> int" where
  "with_len s = (s, sql_len s)"

text \<open>
  The line is copied before it is cut up; without memory \<open>strtok\<close> starts at NULL.
\<close>

definition sql_connect :: "bool \<Rightarrow> cstr \<Rightarrow> db \<Rightarrow> c_fault + (int \<times> db)" where
  "sql_connect memory s d =
     (if \<not> memory then Inl Null_Deref
      else case strtok3 s of
        (None, _) \<Rightarrow> Inl Null_Deref
      | (Some datasource, username, password) \<Rightarrow>
          (case sql_ask (Connect (with_len (Some datasource)) (with_len username) (with_len password)) d of
             (r, d1) \<Rightarrow>
               if \<not> SQL_SUCCEEDED r then Inr (-1, free_env (free_dbc d1)) else Inr (0, d1)))"

definition sqlinit :: "bool \<Rightarrow> cptr \<Rightarrow> db \<Rightarrow> c_fault + (int \<times> db)" where
  "sqlinit memory s d =
     (case s of
        None \<Rightarrow> Inr (-1, d)
      | Some s' \<Rightarrow>
          (case sql_env (if hdbc d \<or> henv d then sqlclose d else d) of
             (ok, d1) \<Rightarrow>
               if \<not> ok then Inr (-1, d1)
               else
                 (case sql_dbc d1 of
                    (ok', d2) \<Rightarrow> if \<not> ok' then Inr (-1, d2) else sql_connect memory s' d2)))"

subsection \<open>Queries\<close>

text \<open>
  The calls between the allocation of a statement and the fetch: the first that does not
  succeed ends the query.
\<close>

fun sql_chain :: "sql_call list \<Rightarrow> db \<Rightarrow> bool \<times> db" where
  "sql_chain [] d = (True, d)"
| "sql_chain (c # cs) d =
     (case sql_ask c d of (r, d1) \<Rightarrow> if \<not> SQL_SUCCEEDED r then (False, d1) else sql_chain cs d1)"

text \<open>Freeing a statement; \<open>SQLFreeHandle\<close> does nothing for the null handle.\<close>

definition free_stmt :: "bool \<Rightarrow> db \<Rightarrow> db" where
  "free_stmt mystmt d =
     (if mystmt then (sql_log FreeStmt d)\<lparr>live_stmt := live_stmt d - 1\<rparr> else sql_log FreeStmt d)"

text \<open>A column is fetched into a buffer of 256 bytes.\<close>

definition column :: "byte list \<Rightarrow> cstr" where
  "column v = c_str (take 255 v)"

text \<open>What \<open>strdup\<close> gives for a column, which is never NULL itself.\<close>

definition copy_column :: "bool \<Rightarrow> byte list \<Rightarrow> cptr" where
  "copy_column memory v = (if memory then Some (column v) else None)"

definition sqlget_apppasswd :: "bool \<Rightarrow> (cstr \<Rightarrow> byte list) \<Rightarrow> cstr \<Rightarrow> db \<Rightarrow> cptr \<times> db" where
  "sqlget_apppasswd memory pass appuser d =
     (if \<not> henv d \<or> \<not> hdbc d then (None, d)
      else case sql_ask AllocStmt d of
             (r, d1) \<Rightarrow>
               if \<not> SQL_SUCCEEDED r then (None, free_stmt False d1)
               else
                 (case sql_chain [BindCol 1, BindParameter 1, ExecDirect, Fetch] (d1\<lparr>live_stmt := live_stmt d1 + 1\<rparr>) of
                    (ok, d2) \<Rightarrow>
                      if \<not> ok then (None, free_stmt True d2)
                      else (copy_column memory (pass appuser), free_stmt True d2)))"

text \<open>None is the return value -1; with 0, either string may be NULL.\<close>

definition sqlget_proxycreds ::
  "bool \<Rightarrow> bool \<Rightarrow> (u32 \<Rightarrow> u16 \<Rightarrow> byte list \<times> byte list) \<Rightarrow> u32 \<Rightarrow> u16 \<Rightarrow> db \<Rightarrow> (cptr \<times> cptr) option \<times> db"
where
  "sqlget_proxycreds memory memory' row ip port d =
     (if \<not> henv d \<or> \<not> hdbc d then (None, d)
      else case sql_ask AllocStmt d of
             (r, d1) \<Rightarrow>
               if \<not> SQL_SUCCEEDED r then (None, d1)
               else
                 (case sql_chain [BindCol 1, BindCol 2, BindParameter 1, BindParameter 2, BindParameter 3,
                                  ExecDirect, Fetch] (d1\<lparr>live_stmt := live_stmt d1 + 1\<rparr>) of
                    (ok, d2) \<Rightarrow>
                      if \<not> ok then (None, free_stmt True d2)
                      else (case row ip port of
                              (u, p) \<Rightarrow> (Some (copy_column memory u, copy_column memory' p), free_stmt True d2))))"

subsection \<open>No handle is lost\<close>

text \<open>The handles that are out are the ones the two global variables hold.\<close>

definition db_ok :: "db \<Rightarrow> bool" where
  "db_ok d \<longleftrightarrow> live_env d = of_bool (henv d) \<and> live_dbc d = of_bool (hdbc d) \<and> (hdbc d \<longrightarrow> henv d)"

definition handles :: "db \<Rightarrow> bool \<times> bool \<times> nat \<times> nat \<times> nat" where
  "handles d = (henv d, hdbc d, live_env d, live_dbc d, live_stmt d)"

named_theorems db_simps \<open>unfolding rules of the calls of db.c\<close>

lemmas [db_simps] = sql_log_def free_dbc_def free_env_def db_ok_def handles_def Let_def

lemma ask_handles [simp]: "handles (snd (sql_ask c d)) = handles d"
  by (simp add: sql_ask_def db_simps split: list.split)

lemma ask_eq:
  assumes "sql_ask c d = (r, d')"
  shows "henv d' = henv d" "hdbc d' = hdbc d" "live_env d' = live_env d" "live_dbc d' = live_dbc d"
    "live_stmt d' = live_stmt d" "calls d' = calls d @ [c]"
    "SQL_SUCCEEDED r \<longleftrightarrow> answers d \<noteq> [] \<and> SQL_SUCCEEDED (hd (answers d))" "answers d' = tl (answers d)"
  using assms by (auto simp: sql_ask_def db_simps SQL_SUCCEEDED_def split: list.splits)

lemma ask_all:
  "sql_ask c d = (r, d') \<Longrightarrow> henv d' = henv d \<and> hdbc d' = hdbc d \<and> live_env d' = live_env d
     \<and> live_dbc d' = live_dbc d \<and> live_stmt d' = live_stmt d"
  by (simp add: ask_eq)

lemma db_ok_close: "db_ok d \<Longrightarrow> db_ok (sqlclose d) \<and> \<not> henv (sqlclose d) \<and> \<not> hdbc (sqlclose d)
    \<and> live_stmt (sqlclose d) = live_stmt d"
  by (auto simp: sqlclose_def db_simps)

lemma sql_env_ok:
  assumes "db_ok d" and "\<not> hdbc d" and "sql_env d = (ok, d')"
  shows "db_ok d'" and "\<not> hdbc d'" and "ok \<longrightarrow> henv d'" and "live_stmt d' = live_stmt d"
  using assms by (auto simp: sql_env_def db_ok_def split: if_splits prod.splits dest!: ask_all)

lemma sql_dbc_ok:
  assumes "db_ok d" and "henv d" and "\<not> hdbc d" and "sql_dbc d = (ok, d')"
  shows "db_ok d'" and "ok \<longleftrightarrow> hdbc d'" and "live_stmt d' = live_stmt d"
  using assms by (auto simp: sql_dbc_def db_simps split: if_splits prod.splits dest!: ask_all)

lemma strtok3_parts:
  assumes "a \<noteq> []" "comma \<notin> set a" "u \<noteq> []" "comma \<notin> set u" "p \<noteq> []" "comma \<notin> set p"
  shows "strtok3 (a @ comma # u @ comma # p) = (Some a, Some u, Some p)"
  using assms by (simp add: strtok3_def strtok_r_token)

lemma sqlinit_cases:
  assumes "db_ok d" and "sqlinit memory (Some s) d = Inr (r, d')"
  shows "r \<in> {0, -1} \<and> db_ok d' \<and> live_stmt d' = live_stmt d \<and> (r = -1 \<longrightarrow> \<not> hdbc d')
    \<and> (r = 0 \<longrightarrow> hdbc d' \<and> (\<exists>a u p. strtok3 s = (Some a, u, p)
        \<and> last (calls d') = Connect (with_len (Some a)) (with_len u) (with_len p)))"
proof -
  let ?d = "if hdbc d \<or> henv d then sqlclose d else d"
  have d: "db_ok ?d" "\<not> hdbc ?d" "live_stmt ?d = live_stmt d"
    using db_ok_close [OF assms(1)] assms(1) by auto
  obtain ok d1 where e: "sql_env ?d = (ok, d1)" by (cases "sql_env ?d")
  note e' = sql_env_ok [OF d(1,2) e]
  show ?thesis
  proof (cases ok)
    case False
    with e e' d assms(2) show ?thesis by (simp add: sqlinit_def)
  next
    case True
    obtain ok' d2 where c: "sql_dbc d1 = (ok', d2)" by (cases "sql_dbc d1")
    note c' = sql_dbc_ok [OF e'(1) _ e'(2) c]
    show ?thesis
    proof (cases ok')
      case False
      with True e e' c c' d assms(2) show ?thesis by (simp add: sqlinit_def)
    next
      case ok': True
      with True e c assms(2) have "sql_connect memory s d2 = Inr (r, d')" by (simp add: sqlinit_def)
      then obtain a u p q d3 where k: "strtok3 s = (Some a, u, p)" "sql_ask (Connect (with_len (Some a)) (with_len u) (with_len p)) d2 = (q, d3)"
        and r: "(r, d') = (if \<not> SQL_SUCCEEDED q then (-1, free_env (free_dbc d3)) else (0, d3))"
        by (auto simp: sql_connect_def split: prod.splits option.splits if_splits)
      note k' = ask_eq [OF k(2)]
      show ?thesis
        using r k(1) c' e' True ok' k'(1-6) d(3) by (auto simp: db_simps split: if_splits)
    qed
  qed
qed

lemma sqlinit_faults: "fst (strtok3 s) \<noteq> None \<Longrightarrow> sqlinit memory (Some s) d = Inl f \<Longrightarrow> f = Null_Deref \<and> \<not> memory"
  by (auto simp: sqlinit_def sql_connect_def split: prod.splits option.splits if_splits)

lemma sqlinit_ok: "db_ok d \<Longrightarrow> sqlinit memory (Some s) d = Inr (r, d') \<Longrightarrow> r \<noteq> -1 \<Longrightarrow> db_ok d' \<and> hdbc d'"
  using sqlinit_cases by blast

text \<open>C40: Connecting: with a configuration line \<open>source,user,password\<close>, whatever the library
  answers, \<open>sqlinit\<close> faults only when the copy of the line finds no memory; else it returns 0 or
  -1 and the handles that are out are those in the global variables; it returns 0 only after a
  connection with exactly these three strings, and their lengths as far as a short int holds
  them, and after a failure no connection handle is left.\<close>

theorem db_connects:
  assumes "db_ok d"
    and "a \<noteq> []" "comma \<notin> set a" "u \<noteq> []" "comma \<notin> set u" "p \<noteq> []" "comma \<notin> set p"
  shows "case sqlinit memory (Some (a @ comma # u @ comma # p)) d of
      Inl f \<Rightarrow> f = Null_Deref \<and> \<not> memory
    | Inr (r, d') \<Rightarrow> r \<in> {0, -1} \<and> db_ok d' \<and> live_stmt d' = live_stmt d
        \<and> (r = 0 \<longrightarrow> hdbc d'
            \<and> last (calls d') = Connect (Some a, sql_len (Some a)) (Some u, sql_len (Some u)) (Some p, sql_len (Some p))
            \<and> (\<forall>t \<in> {a, u, p}. length t < 32768 \<longrightarrow> sql_len (Some t) = int (length t)))
        \<and> (r = -1 \<longrightarrow> \<not> hdbc d')"
proof -
  let ?s = "a @ comma # u @ comma # p"
  note t = strtok3_parts [OF assms(2-7)]
  show ?thesis
  proof (cases "sqlinit memory (Some ?s) d")
    case (Inl f)
    with sqlinit_faults [of ?s memory d f] t show ?thesis by simp
  next
    case (Inr rd)
    obtain r d' where rd: "rd = (r, d')" by (cases rd)
    have "\<forall>t \<in> {a, u, p}. length t < 32768 \<longrightarrow> sql_len (Some t) = int (length t)"
      by (simp add: sql_len_exact)
    with sqlinit_cases [OF assms(1) Inr [unfolded rd]] t Inr rd show ?thesis by (auto simp: with_len_def)
  qed
qed

definition db_new :: "sqlret list \<Rightarrow> db" where
  "db_new rs = \<lparr>henv = False, hdbc = False, live_env = 0, live_dbc = 0, live_stmt = 0, answers = rs, calls = []\<rparr>"

lemma db_connects_witness:
  "\<exists>r d'. sqlinit True (Some ([100] @ comma # [117] @ comma # [112])) (db_new [SQL_SUCCESS, SQL_SUCCESS, SQL_SUCCESS, SQL_ERROR])
      = Inr (r, d') \<and> r \<in> {0, -1} \<and> db_ok d' \<and> (r = -1 \<longrightarrow> \<not> hdbc d')"
proof -
  have "db_ok (db_new [SQL_SUCCESS, SQL_SUCCESS, SQL_SUCCESS, SQL_ERROR])" by (simp add: db_ok_def db_new_def)
  from db_connects [OF this, of "[100]" "[117]" "[112]" True] show ?thesis
    by (auto simp: comma_def split: sum.splits)
qed

lemma sql_chain_spec:
  "sql_chain cs d = (ok, d') \<Longrightarrow> handles d' = handles d
    \<and> (ok \<longleftrightarrow> length cs \<le> length (answers d) \<and> (\<forall>r \<in> set (take (length cs) (answers d)). SQL_SUCCEEDED r))"
proof (induction cs arbitrary: d)
  case (Cons c cs)
  obtain r d1 where a: "sql_ask c d = (r, d1)" by (cases "sql_ask c d")
  note a' = ask_eq [OF a]
  have h: "handles d1 = handles d" using a' by (simp add: handles_def)
  show ?case
  proof (cases "SQL_SUCCEEDED r")
    case True
    with Cons.prems a have "sql_chain cs d1 = (ok, d')" by simp
    from Cons.IH [OF this] True a'(7,8) h show ?thesis by (cases "answers d") auto
  next
    case False
    with Cons.prems a a'(7) h show ?thesis by (cases "answers d") auto
  qed
qed auto

text \<open>Queries: whatever the library answers, a query leaves every handle as it was, its own
  statement included; it yields a result exactly when the program is connected and every one of
  its calls succeeds, and then the columns of the row, cut at 255 bytes, with NULL
  for each that could not be copied.\<close>

theorem db_queries:
  "handles (snd (sqlget_apppasswd m pass appuser d)) = handles d
    \<and> handles (snd (sqlget_proxycreds m1 m2 row ip port d)) = handles d
    \<and> fst (sqlget_apppasswd m pass appuser d) =
        (if henv d \<and> hdbc d \<and> list_all SQL_SUCCEEDED (take 5 (answers d)) \<and> 5 \<le> length (answers d)
         then copy_column m (pass appuser) else None)
    \<and> fst (sqlget_proxycreds m1 m2 row ip port d) =
        (if henv d \<and> hdbc d \<and> list_all SQL_SUCCEEDED (take 8 (answers d)) \<and> 8 \<le> length (answers d)
         then Some (copy_column m1 (fst (row ip port)), copy_column m2 (snd (row ip port))) else None)"
proof -
  obtain r d1 where a: "sql_ask AllocStmt d = (r, d1)" by (cases "sql_ask AllocStmt d")
  note a' = ask_eq [OF a]
  let ?d = "d1\<lparr>live_stmt := live_stmt d1 + 1\<rparr>"
  let ?cs = "[BindCol 1, BindParameter 1, ExecDirect, Fetch]"
    and ?cs' = "[BindCol 1, BindCol 2, BindParameter 1, BindParameter 2, BindParameter 3, ExecDirect, Fetch]"
  obtain ok d2 where c: "sql_chain ?cs ?d = (ok, d2)" by (cases "sql_chain ?cs ?d")
  obtain ok' d2' where c': "sql_chain ?cs' ?d = (ok', d2')" by (cases "sql_chain ?cs' ?d")
  note s = sql_chain_spec [OF c] and s' = sql_chain_spec [OF c']
  have fr: "handles (free_stmt True d2) = handles d" "handles (free_stmt True d2') = handles d"
    using s s' a' by (auto simp: handles_def free_stmt_def sql_log_def)
  have fr0: "handles (free_stmt False d1) = handles d" "handles d1 = handles d"
    using a' by (auto simp: handles_def free_stmt_def sql_log_def)
  have five: "SQL_SUCCEEDED r \<and> ok \<longleftrightarrow> list_all SQL_SUCCEEDED (take 5 (answers d)) \<and> 5 \<le> length (answers d)"
    using a'(7,8) s by (cases "answers d") (auto simp: list_all_iff numeral_eq_Suc)
  have eight: "SQL_SUCCEEDED r \<and> ok' \<longleftrightarrow> list_all SQL_SUCCEEDED (take 8 (answers d)) \<and> 8 \<le> length (answers d)"
    using a'(7,8) s' by (cases "answers d") (auto simp: list_all_iff numeral_eq_Suc)
  show ?thesis
  proof (intro conjI)
    show "handles (snd (sqlget_apppasswd m pass appuser d)) = handles d"
      using a c fr fr0 by (auto simp: sqlget_apppasswd_def)
    show "handles (snd (sqlget_proxycreds m1 m2 row ip port d)) = handles d"
      using a c' fr fr0 by (auto simp: sqlget_proxycreds_def split: prod.split)
    show "fst (sqlget_apppasswd m pass appuser d) =
        (if henv d \<and> hdbc d \<and> list_all SQL_SUCCEEDED (take 5 (answers d)) \<and> 5 \<le> length (answers d)
         then copy_column m (pass appuser) else None)"
      using a c five by (auto simp: sqlget_apppasswd_def)
    show "fst (sqlget_proxycreds m1 m2 row ip port d) =
        (if henv d \<and> hdbc d \<and> list_all SQL_SUCCEEDED (take 8 (answers d)) \<and> 8 \<le> length (answers d)
         then Some (copy_column m1 (fst (row ip port)), copy_column m2 (snd (row ip port))) else None)"
      using a c' eight by (auto simp: sqlget_proxycreds_def split: prod.split)
  qed
qed

end
