(* ===== verification/Silk_Log.thy ===== *)
theory Silk_Log
  imports Silk_Login
begin

section \<open>Messages (error.c, error.h)\<close>

text \<open>
  How log lines are put together, with the sizes of the buffers: a write or read outside of a
  buffer is a fault.  The formatted text of a message, the text of errno, and what inet_ntop
  makes of an address are given.
\<close>

abbreviation chars :: "string \<Rightarrow> cstr" where
  "chars s \<equiv> map of_char s"

definition MAXLINE :: nat where
  "MAXLINE = 4096"

definition LOG_CRIT :: int where "LOG_CRIT = 2"
definition LOG_ERR :: int where "LOG_ERR = 3"
definition LOG_INFO :: int where "LOG_INFO = 6"
definition LOG_DEBUG :: int where "LOG_DEBUG = 7"

subsection \<open>Names of levels and of statuses\<close>

text \<open>
  Both functions guard the index with the size of the array in bytes, eight times its length.
\<close>

definition syslog_lvl :: "string list" where
  "syslog_lvl = [''emerg'', ''alert'', ''crit'', ''err'', ''warning'', ''notice'', ''info'', ''debug'', ''disabled'']"

definition syslog_lvl2str :: "int \<Rightarrow> c_fault + string" where
  "syslog_lvl2str level =
     (let i = (if level < 0 \<or> level > LOG_DEBUG then length syslog_lvl * 8 - 1 else nat level)
      in if i < length syslog_lvl then Inr (syslog_lvl ! i) else Inl Buffer_Overflow)"

definition socks5_strstatus :: "string list" where
  "socks5_strstatus =
     [''succeded'', ''general socks server failure'', ''connection not allowed by ruleset'',
      ''network unreachable'', ''host unreachable'', ''connection refused'', ''TTL expired'',
      ''command not supported'']"

definition socks5_status2str :: "int \<Rightarrow> c_fault + string" where
  "socks5_status2str status =
     (if status < 0 \<or> status \<ge> int (length socks5_strstatus * 8) then Inr ''xFF unassigned status''
      else if nat status < length socks5_strstatus then Inr (socks5_strstatus ! nat status)
      else Inl Buffer_Overflow)"

subsection \<open>Printing a line\<close>

datatype sink = Syslog int | Stderr

text \<open>\<open>snprintf\<close> with a size: at most one byte less is written.\<close>

definition snprintf :: "nat \<Rightarrow> cstr \<Rightarrow> cstr" where
  "snprintf sz text = take (sz - 1) text"

definition err_doit :: "bool \<Rightarrow> bool \<Rightarrow> int \<Rightarrow> cstr \<Rightarrow> cstr \<Rightarrow> c_fault + (sink \<times> cstr)" where
  "err_doit daemon_proc errnoflag level text errno_text =
     (let buf = snprintf MAXLINE text;
          n = length buf;
          buf' = (if errnoflag then buf @ snprintf (MAXLINE - n) (chars '': '' @ errno_text) else buf)
      in if MAXLINE + 1 < length buf' + 2 then Inl Buffer_Overflow
         else Inr (if daemon_proc then Syslog level else Stderr, buf' @ [10]))"

text \<open>The callers, with what they do after the message.\<close>

datatype ending = Returns | Exits | Aborts

type_synonym printed = "c_fault + (sink \<times> cstr)"

definition err_ret :: "bool \<Rightarrow> cstr \<Rightarrow> cstr \<Rightarrow> printed \<times> ending" where
  "err_ret dm text e = (err_doit dm True LOG_INFO text e, Returns)"

definition err_sys :: "bool \<Rightarrow> cstr \<Rightarrow> cstr \<Rightarrow> printed \<times> ending" where
  "err_sys dm text e = (err_doit dm True LOG_ERR text e, Exits)"

definition err_dump :: "bool \<Rightarrow> cstr \<Rightarrow> cstr \<Rightarrow> printed \<times> ending" where
  "err_dump dm text e = (err_doit dm True LOG_ERR text e, Aborts)"

definition err_msg :: "bool \<Rightarrow> cstr \<Rightarrow> cstr \<Rightarrow> printed \<times> ending" where
  "err_msg dm text e = (err_doit dm False LOG_INFO text e, Returns)"

definition err_quit :: "bool \<Rightarrow> cstr \<Rightarrow> cstr \<Rightarrow> printed \<times> ending" where
  "err_quit dm text e = (err_doit dm False LOG_ERR text e, Exits)"

definition log_doit :: "bool \<Rightarrow> bool \<Rightarrow> int \<Rightarrow> cstr \<Rightarrow> cstr \<Rightarrow> printed \<times> ending" where
  "log_doit dm errnoflag level text e = (err_doit dm errnoflag level text e, Returns)"

text \<open>
  The macros \<open>SILK_LOG\<close> (flag False) and \<open>SILK_LOG_ERRNO\<close> (flag True): a message of a level
  above the one chosen on the command line is not printed; the name of the level and of the
  function come first.
\<close>

definition SILK_LOG :: "bool \<Rightarrow> bool \<Rightarrow> int \<Rightarrow> int \<Rightarrow> string \<Rightarrow> cstr \<Rightarrow> cstr \<Rightarrow> printed option" where
  "SILK_LOG dm errnoflag silk_log_level lvl func text e =
     (if lvl \<le> silk_log_level
      then Some (case syslog_lvl2str lvl of
                   Inl f \<Rightarrow> Inl f
                 | Inr name \<Rightarrow> fst (log_doit dm errnoflag lvl (chars (name @ '' ['' @ func @ ''] '') @ text) e))
      else None)"

subsection \<open>Addresses in the thread's log buffer\<close>

definition INET6_ADDRSTRLEN :: nat where
  "INET6_ADDRSTRLEN = 46"

definition pad_left :: "nat \<Rightarrow> cstr \<Rightarrow> cstr" where
  "pad_left n s = replicate (n - length s) 32 @ s"

definition pad_right :: "nat \<Rightarrow> cstr \<Rightarrow> cstr" where
  "pad_right n s = s @ replicate (n - length s) 32"

text \<open>One end of a connection: the address, when inet_ntop knows the family, and the port.\<close>

definition end_text :: "cstr option \<times> u16 \<Rightarrow> c_fault + cstr" where
  "end_text ap =
     (case ap of
        (None, _) \<Rightarrow> Inr (chars ''(unconnected)'')
      | (Some a, port) \<Rightarrow>
          (let buf = a @ 58 # dec (unat port)
           in if INET6_ADDRSTRLEN + 6 < length buf + 1 then Inl Buffer_Overflow else Inr buf))"

definition addr2logbuf :: "cstr option \<times> u16 \<Rightarrow> cstr option \<times> u16 \<Rightarrow> c_fault + cstr" where
  "addr2logbuf cli_peer srv_peer =
     (case end_text cli_peer of
        Inl f \<Rightarrow> Inl f
      | Inr c \<Rightarrow>
          (case end_text srv_peer of
             Inl f \<Rightarrow> Inl f
           | Inr s \<Rightarrow>
               (let log_buf = pad_right 25 c @ [45] @ pad_left 25 s
                in if 256 < length log_buf + 1 then Inl Buffer_Overflow else Inr log_buf)))"

definition peer2logbuf :: "bool \<Rightarrow> cstr option \<times> u16 \<Rightarrow> cstr option" where
  "peer2logbuf getpeername_ok ap =
     (if \<not> getpeername_ok then None
      else case ap of
             (None, _) \<Rightarrow> None
           | (Some a, port) \<Rightarrow> Some (a @ snprintf (256 - length a) (58 # dec (unat port))))"

subsection \<open>The time stamp (gf_time.c)\<close>

text \<open>
  \<open>gf_time\<close>: the text of \<open>ctime\<close> from its twelfth byte on, cut after the seconds, and the
  microseconds with six digits.  The buffer is static, so all threads share it.
\<close>

definition gf_time :: "cstr \<Rightarrow> nat \<Rightarrow> c_fault + cstr" where
  "gf_time ctime tv_usec =
     (let str = drop 11 ctime
      in if length ctime < 11 \<or> 30 < length str + 1 then Inl Buffer_Overflow
         else Inr (take 8 str @ snprintf (30 - 8) (46 # replicate (6 - length (dec tv_usec)) 48 @ dec tv_usec)))"

text \<open>For \<open>ctime\<close> texts of 25 bytes, up to the year 9999, the stamp is \<open>hh:mm:ss.uuuuuu\<close>.\<close>

lemma gf_time_stamp:
  assumes "length ctime = 25" and "tv_usec < 1000000"
  shows "\<exists>stamp. gf_time ctime tv_usec = Inr stamp \<and> length stamp = 15 \<and> take 8 stamp = take 8 (drop 11 ctime)
    \<and> digits_val 0 (drop 9 stamp) = tv_usec"
proof -
  have z: "digits_val 0 (replicate k 48 @ s) = digits_val 0 s" for k s
    by (induction k) (simp_all add: isdigit_def digit_val_def)
  have "length (dec tv_usec) \<le> 6" using length_dec [of tv_usec 5] assms(2) by simp
  then show ?thesis
    using assms(1) by (simp add: gf_time_def snprintf_def Let_def z)
qed

subsection \<open>The buffers are large enough\<close>

lemma length_port: "length (dec (unat (p :: u16))) \<le> 5"
proof -
  have "unat p < 2 ^ 16" using unsigned_less [of p] by simp
  then have "unat p < 10 ^ Suc 4" by simp
  then show ?thesis using length_dec [of "unat p" 4] by simp
qed

lemma end_text_fits:
  assumes "\<And>a. fst ap = Some a \<Longrightarrow> length a < INET6_ADDRSTRLEN"
  shows "\<exists>t. end_text ap = Inr t \<and> length t \<le> 51"
proof (cases "fst ap")
  case None
  then show ?thesis by (cases ap) (auto simp: end_text_def)
next
  case (Some a)
  then show ?thesis
    using assms [OF Some] length_port [of "snd ap"]
    by (cases ap) (auto simp: end_text_def INET6_ADDRSTRLEN_def Let_def)
qed

lemma err_doit_line:
  "\<exists>line. err_doit dm errnoflag level text e = Inr (if dm then Syslog level else Stderr, line @ [10])
      \<and> length line < MAXLINE
      \<and> line = take (MAXLINE - 1) (if errnoflag then text @ chars '': '' @ e else text)"
  by (auto simp: err_doit_def snprintf_def MAXLINE_def Let_def min_def)

lemma addr2logbuf_fits:
  assumes "\<And>a. fst cli_peer = Some a \<Longrightarrow> length a < INET6_ADDRSTRLEN"
    and "\<And>a. fst srv_peer = Some a \<Longrightarrow> length a < INET6_ADDRSTRLEN"
  shows "\<exists>s. addr2logbuf cli_peer srv_peer = Inr s \<and> length s < 256"
proof -
  obtain c where c: "end_text cli_peer = Inr c" "length c \<le> 51" using end_text_fits [OF assms(1)] by blast
  obtain d where d: "end_text srv_peer = Inr d" "length d \<le> 51" using end_text_fits [OF assms(2)] by blast
  from c d show ?thesis by (simp add: addr2logbuf_def pad_left_def pad_right_def Let_def)
qed

lemma level_names:
  "syslog_lvl2str level = (if 0 \<le> level \<and> level \<le> 7 then Inr (syslog_lvl ! nat level) else Inl Buffer_Overflow)"
proof -
  have "nat level < length syslog_lvl" if "0 \<le> level" "level \<le> 7"
    using that by (simp add: syslog_lvl_def)
  moreover have "length syslog_lvl = 9" by (simp add: syslog_lvl_def)
  ultimately show ?thesis by (auto simp: syslog_lvl2str_def LOG_DEBUG_def Let_def)
qed

text \<open>No log buffer overflows: a message of any length, with or without the text of errno, is
  cut to a line of at most 4095 bytes and a newline, and is printed exactly when its level is not
  above the one chosen; and with addresses of the length inet_ntop gives, the two addresses of a
  session, with their ports, fit the buffers they are printed to.\<close>

theorem log_buffers_fit:
  assumes "0 \<le> lvl" and "lvl \<le> LOG_DEBUG"
    and "\<And>a. fst cli_peer = Some a \<Longrightarrow> length a < INET6_ADDRSTRLEN"
    and "\<And>a. fst srv_peer = Some a \<Longrightarrow> length a < INET6_ADDRSTRLEN"
  shows "(lvl \<le> verbosity \<longrightarrow> (\<exists>line. SILK_LOG dm errnoflag verbosity lvl func text e
            = Some (Inr (if dm then Syslog lvl else Stderr, line @ [10])) \<and> length line < MAXLINE
            \<and> line = take (MAXLINE - 1) (chars (syslog_lvl ! nat lvl @ '' ['' @ func @ ''] '') @ text
                @ (if errnoflag then chars '': '' @ e else []))))
    \<and> (verbosity < lvl \<longrightarrow> SILK_LOG dm errnoflag verbosity lvl func text e = None)
    \<and> (\<exists>s. addr2logbuf cli_peer srv_peer = Inr s \<and> length s < 256)
    \<and> (\<forall>s. peer2logbuf ok cli_peer = Some s \<longrightarrow> length s < 256)"
proof (intro conjI impI)
  assume v: "lvl \<le> verbosity"
  have n: "syslog_lvl2str lvl = Inr (syslog_lvl ! nat lvl)"
    using assms(1,2) by (simp add: level_names LOG_DEBUG_def)
  obtain line where "err_doit dm errnoflag lvl (chars (syslog_lvl ! nat lvl @ '' ['' @ func @ ''] '') @ text) e
        = Inr (if dm then Syslog lvl else Stderr, line @ [10])" "length line < MAXLINE"
      "line = take (MAXLINE - 1) (if errnoflag
          then (chars (syslog_lvl ! nat lvl @ '' ['' @ func @ ''] '') @ text) @ chars '': '' @ e
          else chars (syslog_lvl ! nat lvl @ '' ['' @ func @ ''] '') @ text)"
    using err_doit_line by blast
  with v n show "\<exists>line. SILK_LOG dm errnoflag verbosity lvl func text e
            = Some (Inr (if dm then Syslog lvl else Stderr, line @ [10])) \<and> length line < MAXLINE
            \<and> line = take (MAXLINE - 1) (chars (syslog_lvl ! nat lvl @ '' ['' @ func @ ''] '') @ text
                @ (if errnoflag then chars '': '' @ e else []))"
    by (intro exI [of _ line]) (simp add: SILK_LOG_def log_doit_def)
next
  show "\<exists>s. addr2logbuf cli_peer srv_peer = Inr s \<and> length s < 256"
    using assms(3,4) by (rule addr2logbuf_fits)
next
  show "\<forall>s. peer2logbuf ok cli_peer = Some s \<longrightarrow> length s < 256"
    using assms(3)
    by (cases cli_peer) (auto simp: peer2logbuf_def snprintf_def INET6_ADDRSTRLEN_def split: option.splits)
qed (simp add: SILK_LOG_def)

lemma log_buffers_fit_witness:
  "(\<exists>line. SILK_LOG True True LOG_INFO LOG_ERR ''main'' [65] [66] = Some (Inr (Syslog LOG_ERR, line @ [10]))
      \<and> length line < MAXLINE \<and> line = take (MAXLINE - 1) (chars ''err [main] '' @ [65] @ chars '': '' @ [66]))
    \<and> (\<exists>s. addr2logbuf (Some (dotted [127, 0, 0, 1]), 1080) (None, 0) = Inr s \<and> length s < 256)"
proof -
  have l: "LOG_ERR \<le> LOG_INFO" "0 \<le> LOG_ERR" "LOG_ERR \<le> LOG_DEBUG" "syslog_lvl ! nat LOG_ERR = ''err''"
    by (simp_all add: LOG_ERR_def LOG_INFO_def LOG_DEBUG_def syslog_lvl_def)
  have a: "length a < INET6_ADDRSTRLEN" if "fst (Some (dotted [127, 0, 0, 1]), 1080 :: u16) = Some a" for a
    using that by (auto simp: INET6_ADDRSTRLEN_def dec.simps)
  have n: "length a < INET6_ADDRSTRLEN" if "fst (None, 0 :: u16) = Some a" for a using that by simp
  from log_buffers_fit [where verbosity = LOG_INFO and dm = True and errnoflag = True and func = "''main''"
      and ?text = "[65]" and e = "[66]" and cli_peer = "(Some (dotted [127, 0, 0, 1]), 1080)"
      and srv_peer = "(None, 0)", OF l(2,3) a n] l(1,4)
  show ?thesis by (simp del: dotted.simps)
qed

end
