(* ===== verification/Silk_Main.thy ===== *)
theory Silk_Main
  imports Silk_Session_Run Silk_Others Silk_Pool Silk_Db Silk_Log
begin

section \<open>The server program (main.c, tcp_listen.c)\<close>

text \<open>
  How the program comes up: the command line, the shared tables, the data base, the listening
  socket; then the loop that hands accepted connections to the thread pool, and the sessions
  the pool's threads run.  What the kernel and the files answer is the record \<open>boot\<close>.
\<close>

definition NR_THREADS :: int where
  "NR_THREADS = 1024"

definition DNSTBL_SIZE :: nat where
  "DNSTBL_SIZE = 2 ^ 23"

definition CACHEIP_INITSZ :: nat where
  "CACHEIP_INITSZ = 1024"

definition CACHEAP_INITSZ :: nat where
  "CACHEAP_INITSZ = 16"

text \<open>The places where the program ends with a message, through \<open>err_quit\<close> or \<open>err_sys\<close>.\<close>

datatype quit =
    Q_parent | Q_usage | Q_threadpool | Q_fopen | Q_fgets | Q_odbc | Q_dns | Q_ipcache | Q_appcache
  | Q_getaddrinfo | Q_setsockopt | Q_close | Q_bind | Q_listen

datatype 'a start = Crash c_fault | Exit quit | Go 'a

definition and_then :: "'a start \<Rightarrow> ('a \<Rightarrow> 'b start) \<Rightarrow> 'b start" where
  "and_then m f = (case m of Crash e \<Rightarrow> Crash e | Exit q \<Rightarrow> Exit q | Go x \<Rightarrow> f x)"

lemma and_then_Go: "and_then m f = Go y \<longleftrightarrow> (\<exists>x. m = Go x \<and> f x = Go y)"
  by (simp add: and_then_def split: start.split)

subsection \<open>The command line\<close>

text \<open>
  What \<open>getopt\<close> of the C library yields for the arguments after the program's name: the
  characters of the option clusters in order, and the operands, which it moves to the end.
\<close>

fun getopt :: "cstr list \<Rightarrow> byte list \<times> cstr list" where
  "getopt [] = ([], [])"
| "getopt (a # as) =
     (if a = [dash, dash] then ([], as)
      else case getopt as of
             (os, args) \<Rightarrow>
               if 2 \<le> length a \<and> hd a = dash then (tl a @ os, args) else (os, a # args))"

record options =
  daemon :: bool
  debug :: int
  verbose :: int

definition option_D :: byte where "option_D = 68"
definition option_d :: byte where "option_d = 100"
definition option_v :: byte where "option_v = 118"

text \<open>The switch in the loop; None is the call of \<open>usage\<close>, which does not return.\<close>

definition option_step :: "byte \<Rightarrow> options \<Rightarrow> options option" where
  "option_step opt o' =
     (if opt = option_D then Some (o'\<lparr>daemon := True\<rparr>)
      else if opt = option_d then Some (if debug o' < 2 then o'\<lparr>debug := debug o' + 1\<rparr> else o')
      else if opt = option_v then Some (if verbose o' < LOG_INFO then o'\<lparr>verbose := verbose o' + 1\<rparr> else o')
      else None)"

fun option_loop :: "byte list \<Rightarrow> options \<Rightarrow> options option" where
  "option_loop [] o' = Some o'"
| "option_loop (c # cs) o' = (case option_step c o' of None \<Rightarrow> None | Some o2 \<Rightarrow> option_loop cs o2)"

definition parse_args :: "cstr list \<Rightarrow> (options \<times> cptr) start" where
  "parse_args argv =
     (case getopt argv of
        (os, args) \<Rightarrow>
          (case option_loop os \<lparr>daemon = False, debug = -1, verbose = LOG_CRIT\<rparr> of
             None \<Rightarrow> Exit Q_usage
           | Some o' \<Rightarrow>
               if 1 < length args then Exit Q_usage
               else Go (o', if args = [] then None else Some (hd args))))"

lemma option_loop_levels:
  assumes "option_loop os o' = Some o2"
    and "debug o' \<le> 2" and "verbose o' \<le> LOG_INFO"
  shows "daemon o2 \<longleftrightarrow> daemon o' \<or> option_D \<in> set os"
    and "debug o2 = min 2 (debug o' + int (count_list os option_d))"
    and "verbose o2 = min LOG_INFO (verbose o' + int (count_list os option_v))"
proof -
  have distinct: "option_D \<noteq> option_d" "option_D \<noteq> option_v" "option_d \<noteq> option_v"
    by (simp_all add: option_D_def option_d_def option_v_def)
  from assms have "(daemon o2 \<longleftrightarrow> daemon o' \<or> option_D \<in> set os)
    \<and> debug o2 = min 2 (debug o' + int (count_list os option_d))
    \<and> verbose o2 = min LOG_INFO (verbose o' + int (count_list os option_v))"
  proof (induction os arbitrary: o')
    case (Cons c cs)
    then obtain o1 where o1: "option_step c o' = Some o1" "option_loop cs o1 = Some o2"
      by (auto split: option.splits)
    then have "debug o1 \<le> 2" "verbose o1 \<le> LOG_INFO"
      using Cons.prems by (auto simp: option_step_def split: if_splits)
    from Cons.IH [OF o1(2) this] o1(1) Cons.prems(2,3) distinct show ?case
      by (auto simp: option_step_def split: if_splits)
  qed simp
  then show "daemon o2 \<longleftrightarrow> daemon o' \<or> option_D \<in> set os"
    and "debug o2 = min 2 (debug o' + int (count_list os option_d))"
    and "verbose o2 = min LOG_INFO (verbose o' + int (count_list os option_v))" by auto
qed

lemma parse_args_levels:
  assumes "parse_args argv = Go (o', cfg)"
  shows "debug o' = min 2 (int (count_list (fst (getopt argv)) option_d) - 1)"
    and "verbose o' = min LOG_INFO (LOG_CRIT + int (count_list (fst (getopt argv)) option_v))"
    and "daemon o' \<longleftrightarrow> option_D \<in> set (fst (getopt argv))"
proof -
  obtain os args where g: "getopt argv = (os, args)" by (cases "getopt argv")
  with assms have l: "option_loop os \<lparr>daemon = False, debug = -1, verbose = LOG_CRIT\<rparr> = Some o'"
    by (auto simp: parse_args_def split: option.splits if_splits)
  from option_loop_levels [OF l] g
  show "debug o' = min 2 (int (count_list (fst (getopt argv)) option_d) - 1)"
    and "verbose o' = min LOG_INFO (LOG_CRIT + int (count_list (fst (getopt argv)) option_v))"
    and "daemon o' \<longleftrightarrow> option_D \<in> set (fst (getopt argv))"
    by (simp_all add: LOG_INFO_def LOG_CRIT_def)
qed

lemma verbose_name:
  assumes "parse_args argv = Go (o', cfg)"
  shows "syslog_lvl2str (verbose o') =
    Inr ([''crit'', ''err'', ''warning'', ''notice'', ''info''] ! min 4 (count_list (fst (getopt argv)) option_v))"
proof -
  have "verbose o' = 2 + int (min 4 (count_list (fst (getopt argv)) option_v))"
    using parse_args_levels(2) [OF assms] by (simp add: LOG_INFO_def LOG_CRIT_def)
  moreover have "syslog_lvl2str (2 + int k) = Inr ([''crit'', ''err'', ''warning'', ''notice'', ''info''] ! k)"
    if "k \<le> 4" for k
  proof -
    have "k = 0 \<or> k = 1 \<or> k = 2 \<or> k = 3 \<or> k = 4" using that by auto
    then show ?thesis by (auto simp: level_names syslog_lvl_def)
  qed
  ultimately show ?thesis by simp
qed

subsection \<open>The listening socket: \<open>tcp_listen\<close>\<close>

text \<open>
  One address that getaddrinfo found, with what the kernel answers for it: the socket, and
  whether \<open>setsockopt\<close>, \<open>bind\<close> and \<open>close\<close> succeed.
\<close>

record addr_info =
  ai_socket :: "int option"
  ai_reuse :: bool
  ai_bind :: bool
  ai_close :: bool

text \<open>The loop, with the sockets that are open; None is the end of the list of addresses.\<close>

fun listen_loop :: "addr_info list \<Rightarrow> int list \<Rightarrow> (int option \<times> int list) start" where
  "listen_loop [] fds = Go (None, fds)"
| "listen_loop (res # ai_next) fds =
     (case ai_socket res of
        None \<Rightarrow> listen_loop ai_next fds
      | Some listenfd \<Rightarrow>
          if \<not> ai_reuse res then Exit Q_setsockopt
          else if ai_bind res then Go (Some listenfd, listenfd # fds)
          else if \<not> ai_close res then Exit Q_close
          else listen_loop ai_next fds)"

text \<open>
  \<open>res\<close> is None when getaddrinfo fails; the loop looks at the first address without a test.
\<close>

definition tcp_listen :: "addr_info list option \<Rightarrow> bool \<Rightarrow> (int \<times> int list) start" where
  "tcp_listen res listen_ok =
     (case res of
        None \<Rightarrow> Exit Q_getaddrinfo
      | Some ais \<Rightarrow>
          if ais = [] then Crash Null_Deref
          else and_then (listen_loop ais []) (\<lambda>(fd, fds).
                 case fd of
                   None \<Rightarrow> Exit Q_bind
                 | Some listenfd \<Rightarrow> if \<not> listen_ok then Exit Q_listen else Go (listenfd, fds)))"

definition bindable :: "addr_info \<Rightarrow> bool" where
  "bindable a \<longleftrightarrow> ai_socket a \<noteq> None \<and> ai_bind a"

lemma listen_loop_first:
  assumes "\<And>a. a \<in> set ais \<Longrightarrow> ai_reuse a \<and> ai_close a"
  shows "listen_loop ais fds =
    (case find bindable ais of None \<Rightarrow> Go (None, fds)
     | Some a \<Rightarrow> Go (ai_socket a, the (ai_socket a) # fds))"
  using assms by (induction ais) (auto simp: bindable_def split: option.splits)

lemma listen_loop_open:
  "listen_loop ais fds = Go (r, fds') \<Longrightarrow> (case r of None \<Rightarrow> fds' = fds | Some fd \<Rightarrow> fds' = fd # fds)"
  by (induction ais) (auto split: option.splits if_splits)

lemma tcp_listen_open: "tcp_listen res ok = Go (fd, fds) \<Longrightarrow> fds = [fd]"
  by (auto simp: tcp_listen_def and_then_Go dest!: listen_loop_open split: option.splits if_splits)

subsection \<open>Setting up: \<open>server_init\<close> and \<open>main\<close>\<close>

text \<open>
  The answers at start-up: the result of \<open>fork\<close>, the three allocations of the thread pool, the
  contents of files, the ODBC driver, the allocator, and the addresses to listen on.
\<close>

record boot =
  fork_result :: int
  m_pool :: bool
  m_queue :: bool
  m_threads :: bool
  files :: "cstr \<Rightarrow> byte list option"
  odbc :: db
  m_line :: bool
  mem :: "nat \<Rightarrow> bool"
  addrs :: "addr_info list option"
  listen_ok :: bool

record server =
  sv_pool :: thpool
  sv_db :: db
  sv_dns :: hash_table
  sv_ip :: cache_ip
  sv_app :: cache_ap

text \<open>\<open>daemon_init\<close>: the parent exits; the child logs to syslog from now on.\<close>

definition daemon_init :: "boot \<Rightarrow> bool start" where
  "daemon_init b = (if fork_result b > 0 then Exit Q_parent else Go True)"

text \<open>
  The configuration line.  \<open>sql_config\<close> is NULL when the program has no operand; a line that
  starts with a NUL byte makes the code look at the byte before the buffer.
\<close>

definition read_config :: "boot \<Rightarrow> cptr \<Rightarrow> cstr start" where
  "read_config b sql_config =
     (case sql_config of
        None \<Rightarrow> Crash Null_Deref
      | Some name \<Rightarrow>
          (case files b name of
             None \<Rightarrow> Exit Q_fopen
           | Some text \<Rightarrow>
               (case fgets 256 text of
                  (line, _) \<Rightarrow>
                    if line = [] then Exit Q_fgets
                    else if c_str line = [] then Crash Buffer_Overflow
                    else Go (chop_newline line))))"

definition init_odbc :: "boot \<Rightarrow> cstr \<Rightarrow> db start" where
  "init_odbc b line =
     (case sqlinit (m_line b) (Some line) (odbc b) of
        Inl f \<Rightarrow> Crash f
      | Inr (r, d) \<Rightarrow> if r = -1 then Exit Q_odbc else Go d)"

definition init_tables :: "(nat \<Rightarrow> bool) \<Rightarrow> (hash_table \<times> cache_ip \<times> cache_ap) start" where
  "init_tables memory =
     (case hashtbl_init memory DNSTBL_SIZE of
        Inl f \<Rightarrow> Crash f
      | Inr None \<Rightarrow> Exit Q_dns
      | Inr (Some dns) \<Rightarrow>
          (case cache_initip memory CACHEIP_INITSZ of
             None \<Rightarrow> Exit Q_ipcache
           | Some ip \<Rightarrow>
               (case cache_initapp memory CACHEAP_INITSZ of
                  None \<Rightarrow> Exit Q_appcache
                | Some app \<Rightarrow> Go (dns, ip, app))))"

definition server_init :: "boot \<Rightarrow> cptr \<Rightarrow> server start" where
  "server_init b sql_config =
     (case thpool_init (m_pool b) (m_queue b) (m_threads b) NR_THREADS of
        None \<Rightarrow> Exit Q_threadpool
      | Some p \<Rightarrow>
          and_then (read_config b sql_config) (\<lambda>line.
          and_then (init_odbc b line) (\<lambda>d.
          and_then (init_tables (mem b)) (\<lambda>(dns, ip, app).
          Go \<lparr>sv_pool = p, sv_db = d, sv_dns = dns, sv_ip = ip, sv_app = app\<rparr>))))"

record started =
  st_opts :: options
  st_daemon_proc :: bool
  st_server :: server
  st_listenfd :: int
  st_open :: "int list"

text \<open>\<open>main\<close> up to the accept loop, the line that prints the verbosity included.\<close>

definition silk_main :: "boot \<Rightarrow> cstr list \<Rightarrow> started start" where
  "silk_main b argv =
     and_then (parse_args argv) (\<lambda>(o', sql_config).
     and_then (if daemon o' then daemon_init b else Go False) (\<lambda>daemon_proc.
     and_then (server_init b sql_config) (\<lambda>s.
     and_then (tcp_listen (addrs b) (listen_ok b)) (\<lambda>(listenfd, fds).
     case syslog_lvl2str (verbose o') of
       Inl f \<Rightarrow> Crash f
     | Inr _ \<Rightarrow> Go \<lparr>st_opts = o', st_daemon_proc = daemon_proc, st_server = s, st_listenfd = listenfd, st_open = fds\<rparr>))))"

subsection \<open>What a successful start establishes\<close>

lemma init_odbc_connected:
  assumes "db_ok (odbc b)" and "init_odbc b line = Go d"
  shows "db_ok d" and "hdbc d"
proof -
  have c: "sqlinit (m_line b) (Some line) (odbc b) = Inr (r, d) \<Longrightarrow> r \<noteq> -1 \<Longrightarrow> db_ok d \<and> hdbc d" for r
    using sqlinit_ok [OF assms(1)] by blast
  from assms(2) c show "db_ok d" "hdbc d"
    by (auto simp: init_odbc_def split: sum.splits prod.splits if_splits)
qed

text \<open>\<open>enough\<close> says that all copies of strings succeeded, so that the tables hold no NULL.\<close>

definition server_ok :: "bool \<Rightarrow> server \<Rightarrow> bool" where
  "server_ok enough s \<longleftrightarrow> tabs_ok enough (sv_ip s, sv_app s, sv_dns s)"

lemma init_tables_ok:
  assumes "init_tables memory = Go (dns, ip, app)"
  shows "ip_inv ip" "app_inv app" "dns_ok dns" "app_lookup app k = None"
proof -
  have dns: "hashtbl_init memory DNSTBL_SIZE = Inr (Some dns)"
    and ip: "cache_initip memory CACHEIP_INITSZ = Some ip"
    and app: "cache_initapp memory CACHEAP_INITSZ = Some app"
    using assms by (auto simp: init_tables_def split: option.splits sum.splits)
  show "ip_inv ip" "app_inv app" "dns_ok dns" "app_lookup app k = None"
    using ip_inv_init [OF ip] app_inv_init [OF app] initapp_inv(6) [OF app] dns_ok_init [OF dns]
    by simp_all
qed

lemma server_init_ok:
  assumes "server_init b cfg = Go s"
  shows "server_ok enough s" and "\<And>k. app_lookup (sv_app s) k = None" and "reach NR_THREADS (sv_pool s)"
    and "db_ok (odbc b) \<Longrightarrow> db_ok (sv_db s) \<and> hdbc (sv_db s)"
proof -
  obtain p line d dns ip app where s: "s = \<lparr>sv_pool = p, sv_db = d, sv_dns = dns, sv_ip = ip, sv_app = app\<rparr>"
    and p: "thpool_init (m_pool b) (m_queue b) (m_threads b) NR_THREADS = Some p"
    and d: "init_odbc b line = Go d" and t: "init_tables (mem b) = Go (dns, ip, app)"
    using assms by (auto simp: server_init_def and_then_Go split: option.splits)
  show "server_ok enough s" and "\<And>k. app_lookup (sv_app s) k = None"
    using init_tables_ok [OF t] s by (simp_all add: server_ok_def tabs_ok_def ip_inv_def app_inv_def)
  have "m_pool b" "m_queue b" "m_threads b"
    using p by (auto simp: thpool_init_def jobqueue_init_def Let_def split: if_splits option.splits)
  with p s show "reach NR_THREADS (sv_pool s)" by (simp add: reach.init)
  show "db_ok (odbc b) \<Longrightarrow> db_ok (sv_db s) \<and> hdbc (sv_db s)"
    using init_odbc_connected [OF _ d] s by simp
qed

subsection \<open>The accept loop\<close>

text \<open>
  A result of \<open>accept\<close>, with the allocation of the job that follows.  The result of
  \<open>thpool_add_work\<close> is not looked at: without memory for the job the connection stays open and
  nobody serves it.  \<open>A_worker\<close> is no result of \<open>accept\<close>: there one of the worker threads, which
  run at the same time, takes a job out of the queue (\<open>take_job\<close>, the pull and the use and free of
  the node in \<open>thread_do\<close>).  The loop collects the jobs so taken.
\<close>

datatype accept_result = A_conn int bool | A_eintr | A_error | A_worker

text \<open>The number that stands for the function \<open>proxy_start\<close> in a job.\<close>

definition PROXY_START :: nat where
  "PROXY_START = 1"

fun accept_loop :: "accept_result list \<Rightarrow> work list \<Rightarrow> jobqueue \<Rightarrow> c_fault + (work list \<times> jobqueue)" where
  "accept_loop [] taken q = Inr (taken, q)"
| "accept_loop (A_conn connfd memory # rs) taken q =
     (case thpool_add_work memory q (PROXY_START, connfd) of
        Inl f \<Rightarrow> Inl f
      | Inr None \<Rightarrow> accept_loop rs taken q
      | Inr (Some q') \<Rightarrow> accept_loop rs taken q')"
| "accept_loop (A_eintr # rs) taken q = accept_loop rs taken q"
| "accept_loop (A_error # rs) taken q = accept_loop rs taken q"
| "accept_loop (A_worker # rs) taken q =
     (case take_job q of
        Inl f \<Rightarrow> Inl f
      | Inr (None, q') \<Rightarrow> accept_loop rs taken q'
      | Inr (Some w, q') \<Rightarrow> accept_loop rs (taken @ [w]) q')"

fun served :: "accept_result list \<Rightarrow> work list" where
  "served [] = []"
| "served (A_conn connfd memory # rs) = (if memory then [(PROXY_START, connfd)] else []) @ served rs"
| "served (_ # rs) = served rs"

lemma accept_loop_queues:
  "jq_wf q \<Longrightarrow> \<exists>out q'. accept_loop rs taken q = Inr (out, q') \<and> jq_wf q'
     \<and> out @ jq_works q' = taken @ jq_works q @ served rs \<and> (A_worker \<notin> set rs \<longrightarrow> out = taken)"
proof (induction rs taken q rule: accept_loop.induct)
  case (2 connfd memory rs taken q)
  show ?case
  proof (cases memory)
    case True
    obtain q1 where q1: "thpool_add_work True q (PROXY_START, connfd) = Inr (Some q1)"
      using push_rep [OF jq_wf_rep [OF 2(3)]] by blast
    with 2(2) [OF _ refl add_facts(1) [OF 2(3) q1]] add_facts(4) [OF 2(3) q1] True show ?thesis by auto
  next
    case False
    then show ?thesis using 2(1) [OF _ refl 2(3)] by (simp add: thpool_add_work_def)
  qed
next
  case (5 rs taken q)
  from jq.take_law [OF 5(3)] 5(1,2) show ?case
    by (cases "jq_works q") fastforce+
qed auto

subsection \<open>The sessions of a server\<close>

text \<open>
  A connection that a worker thread serves: what the kernel, the resolver and the clock answer
  to it, the descriptor, and the two sockets.  \<open>serve\<close> runs the sessions one after the other on
  the shared tables; a fault ends the program.
\<close>

record visit =
  v_env :: env
  v_fd :: int
  v_cli :: sock
  v_prx :: sock

definition visit_world :: "server \<Rightarrow> visit \<Rightarrow> world" where
  "visit_world s v = \<lparr>sess = socks5_cli_zero, w_cli = v_cli v, w_prx = v_prx v, w_ip = sv_ip s, w_app = sv_app s,
     w_dns = sv_dns s, trace = []\<rparr>"

definition leave :: "server \<Rightarrow> world \<Rightarrow> server" where
  "leave s w = s\<lparr>sv_ip := w_ip w, sv_app := w_app w, sv_dns := w_dns w\<rparr>"

fun serve :: "visit list \<Rightarrow> server \<Rightarrow> c_fault + (world list \<times> server)" where
  "serve [] s = Inr ([], s)"
| "serve (v # vs) s =
     (case proxy_start (v_env v) (v_fd v) (visit_world s v) of
        Inl f \<Rightarrow> Inl f
      | Inr w \<Rightarrow> map_sum id (apfst ((#) w)) (serve vs (leave s w)))"

text \<open>A session that connected to an IPv4 address had a password of the data base.\<close>

definition authorised :: "(cstr \<Rightarrow> cstr option) \<Rightarrow> world \<Rightarrow> bool" where
  "authorised passwords w \<longleftrightarrow>
     (\<forall>sa. A_connect sa \<in> set (trace w) \<and> sin_family sa = AF_INET \<longrightarrow>
       (\<exists>b. hashStr b = hashStr (user (sess w)) \<and> passwords b = Some (passwd (sess w))))"

definition tables_of :: "bool \<Rightarrow> (cstr \<Rightarrow> cstr option) \<Rightarrow> server \<Rightarrow> bool" where
  "tables_of enough passwords s \<longleftrightarrow> server_ok enough s
     \<and> (\<forall>k v. app_lookup (sv_app s) k = Some v \<longrightarrow> (\<exists>a. hashStr a = k \<and> passwords a = Some v))"

lemma server_init_tables: "server_init b cfg = Go s \<Longrightarrow> tables_of enough passwords s"
  using server_init_ok(1,2) by (simp add: tables_of_def)

lemma serve_step:
  assumes "tables_of enough (sql_app (v_env v)) s" and "env_ok enough (v_env v)" and "honest (v_env v)"
  shows "case proxy_start (v_env v) (v_fd v) (visit_world s v) of
      Inl f \<Rightarrow> f \<in> run_faults enough
    | Inr w \<Rightarrow> tables_of enough (sql_app (v_env v)) (leave s w) \<and> authorised (sql_app (v_env v)) w"
proof -
  let ?e = "v_env v" and ?w = "visit_world s v"
  have t: "tables_ok enough ?w" and c: "app_coherent ?e (w_app ?w)" and tr: "trace ?w = []"
    using assms(1) by (auto simp: tables_of_def server_ok_def tables_ok_iff app_coherent_def visit_world_def)
  note tabs = session_tables [OF assms(2) t, of "v_fd v"]
  show ?thesis
  proof (cases "socks5_run ?e (v_fd v) ?w")
    case (Inl f)
    then show ?thesis using tabs by (simp add: proxy_start_def)
  next
    case (Inr rw)
    obtain r w where w: "socks5_run ?e (v_fd v) ?w = Inr (r, w)" using Inr by (cases rw) auto
    have "tables_ok enough w" using tabs w by simp
    moreover have "app_coherent ?e (w_app w)" by (rule session_coherent [OF assms(3) c w])
    moreover have "authorised (sql_app ?e) w"
      using session_dials [OF assms(3) c tr w] by (auto simp: authorised_def)
    ultimately show ?thesis
      using w by (auto simp: proxy_start_def tables_of_def server_ok_def tables_ok_def leave_def app_coherent_def)
  qed
qed

lemma serve_safe:
  assumes "tables_of enough passwords s"
    and "\<And>v. v \<in> set vs \<Longrightarrow> env_ok enough (v_env v) \<and> honest (v_env v) \<and> sql_app (v_env v) = passwords"
  shows "case serve vs s of
      Inl f \<Rightarrow> f \<in> run_faults enough
    | Inr (ws, s') \<Rightarrow> tables_of enough passwords s' \<and> length ws = length vs \<and> (\<forall>w \<in> set ws. authorised passwords w)"
  using assms
proof (induction vs arbitrary: s)
  case (Cons v vs)
  have v: "env_ok enough (v_env v)" "sql_app (v_env v) = passwords" "honest (v_env v)" using Cons.prems(2) by auto
  note step = serve_step [of enough v s, unfolded v(2), OF Cons.prems(1) v(1,3)]
  show ?case
  proof (cases "proxy_start (v_env v) (v_fd v) (visit_world s v)")
    case (Inl f)
    with step show ?thesis by simp
  next
    case (Inr w)
    with step have w: "tables_of enough passwords (leave s w)" "authorised passwords w" by auto
    from Cons.IH [OF w(1)] Cons.prems(2) Inr w(2) show ?thesis
      by (cases "serve vs (leave s w)") auto
  qed
qed simp

subsection \<open>A successful start\<close>

lemma listen_loop_found:
  "listen_loop ais fds = Go (Some fd, fds') \<Longrightarrow>
     \<exists>a. find bindable ais = Some a \<and> ai_socket a = Some fd \<and> fds' = fd # fds"
  by (induction ais) (auto simp: bindable_def split: option.splits if_splits)

lemma tcp_listen_found:
  "tcp_listen res ok = Go (fd, fds) \<Longrightarrow>
     \<exists>ais a. res = Some ais \<and> find bindable ais = Some a \<and> ai_socket a = Some fd \<and> fds = [fd]"
  by (auto simp: tcp_listen_def and_then_Go dest!: listen_loop_found split: option.splits if_splits)

lemma silk_main_parts:
  assumes "silk_main b argv = Go st"
  obtains cfg where "parse_args argv = Go (st_opts st, cfg)"
    and "server_init b cfg = Go (st_server st)"
    and "tcp_listen (addrs b) (listen_ok b) = Go (st_listenfd st, st_open st)"
    and "st_daemon_proc st = daemon (st_opts st)"
proof -
  obtain o' cfg where p: "parse_args argv = Go (o', cfg)"
    using assms by (auto simp: silk_main_def and_then_Go)
  obtain name where "syslog_lvl2str (verbose o') = Inr name" using verbose_name [OF p] by blast
  with assms p show thesis
    by (intro that [of cfg])
      (auto simp: silk_main_def daemon_init_def and_then_Go and_then_def [of "Go _"] split: if_splits)
qed

lemma server_init_source:
  assumes "server_init b cfg = Go s" and "db_ok (odbc b)"
  shows "\<exists>fname content ds u p. cfg = Some fname \<and> files b fname = Some content
    \<and> strtok3 (chop_newline (fst (fgets 256 content))) = (Some ds, u, p) \<and> last (calls (sv_db s)) = Connect (with_len (Some ds)) (with_len u) (with_len p)"
proof -
  obtain line where l: "read_config b cfg = Go line" "init_odbc b line = Go (sv_db s)"
    using assms(1) by (auto simp: server_init_def and_then_Go split: option.splits)
  obtain fname content where f: "cfg = Some fname" "files b fname = Some content" "line = chop_newline (fst (fgets 256 content))"
    using l(1) by (auto simp: read_config_def split: option.splits if_splits prod.splits)
  obtain r where "sqlinit (m_line b) (Some line) (odbc b) = Inr (r, sv_db s)" "r \<noteq> -1"
    using l(2) by (auto simp: init_odbc_def split: sum.splits if_splits)
  then show ?thesis using sqlinit_cases [OF assms(2), of "m_line b" line] f by blast
qed

lemma pool_starts_empty:
  assumes "thpool_init m1 m2 m3 n = Some p"
  shows "jq_wf (tp_jobs p)" and "jq_works (tp_jobs p) = []"
proof -
  have r: "jq_rep (tp_jobs p) []"
    using assms by (auto simp: thpool_init_def jobqueue_init_def bsem_init_def jq_rep_def Let_def split: if_splits)
  then show "jq_wf (tp_jobs p)" and "jq_works (tp_jobs p) = []"
    by (auto simp: jq_wf_def jq_works_def jq_jobs_rep)
qed

lemma accept_from_start:
  assumes "server_init b cfg = Go s"
  shows "\<exists>taken q. accept_loop rs [] (tp_jobs (sv_pool s)) = Inr (taken, q) \<and> taken @ jq_works q = served rs
    \<and> (A_worker \<notin> set rs \<longrightarrow> taken = [])"
proof -
  have "thpool_init (m_pool b) (m_queue b) (m_threads b) NR_THREADS = Some (sv_pool s)"
    using assms by (auto simp: server_init_def and_then_Go split: option.splits)
  from accept_loop_queues [OF pool_starts_empty(1) [OF this], of rs "[]"] pool_starts_empty(2) [OF this]
  show ?thesis by auto
qed

subsection \<open>A concrete start\<close>

definition ex_boot :: boot where
  "ex_boot = \<lparr>fork_result = 0, m_pool = True, m_queue = True, m_threads = True,
     files = (\<lambda>_. Some ([100, comma, 117, comma, 112, 10])),
     odbc = db_new [SQL_SUCCESS, SQL_SUCCESS, SQL_SUCCESS, SQL_SUCCESS], m_line = True, mem = (\<lambda>_. True),
     addrs = Some [\<lparr>ai_socket = Some 3, ai_reuse = True, ai_bind = False, ai_close = True\<rparr>,
                   \<lparr>ai_socket = Some 3, ai_reuse = True, ai_bind = True, ai_close = True\<rparr>],
     listen_ok = True\<rparr>"

text \<open>The arguments \<open>-Dvv cfg\<close>.\<close>

definition ex_argv :: "cstr list" where
  "ex_argv = [[dash, 68, 118, 118], [99, 102, 103]]"

lemma ex_parse: "parse_args ex_argv = Go (\<lparr>daemon = True, debug = -1, verbose = 4\<rparr>, Some [99, 102, 103])"
  by (simp add: parse_args_def ex_argv_def dash_def option_step_def option_D_def option_d_def option_v_def
      LOG_CRIT_def LOG_INFO_def)

lemma ex_sqlinit:
  "\<exists>d. sqlinit True (Some [100, comma, 117, comma, 112]) (db_new [SQL_SUCCESS, SQL_SUCCESS, SQL_SUCCESS, SQL_SUCCESS]) = Inr (0, d)"
  by (simp add: sqlinit_def sql_env_def sql_dbc_def sql_connect_def db_new_def sql_ask_def sql_log_def
      SQL_SUCCEEDED_def strtok3_def strtok_r_def comma_def Let_def)

lemma ex_tables_start: "\<exists>t. init_tables (\<lambda>_. True) = Go t"
proof -
  have "DNSTBL_SIZE \<noteq> 0" "\<not> CACHEIP_INITSZ < 1" "\<not> CACHEAP_INITSZ < 1"
    by (simp_all add: DNSTBL_SIZE_def CACHEIP_INITSZ_def CACHEAP_INITSZ_def)
  then show ?thesis
    by (simp add: init_tables_def hashtbl_init_def cache_initip_def cache_initapp_def)
qed

lemma ex_boot_mem: "m_pool ex_boot" "m_queue ex_boot" "m_threads ex_boot" "mem ex_boot = (\<lambda>_. True)"
  by (simp_all add: ex_boot_def)

lemma ex_start: "\<exists>st. silk_main ex_boot ex_argv = Go st"
proof -
  obtain d where d: "sqlinit True (Some [100, comma, 117, comma, 112]) (db_new [SQL_SUCCESS, SQL_SUCCESS, SQL_SUCCESS, SQL_SUCCESS]) = Inr (0, d)"
    using ex_sqlinit by blast
  have "fgets (Suc (Suc (Suc (Suc (Suc (Suc (Suc n))))))) [100, comma, 117, comma, 112, 10] = ([100, comma, 117, comma, 112, 10], [])" for n
    by (simp add: comma_def)
  from this [of 249] have "fgets 256 [100, comma, 117, comma, 112, 10] = ([100, comma, 117, comma, 112, 10], [])"
    by simp
  then have cfg: "read_config ex_boot (Some [99, 102, 103]) = Go [100, comma, 117, comma, 112]"
    by (simp add: read_config_def ex_boot_def chop_newline_def c_str_def comma_def)
  have odbc: "init_odbc ex_boot [100, comma, 117, comma, 112] = Go d"
    using d by (simp add: init_odbc_def ex_boot_def)
  obtain t where t: "init_tables (\<lambda>_. True) = Go t" using ex_tables_start by blast
  have "\<exists>p. thpool_init True True True NR_THREADS = Some p"
    by (simp add: thpool_init_def jobqueue_init_def bsem_init_def Let_def)
  then obtain p where p: "thpool_init True True True NR_THREADS = Some p" ..
  have s: "\<exists>s. server_init ex_boot (Some [99, 102, 103]) = Go s"
    using p t cfg odbc by (cases t) (simp add: server_init_def and_then_def ex_boot_mem)
  have l: "tcp_listen (addrs ex_boot) (listen_ok ex_boot) = Go (3, [3])"
    by (simp add: tcp_listen_def ex_boot_def and_then_def)
  have n: "syslog_lvl2str 4 = Inr ''warning''" by (simp add: level_names syslog_lvl_def)
  have f: "daemon_init ex_boot = Go True" by (simp add: daemon_init_def ex_boot_def)
  from s obtain s where "server_init ex_boot (Some [99, 102, 103]) = Go s" ..
  with l n f show ?thesis by (simp add: silk_main_def ex_parse and_then_def)
qed

end
