(* ===== verification/Spec2Isabelle.thy ===== *)
theory Spec2Isabelle
  imports Silk_Names Silk_Relay_Live Silk_Relay_Select Silk_Relay_Splice Silk_Session_Errors Silk_Request Silk_Crawl Silk_Pause Silk_Main
begin

text \<open>
  Verification of silksocks, a SOCKS5 server that passes each client on to an upstream SOCKS5
  proxy of the client's choice, and of the load generator that comes with it.

  \<^bold>\<open>The program.\<close>  \<open>main.c\<close> reads the options, sets up a thread pool (\<open>thpool.c\<close>), the data base
  (\<open>db.c\<close>), the table of resolved names (\<open>hashtbl.c\<close>) and the two credential caches (\<open>cache.c\<close>),
  opens the listening socket (\<open>tcp_listen.c\<close>), and then puts every accepted descriptor into the
  job queue of the pool.  A worker thread takes it out and runs \<open>socks5_run\<close> of \<open>socks.c\<close> on it:
  choice of the method, user name and password, the address of the upstream proxy out of the
  user name (\<open>user-ip-port\<close>), the password check against the password cache or the data base,
  the client's request with a name lookup through the DNS table or \<open>host_serv.c\<close>, the connection
  to the upstream proxy with a time limit (\<open>connect_nonb.c\<close>), the login there with credentials
  from the cache or the data base, the request, the reply to the client, and at last the relay of
  \<open>negotiate.c\<close>, which copies bytes both ways until one side ends.  All reading and writing
  before the relay goes through \<open>silkio.c\<close>.  The load generator in \<open>socksload/\<close> fetches pages
  through the server, looks for links in them and queues them.

  \<^bold>\<open>Theories.\<close>  In the order of imports, with the source each models.
    \<^item> Silk_Prelude: bytes, C strings, faults, lines of a file, \<open>timeo.c\<close>, lemma collections.
    \<^item> Silk_Io: \<open>silkio.c\<close>.  A socket is a script of what the kernel will answer; \<open>readn_timeo\<close> and
      \<open>writen_timeo\<close> are total functions of it, shown to depend on the byte stream only.
    \<^item> Silk_Hash, Silk_Probe: \<open>hash32\<close>, \<open>hashStr\<close> on words, and the linear probing loop.
    \<^item> Silk_Cred_Cache: the contract of the two caches, a locale \<open>cred_cache\<close> with the read-through
      that the sessions do; Silk_Cache_Ip and Silk_Cache_App interpret it for the caches of \<open>cache.c\<close>.
    \<^item> Silk_Chain, Silk_Timed_Map, Silk_Hashtbl: singly linked chains; the locales \<open>timed_map\<close> and
      \<open>typed_map\<close>; \<open>hashtbl.c\<close>, with pointers as indices into the pool, interprets both.
    \<^item> Silk_Login: the session record, addresses, the library functions on strings, and
      \<open>strip_redirectaddr\<close> of \<open>socks.c\<close>.
    \<^item> Silk_Connect: the three variants of \<open>connect_nonb.c\<close>.
    \<^item> Silk_Relay, Silk_Relay_Poll, Silk_Relay_Live, Silk_Relay_Select, Silk_Relay_Splice: the three
      variants of \<open>negotiate.c\<close>.  A relay is two sockets and two buffers; a turn of the loop is a
      function of the answer of poll.  The poll variant, which the Makefile builds, is also shown
      to end and to deliver everything (Silk_Relay_Live).
    \<^item> Silk_Session, Silk_Socks: the state of a session, its control flow (a value, an early return
      with a status, or a fault) and the functions of \<open>socks.c\<close> and \<open>proxy.c\<close>.
    \<^item> Silk_Handshake: what each function reads and sends when both peers follow the protocol.
    \<^item> Silk_Session_Safety, Silk_Session_Example, Silk_Auth, Silk_Request: triples over the functions
      of a session, and the locale \<open>session_inv\<close> that turns an invariant of the steps into one of
      the session; its interpretations give the shared tables, authentication, the coherence of
      the password cache, descriptors, and (Silk_Session_Errors) the trace.
    \<^item> Silk_Others: the calls that other sessions make on the tables in between.
    \<^item> Silk_Session_Run, Silk_Session_Errors: whole sessions, successful ones and those that fail.
    \<^item> Silk_Names: \<open>host_serv.c\<close> over a given \<open>getaddrinfo\<close>.
    \<^item> Silk_Heap, Silk_Urlqueue, Silk_Jobqueue: nodes on a heap, the locale \<open>fifo\<close>, and the two
      linked queues that interpret it.
    \<^item> Silk_Thpool, Silk_Pool: the threads of \<open>thpool.c\<close> as a step relation, the invariant of all
      reachable states by rule induction, and what follows from it.
    \<^item> Silk_Pool_Destroy: from every state of a pool that is being destroyed there is a way to the
      end.  Silk_Pause: the creation of the threads, and \<open>thpool_pause\<close>, \<open>thpool_resume\<close> and the
      signal handler as steps on top of those of the pool, with mutexes that a held thread keeps.
    \<^item> Silk_Db: \<open>db.c\<close> over a script of answers of the ODBC library.
    \<^item> Silk_Log: \<open>error.c\<close>, \<open>error.h\<close>, \<open>gf_time.c\<close> and the status names of \<open>socks.c\<close>.
    \<^item> Silk_Main: \<open>main.c\<close> and \<open>tcp_listen.c\<close>, and the sessions of a running server.
    \<^item> Silk_Loader: \<open>socksload/href.c\<close>, and of \<open>socksload/main.c\<close> the callback, the set-up of a
      request and the reading of the proxy file.
    \<^item> Silk_Crawl: \<open>main\<close> and the event loop \<open>curl_multi_fire\<close> of \<open>socksload/main.c\<close>; libcurl is a
      function from the number of the turn and the state so far to what it does in that turn, and
      what other threads leave in the shared counter is a function of the state too.

  \<^bold>\<open>How the model reads.\<close>  A C struct is a record, an enum a datatype, a machine integer a word
  where its width matters.  A function that can run into undefined behaviour returns
  \<open>c_fault + 'a\<close>: a loop that does not end, a null or freed pointer, an access outside of a buffer,
  a copy of a negative length, a division by zero are values, so their absence is a theorem and
  so is their presence.  Allocations of the program's own code that can fail: each malloc and
  calloc of the caches, the tables, the pool, the job queue and the URL queue (an argument of the
  operation), each \<open>strdup\<close> of the caches and of \<open>db.c\<close>, which the code never checks and whose
  NULL the model stores where the code does (\<open>copying\<close>, the fields \<open>dup\<close> and \<open>sql_dup\<close> of the
  environment, \<open>m_line\<close> of the start-up), and \<open>strndup\<close> of the URL queue (\<open>alloc\<close>).  The theorems on
  tables and sessions have a parameter \<open>enough\<close>: with it all copies of strings succeed and no
  table holds a NULL, without it the tables keep their shape, but strings in them may be NULL.
  What the libraries allocate inside is part of their answers.  Loops whose end depends on
  the state are partial functions with the result None, or have fuel: \<open>href_loop\<close> gets twice the
  length of the page plus two turns, one for a match and one for the retry at each offset, and
  \<open>href_terminates\<close> shows that this is enough; \<open>clear_loop\<close> gets the length of the queue; the chain
  walks of \<open>hashtbl.c\<close> and the probing of \<open>cache.c\<close> are shown to end on every well-formed table.
  The relays run over the list of answers that poll or select gives; in Silk_Relay_Live the answers
  come from the sockets (\<open>honest\<close>), and \<open>hup\<close> says in which states poll reports a hang-up or an
  error, which it does without being asked.  The crawl has a number of
  turns as fuel: it need not end, and what is shown of it holds for every number.

  \<^bold>\<open>What is shown.\<close>  In this theory: a start that reaches the accept loop, the safety of every
  sequence of sessions on the tables it set up, and that the load generator's logins are
  understood.  In the component theories: the tables are maps (with expiry, or keyed by a hash),
  stay well formed and never hang; the redirect login is parsed back to its parts; reading and
  writing do not depend on segmentation; all relays pass on prefixes in order, and the
  poll relay shuts down only after full delivery, delivers everything to live peers, and ends,
  unless poll reports nothing but a hang-up or an error, on which it spins; a successful session
  speaks the protocol byte for byte; no upstream connection is made without a password of the data base for
  a name with the client's hash; descriptors are closed once; the thread pool runs each job once,
  loses no wake-up, has exact counters and can always be destroyed, and keeps all this when it is
  paused; the queues are first in, first out; what the crawl has requested and what is queued are
  the start page and all links of the pieces of pages that it searched, in order, and nothing is
  queued any more when it ends of itself, if libcurl takes every request; a data base query
  leaves no handle behind; log lines fit their buffers.  Some theorems state what the code does
  wrong, where the behaviour is sharp: colliding names in the password cache, refused
  connections reported as success, a pause that outlives its resume, a pool that is freed before
  the last unlock of its mutex, bytes dropped when the upstream side ends, the poll relay spinning
  on a hang-up, the splice relay spinning on a full pipe, NULL strings that a failed \<open>strdup\<close>
  leaves in a cache, long credentials, the overflow of the reply buffer.

  \<^bold>\<open>Interleaving.\<close>  The thread pool is modelled with all interleavings of its threads; a thread's
  last critical section is two steps, the count and the unlock (\<open>T_Unlock\<close>, while which the lock
  is not \<open>lock_free\<close>), for \<open>thpool_destroy\<close> reads the count without the lock.  Workers take jobs out
  of the queue while \<open>accept_loop\<close> puts them in, at any point between two calls of \<open>accept\<close>.  The
  operations on the shared tables are single steps, as their mutexes make them.  Before each of
  its calls of a table a session finds the table as other threads have left it; \<open>Silk_Others\<close> shows
  that any sequence of calls by other sessions keeps what the theorems on sessions ask for.  The
  theorems that follow a session byte for byte assume that no other session interferes.

  \<^bold>\<open>Not modelled.\<close>  The libcurl, PCRE2 and ODBC libraries, getaddrinfo and the kernel, which are
  parameters or scripts of answers; the printing of ODBC diagnostics (\<open>extract_error\<close>), the debug
  macros and the functions that print the tables, which only write output and change nothing.
  The steps of the threads against each other are modelled for the pool; a session, and a thread
  of the load generator, are functions with what the others do in between as an argument.  A
  race of two threads on the counter of \<open>init\<close> is undefined in C; here it yields some value.
\<close>

section \<open>From start-up to the sessions\<close>

text \<open>C2: A start that reaches the accept loop: the listening socket is the first of the addresses
  found that could be bound, and the only socket left open; the program runs as a daemon exactly
  when -D was given; the verbosity goes from \<open>crit\<close> to \<open>info\<close>, one level for each -v, and has a
  name, the debug level stays between -1 and 2; the data base is connected with the three
  strings of the first line of the file that the one operand names; the shared tables are well
  formed; and whatever connections are then accepted, and whenever workers take jobs meanwhile,
  the jobs they took, followed by those in the job queue, are one job for each of the connections
  that found memory, in order; as long as no worker takes any, all are in the queue.\<close>

theorem server_starts:
  assumes "silk_main b argv = Go st" and "db_ok (odbc b)"
  shows "(\<exists>ais a. addrs b = Some ais \<and> find bindable ais = Some a \<and> ai_socket a = Some (st_listenfd st)
      \<and> st_open st = [st_listenfd st])
    \<and> (st_daemon_proc st \<longleftrightarrow> option_D \<in> set (fst (getopt argv)))
    \<and> syslog_lvl2str (verbose (st_opts st)) = Inr ([''crit'', ''err'', ''warning'', ''notice'', ''info'']
        ! min 4 (count_list (fst (getopt argv)) option_v))
    \<and> -1 \<le> debug (st_opts st) \<and> debug (st_opts st) \<le> 2
    \<and> (\<exists>fname content ds u p. snd (getopt argv) = [fname] \<and> files b fname = Some content
        \<and> strtok3 (chop_newline (fst (fgets 256 content))) = (Some ds, u, p)
        \<and> last (calls (sv_db (st_server st))) = Connect (Some ds, sql_len (Some ds)) (u, sql_len u) (p, sql_len p) \<and> hdbc (sv_db (st_server st)))
    \<and> server_ok True (st_server st)
    \<and> (\<exists>taken q. accept_loop rs [] (tp_jobs (sv_pool (st_server st))) = Inr (taken, q)
        \<and> taken @ jq_works q = served rs \<and> (A_worker \<notin> set rs \<longrightarrow> taken = []))"
proof -
  obtain cfg where p: "parse_args argv = Go (st_opts st, cfg)" and s: "server_init b cfg = Go (st_server st)"
    and l: "tcp_listen (addrs b) (listen_ok b) = Go (st_listenfd st, st_open st)"
    and d: "st_daemon_proc st = daemon (st_opts st)"
    by (rule silk_main_parts [OF assms(1)])
  have "cfg = Some fname \<Longrightarrow> snd (getopt argv) = [fname]" for fname
    using p by (cases "snd (getopt argv)") (auto simp: parse_args_def split: prod.splits option.splits if_splits)
  with server_init_source [OF s assms(2)]
  have cfg: "\<exists>fname content ds u p. snd (getopt argv) = [fname] \<and> files b fname = Some content
        \<and> strtok3 (chop_newline (fst (fgets 256 content))) = (Some ds, u, p)
        \<and> last (calls (sv_db (st_server st))) = Connect (Some ds, sql_len (Some ds)) (u, sql_len u) (p, sql_len p)"
    unfolding with_len_def by blast
  show ?thesis
    using tcp_listen_found [OF l] d parse_args_levels(1,3) [OF p] verbose_name [OF p] cfg
      server_init_ok(1,4) [OF s] assms(2) accept_from_start [OF s, of rs]
    by auto
qed

text \<open>C1: A server that came up keeps its promise whatever is thrown at it.  Take any sessions on the
  tables of the start-up, with any clients, upstream servers, clocks and failures of \<open>malloc\<close> and
  \<open>strdup\<close>, and between any two calls of a session any calls that other sessions make on the
  tables.  None of them hangs in a table; they end the program only by one of the two buffer
  faults or, for want of memory, by a NULL string that a failed \<open>strdup\<close> left: not if \<open>enough\<close>,
  that is, if all copies succeed.  Until then the tables keep their shape, without any NULL if
  all copies succeed, and in any case no session asks for a connection to an IPv4 upstream server
  unless it has a password that the data base holds for a user whose name has the same hash as
  the client's.\<close>

theorem server_safe:
  assumes "silk_main b argv = Go st"
    and "\<And>v. v \<in> set vs \<Longrightarrow> t_check (v_env v) \<le> t_put (v_env v) \<and> sql_app (v_env v) = passwords
      \<and> (\<forall>n a. resolve (v_env v) n = Some a \<longrightarrow> length a = 4)
      \<and> (\<exists>cs. among_others enough (v_env v) cs) \<and> (enough \<longrightarrow> plenty (v_env v))"
  shows "case serve vs (st_server st) of
      Inl f \<Rightarrow> f \<in> {Bad_Memcpy, Buffer_Overflow} \<or> \<not> enough \<and> f = Null_Deref
    | Inr (ws, s') \<Rightarrow> server_ok enough s' \<and> length ws = length vs
        \<and> (\<forall>w \<in> set ws. \<forall>sa. A_connect sa \<in> set (trace w) \<and> sin_family sa = AF_INET \<longrightarrow>
             (\<exists>name. hashStr name = hashStr (user (sess w)) \<and> passwords name = Some (passwd (sess w))))"
proof -
  obtain cfg where s: "server_init b cfg = Go (st_server st)"
    by (rule silk_main_parts [OF assms(1)])
  have v: "env_ok enough (v_env v) \<and> honest (v_env v) \<and> sql_app (v_env v) = passwords" if "v \<in> set vs" for v
    using assms(2) [OF that] among_others_ok(1) among_others_env by blast
  have "case serve vs (st_server st) of
      Inl f \<Rightarrow> f \<in> run_faults enough
    | Inr (ws, s') \<Rightarrow> tables_of enough passwords s' \<and> length ws = length vs \<and> (\<forall>w \<in> set ws. authorised passwords w)"
    by (rule serve_safe [OF server_init_tables [OF s] v])
  then show ?thesis
    by (auto simp: tables_of_def authorised_def run_faults_def split: sum.splits if_splits)
qed

definition ex_visits :: "visit list" where
  "ex_visits =
     [\<lparr>v_env = ex_env True, v_fd = 4, v_cli = sock_of [RData ex_client] [WSpace 400],
       v_prx = sock_of [RData ex_proxy] [WSpace 400]\<rparr>,
      \<lparr>v_env = (ex_env True)\<lparr>others := (\<lambda>p. fold (table_effect (\<lambda>_. True)) [C_app_put (\<lambda>_. True) [97] [112], C_dns_get [104] 1])\<rparr>,
       v_fd = 5, v_cli = sock_of [REof] [], v_prx = sock_of [] []\<rparr>]"

lemma server_starts_witness:
  "\<exists>st. silk_main ex_boot ex_argv = Go st
    \<and> (\<exists>ais a. addrs ex_boot = Some ais \<and> find bindable ais = Some a \<and> ai_socket a = Some (st_listenfd st)
      \<and> st_open st = [st_listenfd st])"
proof -
  obtain st where st: "silk_main ex_boot ex_argv = Go st" using ex_start by blast
  have "db_ok (odbc ex_boot)" by (simp add: ex_boot_def db_ok_def db_new_def)
  with server_starts [OF st] st show ?thesis by blast
qed

lemma server_safe_witness:
  "\<exists>st. silk_main ex_boot ex_argv = Go st
    \<and> (case serve ex_visits (st_server st) of
        Inl f \<Rightarrow> f \<in> {Bad_Memcpy, Buffer_Overflow} \<or> \<not> True \<and> f = Null_Deref
      | Inr (ws, s') \<Rightarrow> server_ok True s' \<and> length ws = length ex_visits
          \<and> (\<forall>w \<in> set ws. \<forall>sa. A_connect sa \<in> set (trace w) \<and> sin_family sa = AF_INET \<longrightarrow>
               (\<exists>name. hashStr name = hashStr (user (sess w)) \<and> sql_app (ex_env True) name = Some (passwd (sess w)))))"
proof -
  obtain st where st: "silk_main ex_boot ex_argv = Go st" using ex_start by blast
  let ?e = "(ex_env True)\<lparr>others := (\<lambda>p. fold (table_effect (\<lambda>_. True)) [C_app_put (\<lambda>_. True) [97] [112], C_dns_get [104] 1])\<rparr>"
  have o: "among_others True (ex_env True) (\<lambda>_. [])" "among_others True ?e (\<lambda>_. [C_app_put (\<lambda>_. True) [97] [112], C_dns_get [104] 1])"
    by (simp_all add: among_others_def ex_env_def)
  have v: "t_check (v_env v) \<le> t_put (v_env v) \<and> sql_app (v_env v) = sql_app (ex_env True)
      \<and> (\<forall>n a. resolve (v_env v) n = Some a \<longrightarrow> length a = 4) \<and> (\<exists>cs. among_others True (v_env v) cs)
      \<and> (True \<longrightarrow> plenty (v_env v))"
    if "v \<in> set ex_visits" for v
  proof -
    have "v_env v = ex_env True \<or> v_env v = ?e" using that by (auto simp: ex_visits_def)
    with o show ?thesis by (auto simp: ex_env_def plenty_def)
  qed
  from server_safe [where enough = True and vs = ex_visits and passwords = "sql_app (ex_env True)", OF st v] st show ?thesis by blast
qed

section \<open>From the load generator to the server\<close>

text \<open>C36: The load generator and the server understand each other: from a file with one dotted
  address of at most 14 characters to a line, 1024 lines at most, the load generator takes the
  addresses in turn, and the login it sends with the next URL of its queue, for a user name with
  a dash at its end, is read by the server as that user, that address and port 1080.\<close>

theorem loader_login_understood:
  assumes "ads \<noteq> []" and "length ads \<le> 1024"
    and "\<And>a. a \<in> set ads \<Longrightarrow> length a = 4 \<and> length (dotted a) \<le> 14"
    and "u \<noteq> []" and "dash \<notin> set u" and "uq_wf q" and "uq_urls q = url # urls"
  shows "\<exists>proxies login q' c'. load_proxies (proxy_file (map dotted ads)) [] = Inr proxies
    \<and> init_request (u @ [dash]) proxies i q = Inr (Some (url, login), i + 1, q') \<and> uq_urls q' = urls
    \<and> strip_redirectaddr (c\<lparr>user := login\<rparr>) = (0, c') \<and> user c' = u
    \<and> sin_family (srvpeer c') = AF_INET \<and> sin_addr (srvpeer c') = ads ! (unat i mod length ads)
    \<and> sin_port (srvpeer c') = htons 1080"
proof -
  let ?rows = "map dotted ads" and ?a = "ads ! (unat i mod length ads)"
  have short: "concat (map proxy_rows ?rows) = ?rows"
  proof -
    have "proxy_rows (dotted a) = [dotted a]" if "a \<in> set ads" for a
      using assms(3) [OF that] by (simp add: proxy_rows_def)
    then show ?thesis by (induction ads) auto
  qed
  have "load_proxies (proxy_file ?rows) [] = Inr ([] @ concat (map proxy_rows ?rows))"
    using assms(2,3) short dotted_plain dotted_Nil by (intro load_proxies_rows) fastforce+
  then have load: "load_proxies (proxy_file ?rows) [] = Inr ?rows" by (simp only: short append_Nil)
  have a: "?a \<in> set ads" using assms(1) by simp
  define login where "login = u @ dash # dotted ?a @ [45, 49, 48, 56, 48]"
  have login: "login = login_name u ?a 1080"
    by (simp add: login_def login_name_def dash_def dec.simps)
  have row: "?rows ! (unat i mod length ?rows) = dotted ?a" using assms(1) by simp
  have len: "length login < length u + 33"
    using assms(3) [OF a] by (simp add: login_def)
  obtain q' where q': "\<not> URLQempty q" "URLQget q = Inr (url, q')" "uq_urls q' = urls"
    using get_uq [OF assms(6)] assms(7) by auto
  have "init_request (u @ [dash]) ?rows i q = Inr (Some (url, login), i + 1, q')"
    using q'(1,2) assms(1) len row by (simp add: init_request_def login_def Let_def)
  moreover have "strip_redirectaddr (c\<lparr>user := login\<rparr>) = (0, c\<lparr>user := login\<rparr>\<lparr>user := u,
      srvpeer := (srvpeer (c\<lparr>user := login\<rparr>))\<lparr>sin_family := AF_INET, sin_addr := ?a, sin_port := htons (of_nat 1080)\<rparr>\<rparr>)"
    using assms(3) [OF a] assms(4,5) by (intro strip_login_name) (simp_all add: login)
  ultimately show ?thesis using load q'(3) by simp
qed

lemma loader_login_understood_witness:
  "\<exists>proxies login q' c'. load_proxies (proxy_file (map dotted [[10, 0, 0, 1], [10, 0, 0, 2]])) [] = Inr proxies
    \<and> init_request ([97] @ [dash]) proxies 5 \<lparr>uq_heap = [Some \<lparr>nd_url = Some [104], nd_next = None\<rparr>], uq_head = Some 0, uq_tail = Some 0, uq_size = 1\<rparr>
        = Inr (Some (Some [104], login), 5 + 1, q') \<and> uq_urls q' = []
    \<and> strip_redirectaddr (socks5_cli_zero\<lparr>user := login\<rparr>) = (0, c') \<and> user c' = [97]
    \<and> sin_family (srvpeer c') = AF_INET \<and> sin_addr (srvpeer c') = [[10, 0, 0, 1], [10, 0, 0, 2]] ! (unat (5 :: u32) mod length [[10, 0, 0, 1], [10, 0, 0, 2 :: byte]])
    \<and> sin_port (srvpeer c') = htons 1080"
proof (rule loader_login_understood)
  let ?q = "\<lparr>uq_heap = [Some \<lparr>nd_url = Some [104], nd_next = None\<rparr>], uq_head = Some 0, uq_tail = Some 0, uq_size = 1\<rparr>"
  have r: "uq_rep ?q [0]" by (simp add: uq_rep_def linked_def live_def)
  then show "uq_wf ?q" by (auto simp: uq_wf_def)
  show "uq_urls ?q = Some [104] # []" using uq_urls_rep [OF r] by (simp add: contents_def)
next
  fix a :: "byte list" assume "a \<in> set [[10, 0, 0, 1], [10, 0, 0, 2]]"
  then show "length a = 4 \<and> length (dotted a) \<le> 14" by (auto simp: dec.simps)
qed (simp_all add: dash_def)

end
